(* ===== verification/Prelude.thy ===== *)
theory Prelude
  imports Main "HOL-Library.Multiset" "HOL-Library.Word"
begin

text \<open>
  The vocabulary shared by every component: fixed-width C++ integers, how a run of the
  program ends, sequencing of state-passing programs, generic facts on folds and sorting, and the
  two contracts of step relations: a bound that every step uses up, and an invariant.

  A program fragment takes the state and returns an outcome with the new state. An outcome is
  either a value (\<open>Ret\<close>) or the end of the process (\<open>Halt\<close>): a call of \<open>_exit\<close> or
  \<open>exit\<close>, an exception that nobody catches, an access outside an object (undefined behaviour)
  or a loop that never ends.
\<close>

named_theorems prog_simps \<open>unfolding of the sequencing combinators\<close>

section \<open>Fixed-width integers\<close>

type_synonym u8 = "8 word"

definition i32 :: "int \<Rightarrow> int" where
  "i32 x = signed_take_bit 31 x"

definition i64 :: "int \<Rightarrow> int" where
  "i64 x = signed_take_bit 63 x"

lemma i32_id: "- (2 ^ 31) \<le> x \<Longrightarrow> x < 2 ^ 31 \<Longrightarrow> i32 x = x"
  by (simp add: i32_def signed_take_bit_int_eq_self)

lemma i64_id: "- (2 ^ 63) \<le> x \<Longrightarrow> x < 2 ^ 63 \<Longrightarrow> i64 x = x"
  by (simp add: i64_def signed_take_bit_int_eq_self)

lemma i32_range: "- (2 ^ 31) \<le> i32 x \<and> i32 x < 2 ^ 31"
  using signed_take_bit_int_greater_eq_minus_exp [of 31 x] signed_take_bit_int_less_exp [of 31 x]
  by (simp add: i32_def)

lemma i64_range: "- (2 ^ 63) \<le> i64 x \<and> i64 x < 2 ^ 63"
  using signed_take_bit_int_greater_eq_minus_exp [of 63 x] signed_take_bit_int_less_exp [of 63 x]
  by (simp add: i64_def)

section \<open>Outcomes and sequencing\<close>

datatype halt =
    Exited int          \<comment> \<open>\<open>_exit\<close> or \<open>exit\<close> with this status\<close>
  | Uncaught string     \<comment> \<open>an exception leaves \<open>main\<close>: \<open>std::terminate\<close>\<close>
  | Undefined string    \<comment> \<open>an access outside an object\<close>
  | Diverged string     \<comment> \<open>a loop that never ends\<close>

datatype 'a outcome = Ret 'a | Halt halt

type_synonym ('s, 'a) prog = "'s \<Rightarrow> 'a outcome \<times> 's"

definition ret :: "'a \<Rightarrow> ('s, 'a) prog" where
  [prog_simps]: "ret x = (\<lambda>s. (Ret x, s))"

definition halt :: "halt \<Rightarrow> ('s, 'a) prog" where
  [prog_simps]: "halt h = (\<lambda>s. (Halt h, s))"

definition bnd :: "('s, 'a) prog \<Rightarrow> ('a \<Rightarrow> ('s, 'b) prog) \<Rightarrow> ('s, 'b) prog" where
  "bnd p f = (\<lambda>s. case p s of (Ret x, s') \<Rightarrow> f x s' | (Halt h, s') \<Rightarrow> (Halt h, s'))"

text \<open>A total state transformer and a state query as programs.\<close>

definition upd :: "('s \<Rightarrow> 's) \<Rightarrow> ('s, unit) prog" where
  [prog_simps]: "upd f = (\<lambda>s. (Ret (), f s))"

definition ask :: "('s \<Rightarrow> 'a) \<Rightarrow> ('s, 'a) prog" where
  [prog_simps]: "ask f = (\<lambda>s. (Ret (f s), s))"

text \<open>A call whose failure is an exception that nobody catches.\<close>

definition call :: "string + 'a \<Rightarrow> ('s, 'a) prog" where
  [prog_simps]: "call r = (case r of Inl e \<Rightarrow> halt (Uncaught e) | Inr x \<Rightarrow> ret x)"

text \<open>A call whose failure ends the process in the given way.\<close>

definition guarded :: "halt + 'a \<Rightarrow> ('s, 'a) prog" where
  [prog_simps]: "guarded r = (case r of Inl h \<Rightarrow> halt h | Inr x \<Rightarrow> ret x)"

lemma bnd_Ret [simp]: "p s = (Ret x, s') \<Longrightarrow> bnd p f s = f x s'"
  by (simp add: bnd_def)

lemma bnd_Halt [simp]: "p s = (Halt h, s') \<Longrightarrow> bnd p f s = (Halt h, s')"
  by (simp add: bnd_def)

lemma bnd_ret [simp]: "bnd (ret x) f = f x"
  by (rule ext) (simp add: ret_def)

lemma bnd_ret_right [simp]: "bnd p ret = p"
  by (rule ext) (simp add: bnd_def ret_def split: prod.split outcome.split)

lemma bnd_halt [simp]: "bnd (halt h) f = halt h"
  by (rule ext) (simp add: halt_def)

lemma bnd_upd [simp]: "bnd (upd g) f s = f () (g s)"
  by (simp add: upd_def)

lemma bnd_ask [simp]: "bnd (ask g) f s = f (g s) s"
  by (simp add: ask_def)

lemma bnd_assoc: "bnd (bnd p f) g = bnd p (\<lambda>x. bnd (f x) g)"
  by (rule ext) (simp add: bnd_def split: outcome.splits prod.splits)

lemma bnd_RetE:
  assumes "bnd p f s = (Ret y, t)"
  obtains x s' where "p s = (Ret x, s')" and "f x s' = (Ret y, t)"
  using assms by (auto simp: bnd_def split: outcome.splits prod.splits)

lemma call_Inr [simp]: "call (Inr x) = ret x"
  by (simp add: call_def)

lemma call_Inl [simp]: "call (Inl e) = halt (Uncaught e)"
  by (simp add: call_def)

lemma guarded_Inr [simp]: "guarded (Inr x) = ret x"
  by (simp add: guarded_def)

lemma guarded_Inl [simp]: "guarded (Inl h) = halt h"
  by (simp add: guarded_def)

lemma ret_eq [simp]: "ret x s = (Ret y, t) \<longleftrightarrow> x = y \<and> s = t"
  by (auto simp: ret_def)

lemma call_eq [simp]: "call r s = (Ret x, t) \<longleftrightarrow> r = Inr x \<and> s = t"
  by (cases r) (simp_all add: prog_simps)

lemma guarded_eq [simp]: "guarded r s = (Ret x, t) \<longleftrightarrow> r = Inr x \<and> s = t"
  by (cases r) (simp_all add: prog_simps)

lemma upd_eq [simp]: "upd f s = (Ret u, t) \<longleftrightarrow> t = f s"
  by (auto simp: upd_def)

lemma ask_eq [simp]: "ask f s = (Ret x, t) \<longleftrightarrow> x = f s \<and> t = s"
  by (auto simp: ask_def)

lemma halt_eq [simp]: "halt h s \<noteq> (Ret y, t)"
  by (simp add: halt_def)

text \<open>The outcome alone, for evaluating a run step by step.\<close>

named_theorems outcome_simps \<open>outcomes of the sequencing combinators\<close>

lemma outcome_rules [outcome_simps]:
  "fst (ret x s) = Ret x" "fst (halt h s) = Halt h" "fst (upd f s) = Ret ()" "fst (ask g s) = Ret (g s)"
  "snd (ret x s) = s" "snd (halt h s) = s" "snd (upd f s) = f s" "snd (ask g s) = s"
  by (simp_all add: prog_simps)

lemma outcome_bnd [outcome_simps]:
  "fst (bnd p f s) = (case fst (p s) of Ret x \<Rightarrow> fst (f x (snd (p s))) | Halt h \<Rightarrow> Halt h)"
  "snd (bnd p f s) = (case fst (p s) of Ret x \<Rightarrow> snd (f x (snd (p s))) | Halt h \<Rightarrow> snd (p s))"
  by (simp_all add: bnd_def split: prod.split outcome.split)

text \<open>A range-based \<open>for\<close> loop over a list that is not changed by its body.\<close>

primrec for_each :: "'a list \<Rightarrow> ('a \<Rightarrow> ('s, unit) prog) \<Rightarrow> ('s, unit) prog" where
  "for_each [] body = ret ()"
| "for_each (x # xs) body = bnd (body x) (\<lambda>_. for_each xs body)"

section \<open>Preserved invariants\<close>

text \<open>
  \<open>keeps I p\<close>: whichever way \<open>p\<close> ends, it ends in a state that satisfies \<open>I\<close> if it
  started in one.
\<close>

definition keeps :: "('s \<Rightarrow> bool) \<Rightarrow> ('s, 'a) prog \<Rightarrow> bool" where
  "keeps I p \<longleftrightarrow> (\<forall>s. I s \<longrightarrow> I (snd (p s)))"

named_theorems keeps_intros \<open>introduction rules of preserved invariants\<close>

lemma keepsI: "(\<And>s. I s \<Longrightarrow> I (snd (p s))) \<Longrightarrow> keeps I p"
  by (simp add: keeps_def)

lemma keepsD: "keeps I p \<Longrightarrow> I s \<Longrightarrow> I (snd (p s))"
  by (simp add: keeps_def)

lemma keeps_ret [keeps_intros]: "keeps I (ret x)"
  by (simp add: keeps_def ret_def)

lemma keeps_halt [keeps_intros]: "keeps I (halt h)"
  by (simp add: keeps_def halt_def)

lemma keeps_ask [keeps_intros]: "keeps I (ask f)"
  by (simp add: keeps_def ask_def)

lemma keeps_call [keeps_intros]: "keeps I (call r)"
  by (cases r) (simp_all add: keeps_intros)

lemma keeps_guarded [keeps_intros]: "keeps I (guarded r)"
  by (cases r) (simp_all add: keeps_intros)

lemma keeps_upd [keeps_intros]: "(\<And>s. I s \<Longrightarrow> I (f s)) \<Longrightarrow> keeps I (upd f)"
  by (simp add: keeps_def upd_def)

lemma keeps_bnd [keeps_intros]:
  assumes "keeps I p" and "\<And>x. keeps I (f x)"
  shows "keeps I (bnd p f)"
proof (rule keepsI)
  fix s assume "I s"
  with assms(1) have "I (snd (p s))" by (rule keepsD)
  with assms(2) show "I (snd (bnd p f s))"
    by (auto simp: bnd_def keeps_def split: prod.split outcome.split)
qed

lemma keeps_if [keeps_intros]: "keeps I p \<Longrightarrow> keeps I q \<Longrightarrow> keeps I (if b then p else q)"
  by simp

lemma keeps_option [keeps_intros]:
  "keeps I p \<Longrightarrow> (\<And>x. keeps I (f x)) \<Longrightarrow> keeps I (case r of None \<Rightarrow> p | Some x \<Rightarrow> f x)"
  by (cases r) simp_all

lemma keeps_prod [keeps_intros]: "(\<And>x y. keeps I (f x y)) \<Longrightarrow> keeps I (case r of (x, y) \<Rightarrow> f x y)"
  by (cases r) simp

lemma keeps_sum [keeps_intros]:
  "(\<And>e. keeps I (f e)) \<Longrightarrow> (\<And>x. keeps I (g x)) \<Longrightarrow> keeps I (case r of Inl e \<Rightarrow> f e | Inr x \<Rightarrow> g x)"
  by (cases r) simp_all

lemma keeps_stateless: "(\<And>s. snd (p s) = s) \<Longrightarrow> keeps I p"
  by (simp add: keeps_def)

lemma keeps_for_each [keeps_intros]:
  "(\<And>x. keeps I (body x)) \<Longrightarrow> keeps I (for_each xs body)"
  by (induction xs) (auto intro: keeps_intros)

section \<open>Lists and sorting\<close>

lemma if_cases: "P x \<Longrightarrow> P y \<Longrightarrow> P (if b then x else y)"
  by simp

lemma fold_invariant_list:
  assumes "P s" and "\<And>x s. x \<in> set xs \<Longrightarrow> P s \<Longrightarrow> P (f x s)"
  shows "P (fold f xs s)"
  using assms by (induction xs arbitrary: s) auto

lemma list_update_same_field: "f v = f (xs ! k) \<Longrightarrow> f (xs[k := v] ! j) = f (xs ! j)"
  by (cases "j = k"; cases "k < length xs") (simp_all add: list_update_beyond)

lemma count_distinct: "distinct xs \<Longrightarrow> count (mset xs) a = (if a \<in> set xs then 1 else 0)"
  by (simp add: distinct_count_atmost_1)

lemma find_SomeD: "find P xs = Some x \<Longrightarrow> x \<in> set xs \<and> P x"
  by (induction xs) (auto split: if_splits)

text \<open>
  \<open>std::sort\<close> may order elements with equal keys in any way. What a sorted range shows of its
  keys does not depend on that: any two sorted permutations have the same key at each position.
\<close>

lemma sorted_keys_unique:
  fixes key :: "'a \<Rightarrow> 'k::linorder"
  assumes "sorted (map key xs)" and "sorted (map key ys)" and "mset xs = mset ys"
  shows "map key xs = map key ys"
proof -
  have "mset (map key xs) = mset (map key ys)" using assms(3) by simp
  with assms(1,2) show ?thesis by (metis properties_for_sort)
qed

lemma sort_key_idem: "sort_key f (sort_key f xs) = sort_key f xs"
  by (simp add: sort_key_id_if_sorted)

section \<open>Step relations\<close>

text \<open>The contract behind termination: every step uses up a bound, and only final states are stuck.\<close>

locale bounded_system =
  fixes step :: "'s \<Rightarrow> 's \<Rightarrow> bool" and bound :: "'s \<Rightarrow> nat" and final :: "'s \<Rightarrow> bool"
  assumes step_less: "step s t \<Longrightarrow> bound t < bound s"
    and progress: "\<not> final s \<Longrightarrow> \<exists>t. step s t"
begin

lemma run_bounded: "(step ^^ n) s t \<Longrightarrow> n + bound t \<le> bound s"
proof (induction n arbitrary: t)
  case (Suc n)
  then obtain u where "(step ^^ n) s u" "step u t" by auto
  with Suc.IH [of u] step_less [of u t] show ?case by simp
qed simp

lemma reaches_final: "\<exists>t. step\<^sup>*\<^sup>* s t \<and> final t"
proof (induction "bound s" arbitrary: s rule: less_induct)
  case less
  show ?case
  proof (cases "final s")
    case False
    then obtain u where u: "step s u" using progress by blast
    with less step_less obtain t where "step\<^sup>*\<^sup>* u t" "final t" by blast
    with u show ?thesis by (meson converse_rtranclp_into_rtranclp)
  qed blast
qed

end

text \<open>An invariant of the steps holds in every state that is reached.\<close>

locale invariant_system =
  fixes step :: "'s \<Rightarrow> 's \<Rightarrow> bool" and inv :: "'s \<Rightarrow> bool"
  assumes inv_step: "step s t \<Longrightarrow> inv s \<Longrightarrow> inv t"
begin

lemma inv_reach: "step\<^sup>*\<^sup>* s t \<Longrightarrow> inv s \<Longrightarrow> inv t"
  by (induction rule: rtranclp_induct) (auto intro: inv_step)

end

end
