(* ===== verification/Cxx_Text.thy ===== *)
theory Cxx_Text
  imports Prelude "HOL-Library.Log_Nat"
begin

text \<open>
  The parts of the C++ standard library through which the program reads and prints numbers:
  \<open>std::to_string\<close> (save_segments), \<open>std::stoi\<close> (parse_args), IEEE binary64 arithmetic
  (check_histogram_differential, print_rec) and the \<open>%8.3f\<close> conversion of \<open>printf\<close>
  (print_rec).
\<close>

section \<open>Decimal integers\<close>

definition digit :: "nat \<Rightarrow> char" where
  "digit d = char_of (48 + d)"

fun nat_digits :: "nat \<Rightarrow> string" where
  "nat_digits n = (if n < 10 then [digit n] else nat_digits (n div 10) @ [digit (n mod 10)])"

declare nat_digits.simps [simp del]

definition to_string :: "int \<Rightarrow> string" where
  "to_string n = (if n < 0 then CHR ''-'' # nat_digits (nat (- n)) else nat_digits (nat n))"

definition is_digit :: "char \<Rightarrow> bool" where
  "is_digit c \<longleftrightarrow> 48 \<le> (of_char c :: nat) \<and> (of_char c :: nat) \<le> 57"

definition digit_value :: "char \<Rightarrow> int" where
  "digit_value c = int (of_char c) - 48"

definition is_space :: "char \<Rightarrow> bool" where
  "is_space c \<longleftrightarrow> c = CHR '' '' \<or> 9 \<le> (of_char c :: nat) \<and> (of_char c :: nat) \<le> 13"

datatype conversion_error = Invalid_argument | Out_of_range

definition digits_value :: "string \<Rightarrow> int" where
  "digits_value ds = foldl (\<lambda>v c. 10 * v + digit_value c) 0 ds"

text \<open>
  \<open>std::stoi\<close> in base 10: white space is skipped, one sign may follow, the longest run of
  digits is the number and the rest of the string is ignored. No digit raises
  \<open>std::invalid_argument\<close>, a number that is no \<open>int\<close> raises \<open>std::out_of_range\<close>.
\<close>

definition split_sign :: "string \<Rightarrow> int \<times> string" where
  "split_sign cs = (case cs of
       [] \<Rightarrow> (1, [])
     | c # r \<Rightarrow> if c = CHR ''-'' then (- 1, r) else if c = CHR ''+'' then (1, r) else (1, c # r))"

definition stoi :: "string \<Rightarrow> conversion_error + int" where
  "stoi str =
     (let (sgn, rest) = split_sign (dropWhile is_space str);
          ds = takeWhile is_digit rest;
          v = sgn * digits_value ds
      in if ds = [] then Inl Invalid_argument
         else if v < - (2 ^ 31) \<or> 2 ^ 31 - 1 < v then Inl Out_of_range
         else Inr v)"

lemma of_char_digit [simp]: "d < 10 \<Longrightarrow> (of_char (digit d) :: nat) = 48 + d"
  by (simp add: digit_def)

lemma is_digit_digit [simp]: "d < 10 \<Longrightarrow> is_digit (digit d)"
  by (simp add: is_digit_def)

lemma digit_value_digit [simp]: "d < 10 \<Longrightarrow> digit_value (digit d) = int d"
  by (simp add: digit_value_def)

lemma nat_digits_not_Nil [simp]: "nat_digits n \<noteq> []"
  by (subst nat_digits.simps) simp

lemma nat_digits_all: "c \<in> set (nat_digits n) \<Longrightarrow> is_digit c"
proof (induction n rule: nat_digits.induct)
  case (1 n)
  then show ?case by (subst (asm) nat_digits.simps [of n]) (auto split: if_splits)
qed

lemma digits_value_snoc: "digits_value (ds @ [c]) = 10 * digits_value ds + digit_value c"
  by (simp add: digits_value_def)

lemma digits_value_nat_digits [simp]: "digits_value (nat_digits n) = int n"
proof (induction n rule: nat_digits.induct)
  case (1 n)
  show ?case
  proof (cases "n < 10")
    case True
    then show ?thesis
      by (subst nat_digits.simps) (simp add: digits_value_def)
  next
    case False
    with 1 have "digits_value (nat_digits n) = 10 * int (n div 10) + int (n mod 10)"
      by (subst nat_digits.simps) (simp add: digits_value_snoc)
    then show ?thesis by presburger
  qed
qed

lemma is_digit_not_space: "is_digit c \<Longrightarrow> \<not> is_space c"
  by (auto simp: is_digit_def is_space_def)

lemma digits_read_back:
  assumes "\<forall>c \<in> set ds. is_digit c" and "ds \<noteq> []"
  shows "split_sign (dropWhile is_space ds) = (1, ds)" and "takeWhile is_digit ds = ds"
proof -
  obtain c r where ds: "ds = c # r" using assms(2) by (cases ds) auto
  with assms(1) have c: "is_digit c" by simp
  then have "c \<noteq> CHR ''-''" and "c \<noteq> CHR ''+''" by (auto simp: is_digit_def)
  with c show "split_sign (dropWhile is_space ds) = (1, ds)"
    by (simp add: ds split_sign_def is_digit_not_space)
  show "takeWhile is_digit ds = ds" using assms(1) by (simp add: takeWhile_eq_all_conv)
qed

lemma stoi_to_string:
  assumes "- (2 ^ 31) \<le> n" and "n < 2 ^ 31"
  shows "stoi (to_string n) = Inr n"
proof -
  note reads = digits_read_back [OF _ nat_digits_not_Nil]
  have all: "\<forall>c \<in> set (nat_digits k). is_digit c" for k by (simp add: nat_digits_all)
  have neg: "\<not> is_space CHR ''-''" by (simp add: is_space_def)
  show ?thesis
  proof (cases "n < 0")
    case True
    have "split_sign (dropWhile is_space (to_string n)) = (- 1, nat_digits (nat (- n)))"
      using True neg by (simp add: to_string_def split_sign_def)
    with assms True show ?thesis by (simp add: stoi_def reads(2) [OF all])
  next
    case False
    with assms show ?thesis by (simp add: stoi_def to_string_def reads [OF all])
  qed
qed

lemma stoi_range: "stoi str = Inr v \<Longrightarrow> - (2 ^ 31) \<le> v \<and> v < 2 ^ 31"
  by (auto simp: stoi_def Let_def split: prod.splits if_splits)

section \<open>IEEE binary64\<close>

text \<open>
  A double is a finite value, an infinity or a NaN; finite values are the rationals with a
  53-bit significand. Every operation of the program stays far inside the normal exponent
  range, so rounding is to 53 significant bits, ties to even.
\<close>

datatype double = Fin rat | PInf | NInf | NaN

definition round_half_even :: "rat \<Rightarrow> int" where
  "round_half_even x =
     (let f = \<lfloor>x\<rfloor>; r = x - of_int f in
      if r < 1 / 2 then f else if 1 / 2 < r then f + 1 else if even f then f else f + 1)"

definition floor_log2 :: "rat \<Rightarrow> int" where
  "floor_log2 x =
     (let (p, q) = quotient_of x;
          k = int (floorlog 2 (nat p)) - int (floorlog 2 (nat q))
      in if 2 powi k \<le> x then k else k - 1)"

definition round53 :: "rat \<Rightarrow> rat" where
  "round53 x =
     (if x = 0 then 0
      else let e = floor_log2 \<bar>x\<bar> - 52 in of_int (round_half_even (x / 2 powi e)) * 2 powi e)"

lemma round_half_even_bounds: "\<lfloor>x\<rfloor> \<le> round_half_even x" "round_half_even x \<le> \<lfloor>x\<rfloor> + 1"
  by (auto simp: round_half_even_def Let_def)

lemma round_half_even_of_int [simp]: "round_half_even (of_int n) = n"
  by (simp add: round_half_even_def)

lemma round_half_even_mono:
  assumes "x \<le> y"
  shows "round_half_even x \<le> round_half_even y"
proof (cases "\<lfloor>x\<rfloor> = \<lfloor>y\<rfloor>")
  case True
  with assms show ?thesis by (auto simp: round_half_even_def Let_def)
next
  case False
  with assms have "\<lfloor>x\<rfloor> + 1 \<le> \<lfloor>y\<rfloor>" by (meson floor_mono le_less zless_imp_add1_zle)
  with round_half_even_bounds(1) [of y] round_half_even_bounds(2) [of x] show ?thesis by linarith
qed

lemma round_half_even_uminus: "round_half_even (- x) = - round_half_even x"
proof (cases "x = of_int \<lfloor>x\<rfloor>")
  case True
  then show ?thesis by (metis of_int_minus round_half_even_of_int)
next
  case False
  then have fl: "\<lfloor>- x\<rfloor> = - \<lfloor>x\<rfloor> - 1"
    by (metis ceiling_altdef ceiling_def diff_minus_eq_add minus_diff_eq minus_minus uminus_add_conv_diff)
  show ?thesis unfolding round_half_even_def Let_def fl by (auto simp: field_simps)
qed

lemma floor_log2_bounds:
  assumes "0 < x"
  shows "2 powi floor_log2 x \<le> x" and "x < 2 powi (floor_log2 x + 1)"
proof -
  obtain p q where pq: "quotient_of x = (p, q)" by (metis surj_pair)
  then have q: "0 < q" and x: "x = of_int p / of_int q"
    by (simp_all add: quotient_of_denom_pos quotient_of_div)
  with assms have p: "0 < p" by (simp add: zero_less_divide_iff)
  define a where "a = floorlog 2 (nat p)"
  define b where "b = floorlog 2 (nat q)"
  define k where "k = int a - int b"
  have bits: "2 powi (int (floorlog 2 (nat n)) - 1) \<le> (of_int n :: rat)"
    "of_int n < (2 powi int (floorlog 2 (nat n)) :: rat)" if "0 < n" for n :: int
  proof -
    let ?l = "floorlog 2 (nat n)"
    have l: "0 < ?l" "2 ^ (?l - 1) \<le> nat n" "nat n < 2 ^ ?l"
      using that floorlog_bounds [of "nat n" 2] by (simp_all add: floorlog_def)
    have "(2::int) ^ (?l - 1) \<le> n" "n < 2 ^ ?l"
      using that l(2,3) by (simp_all add: nat_less_iff le_nat_iff flip: of_nat_le_iff of_nat_less_iff)
    then have "(of_int (2 ^ (?l - 1)) :: rat) \<le> of_int n" "(of_int n :: rat) < of_int (2 ^ ?l)"
      by (simp_all only: of_int_le_iff of_int_less_iff)
    moreover have "(2 :: rat) powi (int ?l - 1) = 2 ^ (?l - 1)"
      using l(1) by (simp add: power_int_def nat_diff_distrib)
    ultimately show "2 powi (int ?l - 1) \<le> (of_int n :: rat)" "of_int n < (2 powi int ?l :: rat)"
      by simp_all
  qed
  have low: "2 powi (k - 1) < x"
  proof -
    have "2 powi (k - 1) * 2 powi int b = (2 powi (int a - 1) :: rat)"
      unfolding k_def by (subst power_int_add [symmetric]) simp_all
    also have "\<dots> \<le> x * of_int q" using bits(1) [OF p] q by (simp add: x a_def)
    also have "\<dots> < x * 2 powi int b" using bits(2) [OF q] assms by (simp add: b_def)
    finally show ?thesis by simp
  qed
  have high: "x < 2 powi (k + 1)"
  proof -
    have "x * 2 powi (int b - 1) \<le> x * of_int q" using bits(1) [OF q] assms by (simp add: b_def)
    also have "\<dots> < 2 powi int a" using bits(2) [OF p] q by (simp add: x a_def)
    also have "\<dots> = 2 powi (k + 1) * 2 powi (int b - 1)"
      unfolding k_def by (subst power_int_add [symmetric]) simp_all
    finally show ?thesis by simp
  qed
  have fl: "floor_log2 x = (if 2 powi k \<le> x then k else k - 1)"
    by (simp add: floor_log2_def pq k_def a_def b_def)
  show "2 powi floor_log2 x \<le> x" and "x < 2 powi (floor_log2 x + 1)"
    using low high by (auto simp: fl)
qed

lemma floor_log2_mono:
  assumes "0 < x" and "x \<le> y"
  shows "floor_log2 x \<le> floor_log2 y"
proof (rule ccontr)
  assume "\<not> floor_log2 x \<le> floor_log2 y"
  then have "(2 :: rat) powi (floor_log2 y + 1) \<le> 2 powi floor_log2 x"
    by (intro power_int_increasing) simp_all
  also have "\<dots> \<le> x" using assms(1) by (rule floor_log2_bounds)
  finally show False using assms floor_log2_bounds(2) [of y] by linarith
qed

text \<open>A positive value stays within its power-of-two bracket when it is rounded.\<close>

lemma round53_bracket:
  assumes "0 < x"
  shows "2 powi floor_log2 x \<le> round53 x" and "round53 x \<le> 2 powi (floor_log2 x + 1)"
proof -
  define e where "e = floor_log2 x - 52"
  have x: "round53 x = of_int (round_half_even (x / 2 powi e)) * 2 powi e"
    using assms by (simp add: round53_def e_def Let_def)
  have scale: "(2 :: rat) powi (e + 52) = of_int (2 ^ 52) * 2 powi e"
    "(2 :: rat) powi (e + 53) = of_int (2 ^ 53) * 2 powi e"
    by (simp_all add: power_int_add)
  have "of_int (2 ^ 52) \<le> x / 2 powi e" "x / 2 powi e \<le> of_int (2 ^ 53)"
    using floor_log2_bounds [OF assms] scale by (simp_all add: e_def field_simps)
  then have "2 ^ 52 \<le> round_half_even (x / 2 powi e)" "round_half_even (x / 2 powi e) \<le> 2 ^ 53"
    using round_half_even_mono [of "of_int (2 ^ 52)"] round_half_even_mono [of _ "of_int (2 ^ 53)"]
    by (metis round_half_even_of_int)+
  then have "(of_int (2 ^ 52) :: rat) \<le> of_int (round_half_even (x / 2 powi e))"
    "(of_int (round_half_even (x / 2 powi e)) :: rat) \<le> of_int (2 ^ 53)"
    by (simp_all only: of_int_le_iff)
  then have "2 powi (e + 52) \<le> round53 x" "round53 x \<le> 2 powi (e + 53)"
    unfolding x scale by (intro mult_right_mono; simp)+
  then show "2 powi floor_log2 x \<le> round53 x" and "round53 x \<le> 2 powi (floor_log2 x + 1)"
    by (simp_all add: e_def add.commute)
qed

lemma round53_0 [simp]: "round53 0 = 0"
  by (simp add: round53_def)

lemma round53_mono_pos:
  assumes "0 < x" and "x \<le> y"
  shows "round53 x \<le> round53 y"
proof (cases "floor_log2 x = floor_log2 y")
  case True
  with assms show ?thesis
    by (auto simp: round53_def Let_def intro!: mult_right_mono round_half_even_mono divide_right_mono)
next
  case False
  with floor_log2_mono [OF assms] have "(2 :: rat) powi (floor_log2 x + 1) \<le> 2 powi floor_log2 y"
    by (intro power_int_increasing) simp_all
  with round53_bracket(2) [OF assms(1)] round53_bracket(1) [of y] assms show ?thesis by linarith
qed

lemma round53_uminus: "round53 (- x) = - round53 x"
  by (simp add: round53_def Let_def round_half_even_uminus)

lemma round53_mono:
  assumes "x \<le> y"
  shows "round53 x \<le> round53 y"
proof -
  have pos: "0 < z \<Longrightarrow> 0 < round53 z" for z
    using round53_bracket(1) [of z] zero_less_power_int [of "2 :: rat" "floor_log2 z"] by linarith
  consider "0 < x" | "x \<le> 0" "0 \<le> y" | "y < 0" using assms by linarith
  then show ?thesis
  proof cases
    case 1
    then show ?thesis using assms by (rule round53_mono_pos)
  next
    case 2
    have "round53 x \<le> 0" using pos [of "- x"] 2(1) by (cases "x = 0") (simp_all add: round53_uminus)
    also have "0 \<le> round53 y" using pos [of y] 2(2) by (cases "y = 0") simp_all
    finally show ?thesis .
  next
    case 3
    then have "round53 (- y) \<le> round53 (- x)" using assms by (intro round53_mono_pos) simp_all
    then show ?thesis by (simp add: round53_uminus)
  qed
qed

lemma round_half_even_error: "\<bar>of_int (round_half_even x) - x\<bar> \<le> 1 / 2"
proof -
  define f where "f = \<lfloor>x\<rfloor>"
  have "of_int f \<le> x" "x < of_int f + 1" unfolding f_def by linarith+
  then show ?thesis
    unfolding round_half_even_def Let_def abs_le_iff f_def [symmetric] by (auto split: if_split)
qed

text \<open>The relative error of rounding a positive value is at most one half of the last place.\<close>

lemma round53_error:
  assumes "0 < x"
  shows "\<bar>round53 x - x\<bar> \<le> x / 2 ^ 53"
proof -
  define e where "e = floor_log2 x - 52"
  have x: "round53 x = of_int (round_half_even (x / 2 powi e)) * 2 powi e"
    using assms by (simp add: round53_def e_def Let_def)
  have "\<bar>round53 x - x\<bar> = \<bar>of_int (round_half_even (x / 2 powi e)) - x / 2 powi e\<bar> * 2 powi e"
    unfolding x by (simp add: abs_mult_pos [symmetric] field_simps abs_if)
  also have "\<dots> \<le> 1 / 2 * 2 powi e"
    by (intro mult_right_mono round_half_even_error) simp
  also have "\<dots> * 2 ^ 53 = 2 powi (e + 52)" by (simp add: power_int_add)
  also have "\<dots> \<le> x" using floor_log2_bounds(1) [OF assms] by (simp add: e_def)
  finally show ?thesis by (simp add: field_simps)
qed

lemma round53_separates:
  assumes "0 < x" and "3 / 2 * x \<le> y"
  shows "round53 x < round53 y"
proof -
  have "\<bar>round53 x - x\<bar> \<le> x / 2 ^ 53" and "\<bar>round53 y - y\<bar> \<le> y / 2 ^ 53"
    using round53_error [of x] round53_error [of y] assms by linarith+
  then have "round53 x \<le> x + x / 2 ^ 53" and "y - y / 2 ^ 53 \<le> round53 y"
    unfolding abs_le_iff by linarith+
  with assms show ?thesis by simp
qed

section \<open>printf\<close>

definition pad_left :: "nat \<Rightarrow> char \<Rightarrow> string \<Rightarrow> string" where
  "pad_left w c str = replicate (w - length str) c @ str"

text \<open>\<open>%8.3f\<close>: the exact value rounded to three decimals, right-justified in eight columns.\<close>

definition fmt_8_3f :: "rat \<Rightarrow> string" where
  "fmt_8_3f x =
     (let n = nat (round_half_even (\<bar>x\<bar> * 1000))
      in pad_left 8 CHR '' ''
           ((if x < 0 then ''-'' else '''') @ nat_digits (n div 1000) @ ''.''
              @ pad_left 3 CHR ''0'' (nat_digits (n mod 1000))))"

end
