(* ===== verification/Context.thy ===== *)
theory Context
  imports Cxx_Text
begin

text \<open>
  The data of \<open>gazosan.h\<close>: images, rectangles, image segments, mapped files, timer records, the
  command line options and the \<open>Context\<close>, together with what the process observes and changes
  outside itself (standard streams, written images, clock readings, \<open>errno\<close>, open descriptors
  and mappings). Code that is not part of the repository is a parameter: the record \<open>opencv\<close>
  holds the OpenCV calls, the record \<open>os\<close> the system calls. The last section models the
  diagnostics: \<open>errno_string\<close>, \<open>SyncOut\<close>, \<open>add_color\<close> and \<open>Fatal\<close>.
\<close>

section \<open>Geometry and images\<close>

record point =
  px :: int
  py :: int

record rect =
  rx :: int
  ry :: int
  rwidth :: int
  rheight :: int

text \<open>
  A matrix is its dimensions and its elements, addressed by row and column as
  \<open>at(row, column)\<close> does. Elements outside the dimensions have no meaning: wherever the code
  indexes a matrix without a boundary check, the model checks and reports undefined behaviour.
\<close>

record 'a mat =
  rows :: int
  cols :: int
  pix :: "int \<Rightarrow> int \<Rightarrow> 'a"

definition mat_empty :: "'a mat \<Rightarrow> bool" where
  "mat_empty m \<longleftrightarrow> rows m = 0 \<or> cols m = 0"

definition no_mat :: "'a \<Rightarrow> 'a mat" where
  "no_mat x = \<lparr>rows = 0, cols = 0, pix = (\<lambda>_ _. x)\<rparr>"

definition inside :: "'a mat \<Rightarrow> int \<Rightarrow> int \<Rightarrow> bool" where
  "inside m y x \<longleftrightarrow> 0 \<le> y \<and> y < rows m \<and> 0 \<le> x \<and> x < cols m"

definition put :: "int \<Rightarrow> int \<Rightarrow> 'a \<Rightarrow> 'a mat \<Rightarrow> 'a mat" where
  "put y x v m = m\<lparr>pix := (pix m)(y := (pix m y)(x := v))\<rparr>"

definition same_size :: "'a mat \<Rightarrow> 'b mat \<Rightarrow> bool" where
  "same_size m n \<longleftrightarrow> rows m = rows n \<and> cols m = cols n"

text \<open>A rectangle lies inside a matrix, as a half-open range of rows and columns.\<close>

definition rect_in :: "rect \<Rightarrow> 'a mat \<Rightarrow> bool" where
  "rect_in r m \<longleftrightarrow> 0 \<le> rx r \<and> 0 \<le> ry r \<and> 0 \<le> rwidth r \<and> 0 \<le> rheight r
     \<and> rx r + rwidth r \<le> cols m \<and> ry r + rheight r \<le> rows m"

lemma put_dims [simp]: "rows (put y x v m) = rows m" "cols (put y x v m) = cols m"
  by (simp_all add: put_def)

lemma pix_put [simp]: "pix (put y x v m) y' x' = (if y' = y \<and> x' = x then v else pix m y' x')"
  by (simp add: put_def)

lemma inside_put [simp]: "inside (put y x v m) = inside m"
  by (intro ext) (simp add: inside_def)

type_synonym bgr = "u8 \<times> u8 \<times> u8"
type_synonym scalar = "int \<times> int \<times> int"
type_synonym contour = "point list"
type_synonym vec4i = "int \<times> int \<times> int \<times> int"
type_synonym keypoint = "rat list"

section \<open>The third-party interface: OpenCV\<close>

record dmatch =
  queryIdx :: int
  trainIdx :: int
  distance :: rat

datatype imread_flag = IMREAD_UNCHANGED | IMREAD_COLOR

text \<open>
  One field per OpenCV call of the program; \<open>Inl\<close> is a \<open>cv::Exception\<close>. Output arguments
  are results.
\<close>

record opencv =
  cv_Rect :: "point \<Rightarrow> point \<Rightarrow> rect"
  cv_RGB :: "int \<Rightarrow> int \<Rightarrow> int \<Rightarrow> scalar"
  cv_imdecode :: "u8 list option \<Rightarrow> int \<Rightarrow> imread_flag \<Rightarrow> string + bgr mat"
  cv_bgr2gray :: "bgr mat \<Rightarrow> string + u8 mat"
  cv_bgr2hsv :: "bgr mat \<Rightarrow> string + bgr mat"
  cv_calcHist :: "bgr mat \<Rightarrow> int list \<Rightarrow> int list \<Rightarrow> (rat \<times> rat) list \<Rightarrow> bool \<Rightarrow> bool \<Rightarrow> string + rat mat"
  cv_normalize_minmax :: "rat mat \<Rightarrow> rat \<Rightarrow> rat \<Rightarrow> string + rat mat"
  cv_compareHist :: "rat mat \<Rightarrow> rat mat \<Rightarrow> int \<Rightarrow> string + double"
  cv_threshold_binary :: "u8 mat \<Rightarrow> int \<Rightarrow> int \<Rightarrow> string + u8 mat"
  cv_rect_kernel :: "int \<Rightarrow> int \<Rightarrow> u8 mat"
  cv_morph_gradient :: "u8 mat \<Rightarrow> u8 mat \<Rightarrow> point \<Rightarrow> int \<Rightarrow> string + u8 mat"
  cv_convert_32S :: "u8 mat \<Rightarrow> string + int mat"
  cv_findContours :: "int mat \<Rightarrow> string + contour list \<times> vec4i list"
  cv_zeros :: "int \<Rightarrow> int \<Rightarrow> int mat"
  cv_drawContours :: "int mat \<Rightarrow> contour list \<Rightarrow> int \<Rightarrow> int \<Rightarrow> vec4i list \<Rightarrow> string + int mat"
  cv_add_scalar :: "int mat \<Rightarrow> int \<Rightarrow> int mat"
  cv_watershed :: "bgr mat \<Rightarrow> int mat \<Rightarrow> string + int mat"
  cv_roi :: "u8 mat \<Rightarrow> rect \<Rightarrow> string + u8 mat"
  cv_roi_color :: "bgr mat \<Rightarrow> rect \<Rightarrow> string + bgr mat"
  cv_akaze_detect :: "u8 mat \<Rightarrow> string + keypoint list"
  cv_akaze_compute :: "u8 mat \<Rightarrow> keypoint list \<Rightarrow> string + u8 mat"
  cv_convert_32F :: "u8 mat \<Rightarrow> string + rat mat"
  cv_flann_match :: "rat mat \<Rightarrow> rat mat \<Rightarrow> string + dmatch list"
  cv_merge3 :: "u8 mat \<Rightarrow> u8 mat \<Rightarrow> u8 mat \<Rightarrow> string + bgr mat"
  cv_matchTemplate_sqdiff :: "u8 mat \<Rightarrow> u8 mat \<Rightarrow> string + rat mat"
  cv_min_loc :: "rat mat \<Rightarrow> string + point"
  cv_rectangle :: "bgr mat \<Rightarrow> rect \<Rightarrow> scalar \<Rightarrow> int \<Rightarrow> string + bgr mat"
  cv_imwrite :: "string \<Rightarrow> bgr mat \<Rightarrow> string + bool"

section \<open>The third-party interface: the operating system\<close>

text \<open>
  The clock and the resource usage are functions of how many readings were taken before. A file
  status is the size and the modification time in seconds and nanoseconds. A failing call gives
  its \<open>errno\<close>. \<open>os_strerror_r\<close> gives what the call leaves in the buffer.
\<close>

record file_status =
  st_size :: int
  st_mtim_sec :: int
  st_mtim_nsec :: int

record os =
  os_open :: "string \<Rightarrow> int + int"
  os_fstat :: "int \<Rightarrow> int + file_status"
  os_mmap :: "int \<Rightarrow> int \<Rightarrow> int + u8 list"
  os_strerror_r :: "int \<Rightarrow> string \<Rightarrow> string"
  os_clock :: "nat \<Rightarrow> int \<times> int"
  os_rusage :: "nat \<Rightarrow> (int \<times> int) \<times> (int \<times> int)"

section \<open>The program's own records\<close>

text \<open>
  A pointer to a \<open>TimerRecord\<close> is its position in \<open>Context.timer_records\<close>, which owns every
  record and never drops one.
\<close>

record timer_record =
  tr_name :: string
  tr_parent :: "nat option"
  tr_children :: "nat list"
  tr_start :: int
  tr_end :: int
  tr_user :: int
  tr_sys :: int
  tr_stopped :: bool

record mapped_file =
  mf_name :: string
  mf_data :: "u8 list option"
  mf_size :: int
  mf_mtime :: int

record image_segment =
  seg_area :: rect
  seg_descriptor :: "rat mat"
  seg_roi :: "u8 mat"
  seg_matched :: bool

definition image_segment_of :: "rect \<Rightarrow> u8 mat \<Rightarrow> image_segment" where
  "image_segment_of area roi =
     \<lparr>seg_area = area, seg_descriptor = no_mat 0, seg_roi = roi, seg_matched = False\<rparr>"

definition image_segment_with :: "rect \<Rightarrow> rat mat \<Rightarrow> u8 mat \<Rightarrow> image_segment" where
  "image_segment_with area descriptor roi =
     \<lparr>seg_area = area, seg_descriptor = descriptor, seg_roi = roi, seg_matched = False\<rparr>"

record options =
  color_diagnostics :: bool
  arg_new_file :: string
  arg_old_file :: string
  output_name :: string
  create_change_image :: bool
  bin_threshold :: int
  cross_check :: bool
  thread_count :: int
  perf :: bool

definition default_options :: options where
  "default_options =
     \<lparr>color_diagnostics = False, arg_new_file = [], arg_old_file = [], output_name = [],
      create_change_image = False, bin_threshold = 200, cross_check = False,
      thread_count = 0, perf = False\<rparr>"

record ctx =
  arg :: options
  cmdline_args :: "string list"
  timer_records :: "timer_record list"
  new_file :: "mapped_file option"
  old_file :: "mapped_file option"
  new_color_mat :: "bgr mat"
  old_color_mat :: "bgr mat"
  new_gray_mat :: "u8 mat"
  old_gray_mat :: "u8 mat"
  new_segments :: "image_segment list"
  old_segments :: "image_segment list"

text \<open>
  The state of a run: the context and what the process sees and changes outside it. Images
  handed to \<open>cv::imwrite\<close> are listed with their file names in the order of the calls.
\<close>

record state = ctx +
  w_clock :: nat
  w_errno :: int
  w_errbuf :: string
  w_out :: string
  w_err :: string
  w_written :: "(string \<times> bgr mat) list"
  w_fds :: int
  w_maps :: int

type_synonym 'a act = "(state, 'a) prog"

definition initial_state :: state where
  "initial_state =
     \<lparr>arg = default_options, cmdline_args = [], timer_records = [],
      new_file = None, old_file = None,
      new_color_mat = no_mat (0, 0, 0), old_color_mat = no_mat (0, 0, 0),
      new_gray_mat = no_mat 0, old_gray_mat = no_mat 0,
      new_segments = [], old_segments = [],
      w_clock = 0, w_errno = 0, w_errbuf = replicate 200 (CHR 0x00),
      w_out = [], w_err = [], w_written = [], w_fds = 0, w_maps = 0\<rparr>"

section \<open>Diagnostics\<close>

definition newline :: string where
  "newline = [CHR 0x0A]"

text \<open>
  \<open>errno_string\<close> ignores what \<open>strerror_r\<close> returns and reads the text in its buffer up to
  the terminating zero byte; the buffer is thread-local and starts zeroed.
\<close>

definition errno_string :: "os \<Rightarrow> state \<Rightarrow> string \<times> state" where
  "errno_string os s =
     (let buf = os_strerror_r os (w_errno s) (w_errbuf s)
      in (takeWhile (\<lambda>c. c \<noteq> CHR 0x00) buf, s\<lparr>w_errbuf := buf\<rparr>))"

text \<open>The destructor of a \<open>SyncOut\<close> on \<open>std::cerr\<close> prints the collected text and a line end.\<close>

definition sync_out_err :: "string \<Rightarrow> state \<Rightarrow> state" where
  "sync_out_err ss s = s\<lparr>w_err := w_err s @ ss @ newline\<rparr>"

definition add_color :: "options \<Rightarrow> string \<Rightarrow> string" where
  "add_color a msg =
     (if color_diagnostics a
      then ''gazo-san: '' @ [CHR 0x1B] @ ''[0;1;31m'' @ msg @ '':'' @ [CHR 0x1B] @ ''[0m ''
      else ''gazo-san: '' @ msg @ '': '')"

definition fatal :: "string \<Rightarrow> 'a act" where
  "fatal msg = (\<lambda>s. (Halt (Exited 1), sync_out_err (add_color (arg s) ''fatal'' @ msg) s))"

lemma fatal_never_returns [simp]: "fatal msg s \<noteq> (Ret x, t)"
  by (simp add: fatal_def)

lemma keeps_fatal [keeps_intros]:
  "(\<And>s str. I s \<Longrightarrow> I (s\<lparr>w_err := str\<rparr>)) \<Longrightarrow> keeps I (fatal msg)"
  by (simp add: keeps_def fatal_def sync_out_err_def)

section \<open>A sample system\<close>

text \<open>
  A concrete system for examples: every file but one exists and holds four bytes, time advances
  by one second per reading, and \<open>strerror_r\<close> fills its buffer.
\<close>

definition sample_os :: os where
  "sample_os =
     \<lparr>os_open = (\<lambda>path. if path = ''missing'' then Inl 2 else Inr 3),
      os_fstat = (\<lambda>fd. Inr \<lparr>st_size = 4, st_mtim_sec = 1, st_mtim_nsec = 5\<rparr>),
      os_mmap = (\<lambda>fd n. Inr [1, 2, 3, 4]),
      os_strerror_r = (\<lambda>e buf. ''No such file'' @ replicate 188 (CHR 0x00)),
      os_clock = (\<lambda>n. (int n, 0)),
      os_rusage = (\<lambda>n. ((int n, 0), (0, 0)))\<rparr>"

text \<open>
  A concrete stand-in for OpenCV, for examples only: images of two rows and two columns, one
  contour that covers the image, one descriptor per segment, and a rectangle that paints its
  border.
\<close>

definition mat_map :: "('a \<Rightarrow> 'b) \<Rightarrow> 'a mat \<Rightarrow> 'b mat" where
  "mat_map f m = \<lparr>rows = rows m, cols = cols m, pix = (\<lambda>y x. f (pix m y x))\<rparr>"

definition mat_const :: "int \<Rightarrow> int \<Rightarrow> 'a \<Rightarrow> 'a mat" where
  "mat_const r c v = \<lparr>rows = r, cols = c, pix = (\<lambda>_ _. v)\<rparr>"

definition sub_mat :: "'a mat \<Rightarrow> rect \<Rightarrow> 'a mat" where
  "sub_mat m r = \<lparr>rows = rheight r, cols = rwidth r, pix = (\<lambda>y x. pix m (y + ry r) (x + rx r))\<rparr>"

definition in_rect :: "rect \<Rightarrow> int \<Rightarrow> int \<Rightarrow> bool" where
  "in_rect r y x \<longleftrightarrow> rx r \<le> x \<and> x < rx r + rwidth r \<and> ry r \<le> y \<and> y < ry r + rheight r"

definition on_border :: "rect \<Rightarrow> int \<Rightarrow> int \<Rightarrow> bool" where
  "on_border r y x \<longleftrightarrow> in_rect r y x \<and>
     (x = rx r \<or> x = rx r + rwidth r - 1 \<or> y = ry r \<or> y = ry r + rheight r - 1)"

definition sample_cv :: opencv where
  "sample_cv =
     \<lparr>cv_Rect = (\<lambda>p q. \<lparr>rx = min (px p) (px q), ry = min (py p) (py q),
        rwidth = \<bar>px q - px p\<bar>, rheight = \<bar>py q - py p\<bar>\<rparr>),
      cv_RGB = (\<lambda>r g b. (b, g, r)),
      cv_imdecode = (\<lambda>d n fl. Inr (mat_const 2 2 (7, 7, 7))),
      cv_bgr2gray = (\<lambda>m. if mat_empty m then Inl ''empty'' else Inr (mat_map fst m)),
      cv_bgr2hsv = (\<lambda>m. if mat_empty m then Inl ''empty'' else Inr m),
      cv_calcHist = (\<lambda>m ch sz rg u a. Inr (mat_const 1 1 0)),
      cv_normalize_minmax = (\<lambda>h a b. Inr h),
      cv_compareHist = (\<lambda>h1 h2 k. Inr PInf),
      cv_threshold_binary = (\<lambda>m t v. Inr m),
      cv_rect_kernel = (\<lambda>w h. mat_const h w 1),
      cv_morph_gradient = (\<lambda>m k p n. Inr m),
      cv_convert_32S = (\<lambda>m. Inr (mat_map uint m)),
      cv_findContours = (\<lambda>m. Inr ([[\<lparr>px = 0, py = 0\<rparr>]], [(- 1, - 1, - 1, - 1)])),
      cv_zeros = (\<lambda>r c. mat_const r c 0),
      cv_drawContours = (\<lambda>m cs k l h. Inr (mat_map (\<lambda>_. l) m)),
      cv_add_scalar = (\<lambda>m k. mat_map (\<lambda>v. v + k) m),
      cv_watershed = (\<lambda>c m. Inr m),
      cv_roi = (\<lambda>m r. if rect_in r m then Inr (sub_mat m r) else Inl ''roi''),
      cv_roi_color = (\<lambda>m r. if rect_in r m then Inr (sub_mat m r) else Inl ''roi''),
      cv_akaze_detect = (\<lambda>m. Inr [[0]]),
      cv_akaze_compute = (\<lambda>m ks. Inr (mat_const 1 1 0)),
      cv_convert_32F = (\<lambda>m. Inr (mat_map (\<lambda>v. of_int (uint v)) m)),
      cv_flann_match = (\<lambda>d1 d2. Inr [\<lparr>queryIdx = 0, trainIdx = 0, distance = 0\<rparr>]),
      cv_merge3 = (\<lambda>a b c. Inr \<lparr>rows = rows a, cols = cols a,
        pix = (\<lambda>y x. (pix a y x, pix b y x, pix c y x))\<rparr>),
      cv_matchTemplate_sqdiff = (\<lambda>m t. Inr (mat_const (rows m - rows t + 1) (cols m - cols t + 1) 0)),
      cv_min_loc = (\<lambda>m. Inr \<lparr>px = 0, py = 0\<rparr>),
      cv_rectangle = (\<lambda>m r c w. Inr (m\<lparr>pix := (\<lambda>y x. if on_border r y x
        then (of_int (fst c), of_int (fst (snd c)), of_int (snd (snd c))) else pix m y x)\<rparr>)),
      cv_imwrite = (\<lambda>name m. Inr True)\<rparr>"

end
