(* ===== verification/Perf.thy ===== *)
theory Perf
  imports Context
begin

text \<open>
  The timers of \<open>perf.cc\<close> and the class \<open>Timer\<close> of \<open>gazosan.h\<close>: clock and usage readings,
  creating and stopping records, scoped timers (a \<open>Timer\<close> that is a local variable), and the
  report of \<open>print_timer_records\<close>, which first adopts records without a parent into the
  nearest enclosing record and then prints the forest.
\<close>

section \<open>Readings\<close>

definition now_nsec :: "os \<Rightarrow> state \<Rightarrow> int \<times> state" where
  "now_nsec os s =
     (let (tv_sec, tv_nsec) = os_clock os (w_clock s)
      in (i64 (i64 (tv_sec * 1000000000) + tv_nsec), s\<lparr>w_clock := Suc (w_clock s)\<rparr>))"

definition to_nsec :: "int \<times> int \<Rightarrow> int" where
  "to_nsec t = (let (tv_sec, tv_usec) = t in i64 (i64 (tv_sec * 1000000000) + i64 (tv_usec * 1000)))"

definition get_usage :: "os \<Rightarrow> state \<Rightarrow> (int \<times> int) \<times> state" where
  "get_usage os s =
     (let (ru_utime, ru_stime) = os_rusage os (w_clock s)
      in ((to_nsec ru_utime, to_nsec ru_stime), s\<lparr>w_clock := Suc (w_clock s)\<rparr>))"

section \<open>Creating and stopping records\<close>

definition add_child :: "nat option \<Rightarrow> nat \<Rightarrow> timer_record list \<Rightarrow> timer_record list" where
  "add_child parent k recs = (case parent of
       None \<Rightarrow> recs
     | Some p \<Rightarrow> recs[p := (recs ! p)\<lparr>tr_children := tr_children (recs ! p) @ [k]\<rparr>])"

text \<open>The constructors of \<open>TimerRecord\<close> and \<open>Timer\<close>; the result is the new record's position.\<close>

definition timer_new :: "os \<Rightarrow> string \<Rightarrow> nat option \<Rightarrow> state \<Rightarrow> nat \<times> state" where
  "timer_new os name parent s =
     (let k = length (timer_records s);
          (start, s1) = now_nsec os s;
          ((user, sys), s2) = get_usage os s1;
          r = \<lparr>tr_name = name, tr_parent = parent, tr_children = [], tr_start = start,
               tr_end = 0, tr_user = user, tr_sys = sys, tr_stopped = False\<rparr>
      in (k, s2\<lparr>timer_records := add_child parent k (timer_records s2) @ [r]\<rparr>))"

definition timer_stop :: "os \<Rightarrow> nat \<Rightarrow> state \<Rightarrow> state" where
  "timer_stop os k s =
     (let r = timer_records s ! k in
      if tr_stopped r then s
      else
        let ((user2, sys2), s1) = get_usage os s;
            (now, s2) = now_nsec os s1
        in s2\<lparr>timer_records := (timer_records s2)[k :=
             r\<lparr>tr_stopped := True, tr_end := now,
               tr_user := i64 (user2 - tr_user r), tr_sys := i64 (sys2 - tr_sys r)\<rparr>]\<rparr>)"

text \<open>
  A \<open>Timer\<close> that lives in a scope: its constructor runs before the body and its destructor
  stops the record when the body returns. When the process ends inside the body, the destructor
  does not run.
\<close>

definition with_timer :: "os \<Rightarrow> string \<Rightarrow> nat option \<Rightarrow> (nat \<Rightarrow> 'a act) \<Rightarrow> 'a act" where
  "with_timer os name parent body = (\<lambda>s.
     let (k, s1) = timer_new os name parent s
     in case body k s1 of
          (Ret x, s2) \<Rightarrow> (Ret x, timer_stop os k s2)
        | (Halt h, s2) \<Rightarrow> (Halt h, s2))"

section \<open>The report\<close>

text \<open>
  The inner loop of \<open>print_timer_records\<close>: the nearest earlier record whose interval encloses
  the interval of record \<open>i\<close>.
\<close>

definition encloses :: "timer_record \<Rightarrow> timer_record \<Rightarrow> bool" where
  "encloses outer inner \<longleftrightarrow> tr_start outer \<le> tr_start inner \<and> tr_end inner \<le> tr_end outer"

definition find_outer :: "timer_record list \<Rightarrow> nat \<Rightarrow> nat option" where
  "find_outer recs i = find (\<lambda>j. encloses (recs ! j) (recs ! i)) (rev [0..<i])"

definition adopt :: "nat \<Rightarrow> timer_record list \<Rightarrow> timer_record list" where
  "adopt i recs =
     (if tr_parent (recs ! i) \<noteq> None then recs
      else case find_outer recs i of
             None \<Rightarrow> recs
           | Some j \<Rightarrow> add_child (Some j) i (recs[i := (recs ! i)\<lparr>tr_parent := Some j\<rparr>]))"

definition adopt_all :: "timer_record list \<Rightarrow> timer_record list" where
  "adopt_all recs = fold adopt [0..<length recs] recs"

definition seconds :: "rat \<Rightarrow> rat" where
  "seconds x = round53 (x / 1000000000)"

definition rec_line :: "timer_record \<Rightarrow> nat \<Rightarrow> string" where
  "rec_line r indent =
     '' '' @ fmt_8_3f (seconds (round53 (of_int (tr_user r)))) @
     '' '' @ fmt_8_3f (seconds (round53 (of_int (tr_sys r)))) @
     '' '' @ fmt_8_3f (seconds (round53 (round53 (of_int (tr_end r)) - round53 (of_int (tr_start r))))) @
     ''  '' @ replicate (indent * 2) CHR '' '' @ tr_name r @ newline"

definition sort_children :: "timer_record list \<Rightarrow> timer_record \<Rightarrow> timer_record" where
  "sort_children recs r = r\<lparr>tr_children := sort_key (\<lambda>c. tr_start (recs ! c)) (tr_children r)\<rparr>"

text \<open>
  \<open>print_rec\<close> prints a record, sorts its children in place and recurs. The recursion follows
  pointers, so the model spends one unit of fuel per level and gives up at zero; the result is
  the printed lines and the records with sorted children.
\<close>

fun print_rec :: "nat \<Rightarrow> timer_record list \<Rightarrow> nat \<Rightarrow> nat \<Rightarrow> (string list \<times> timer_record list) option"
  and print_children :: "nat \<Rightarrow> timer_record list \<Rightarrow> nat list \<Rightarrow> nat \<Rightarrow> (string list \<times> timer_record list) option"
where
  "print_rec 0 recs k indent = None"
| "print_rec (Suc fuel) recs k indent =
     (let recs1 = recs[k := sort_children recs (recs ! k)]
      in case print_children fuel recs1 (tr_children (recs1 ! k)) (indent + 1) of
           None \<Rightarrow> None
         | Some (out, recs2) \<Rightarrow> Some (rec_line (recs ! k) indent # out, recs2))"
| "print_children fuel recs [] indent = Some ([], recs)"
| "print_children fuel recs (c # cs) indent =
     (case print_rec fuel recs c indent of
        None \<Rightarrow> None
      | Some (out1, recs1) \<Rightarrow>
          (case print_children fuel recs1 cs indent of
             None \<Rightarrow> None
           | Some (out2, recs2) \<Rightarrow> Some (out1 @ out2, recs2)))"

text \<open>The last loop prints every record that has no parent.\<close>

fun print_roots :: "nat \<Rightarrow> timer_record list \<Rightarrow> nat list \<Rightarrow> (string list \<times> timer_record list) option" where
  "print_roots fuel recs [] = Some ([], recs)"
| "print_roots fuel recs (k # ks) =
     (if tr_parent (recs ! k) \<noteq> None then print_roots fuel recs ks
      else case print_rec fuel recs k 0 of
             None \<Rightarrow> None
           | Some (out1, recs1) \<Rightarrow>
               (case print_roots fuel recs1 ks of
                  None \<Rightarrow> None
                | Some (out2, recs2) \<Rightarrow> Some (out1 @ out2, recs2)))"

definition report_header :: string where
  "report_header = ''     User   System     Real  Name'' @ newline"

definition print_timer_records :: "os \<Rightarrow> unit act" where
  "print_timer_records os = (\<lambda>s.
     let s1 = fold (timer_stop os) [0..<length (timer_records s)] s;
         recs = adopt_all (timer_records s1);
         n = length recs
     in case print_roots n recs [0..<n] of
          None \<Rightarrow> (Halt (Diverged ''print_rec''), s1\<lparr>timer_records := recs\<rparr>)
        | Some (lines, recs') \<Rightarrow>
            (Ret (), s1\<lparr>timer_records := recs', w_out := w_out s1 @ report_header @ concat lines\<rparr>))"

section \<open>Stopping\<close>

lemma readings_frame [simp]:
  "timer_records (snd (now_nsec os s)) = timer_records s"
  "timer_records (snd (get_usage os s)) = timer_records s"
  by (simp_all add: now_nsec_def get_usage_def split: prod.splits)

lemma timer_stop_shape:
  obtains e u y where "timer_records (timer_stop os k s) =
     (if tr_stopped (timer_records s ! k) then timer_records s
      else (timer_records s)[k := (timer_records s ! k)\<lparr>tr_stopped := True, tr_end := e,
        tr_user := u, tr_sys := y\<rparr>])"
proof -
  obtain user2 sys2 s1 where u: "get_usage os s = ((user2, sys2), s1)" by (metis surj_pair)
  obtain now s2 where n: "now_nsec os s1 = (now, s2)" by (metis surj_pair)
  have "timer_records s2 = timer_records s"
    using readings_frame(1) [of os s1] readings_frame(2) [of os s] by (simp add: u n)
  then show thesis
    by (intro that [where e = now and u = "i64 (user2 - tr_user (timer_records s ! k))"
          and y = "i64 (sys2 - tr_sys (timer_records s ! k))"]) (simp add: timer_stop_def Let_def u n)
qed

lemma timer_stop_length [simp]: "length (timer_records (timer_stop os k s)) = length (timer_records s)"
  by (rule timer_stop_shape [of os k s]) simp

lemma timer_stop_stopped:
  "k < length (timer_records s) \<Longrightarrow> tr_stopped (timer_records (timer_stop os k s) ! k)"
  by (rule timer_stop_shape [of os k s]) simp

lemma timer_stop_other:
  "j \<noteq> k \<Longrightarrow> timer_records (timer_stop os k s) ! j = timer_records s ! j"
  by (rule timer_stop_shape [of os k s]) simp

lemma timer_stop_links [simp]:
  "tr_parent (timer_records (timer_stop os k s) ! j) = tr_parent (timer_records s ! j)"
  "tr_children (timer_records (timer_stop os k s) ! j) = tr_children (timer_records s ! j)"
  "tr_start (timer_records (timer_stop os k s) ! j) = tr_start (timer_records s ! j)"
  "tr_name (timer_records (timer_stop os k s) ! j) = tr_name (timer_records s ! j)"
  by (rule timer_stop_shape [of os k s], simp add: list_update_same_field)+

lemma timer_stop_idle: "tr_stopped (timer_records s ! k) \<Longrightarrow> timer_stop os k s = s"
  by (simp add: timer_stop_def)

section \<open>The forest of records\<close>

text \<open>
  The invariant of \<open>timer_records\<close>: the children of a record are exactly the records that name
  it as their parent, each once, and a parent is older than its children.
\<close>

definition wf_timers :: "timer_record list \<Rightarrow> bool" where
  "wf_timers recs \<longleftrightarrow>
     (\<forall>p < length recs. distinct (tr_children (recs ! p)) \<and>
        set (tr_children (recs ! p)) = {c. c < length recs \<and> tr_parent (recs ! c) = Some p}) \<and>
     (\<forall>c < length recs. \<forall>p. tr_parent (recs ! c) = Some p \<longrightarrow> p < c)"

lemma wf_timersI:
  assumes "\<And>p. p < length recs \<Longrightarrow> distinct (tr_children (recs ! p))"
    and "\<And>p c. p < length recs \<Longrightarrow>
      c \<in> set (tr_children (recs ! p)) \<longleftrightarrow> c < length recs \<and> tr_parent (recs ! c) = Some p"
    and "\<And>c p. c < length recs \<Longrightarrow> tr_parent (recs ! c) = Some p \<Longrightarrow> p < c"
  shows "wf_timers recs"
  using assms by (auto simp: wf_timers_def)

lemma wf_timers_distinct: "wf_timers recs \<Longrightarrow> p < length recs \<Longrightarrow> distinct (tr_children (recs ! p))"
  by (simp add: wf_timers_def)

lemma wf_timers_children:
  "wf_timers recs \<Longrightarrow> p < length recs \<Longrightarrow>
     c \<in> set (tr_children (recs ! p)) \<longleftrightarrow> c < length recs \<and> tr_parent (recs ! c) = Some p"
  by (simp add: wf_timers_def)

lemma wf_timers_older: "wf_timers recs \<Longrightarrow> c < length recs \<Longrightarrow> tr_parent (recs ! c) = Some p \<Longrightarrow> p < c"
  by (simp add: wf_timers_def)

lemma wf_timers_Nil [simp]: "wf_timers []"
  by (simp add: wf_timers_def)

lemma wf_timers_cong:
  assumes "length recs' = length recs"
    and "\<And>j. j < length recs \<Longrightarrow> tr_parent (recs' ! j) = tr_parent (recs ! j)"
    and "\<And>j. j < length recs \<Longrightarrow> mset (tr_children (recs' ! j)) = mset (tr_children (recs ! j))"
    and "wf_timers recs"
  shows "wf_timers recs'"
proof (rule wf_timersI)
  fix p assume p: "p < length recs'"
  with assms(1,3) have same: "mset (tr_children (recs' ! p)) = mset (tr_children (recs ! p))" by simp
  with p assms(1,4) show "distinct (tr_children (recs' ! p))"
    by (metis mset_eq_imp_distinct_iff wf_timers_distinct)
  fix c
  from same have "set (tr_children (recs' ! p)) = set (tr_children (recs ! p))"
    by (rule mset_eq_setD)
  with p assms(1,2,4) show "c \<in> set (tr_children (recs' ! p)) \<longleftrightarrow>
      c < length recs' \<and> tr_parent (recs' ! c) = Some p"
    by (auto simp: wf_timers_children)
next
  fix c p assume "c < length recs'" and "tr_parent (recs' ! c) = Some p"
  with assms(1,2,4) show "p < c" by (auto dest: wf_timers_older)
qed

lemma add_child_length [simp]: "length (add_child parent k recs) = length recs"
  by (simp add: add_child_def split: option.split)

lemma add_child_parent [simp]: "tr_parent (add_child parent k recs ! j) = tr_parent (recs ! j)"
  by (simp add: add_child_def list_update_same_field split: option.split)

lemma add_child_children:
  "j < length recs \<Longrightarrow> tr_children (add_child parent k recs ! j) =
     tr_children (recs ! j) @ (if parent = Some j then [k] else [])"
  by (auto simp: add_child_def nth_list_update split: option.split)

lemma wf_timers_new:
  assumes wf: "wf_timers recs" and p: "\<And>p. parent = Some p \<Longrightarrow> p < length recs"
    and r: "tr_parent r = parent" "tr_children r = []"
  shows "wf_timers (add_child parent (length recs) recs @ [r])"
proof (rule wf_timersI)
  fix q assume q: "q < length (add_child parent (length recs) recs @ [r])"
  show "distinct (tr_children ((add_child parent (length recs) recs @ [r]) ! q))"
    using q wf r by (auto simp: nth_append add_child_children wf_timers_distinct wf_timers_children)
  fix c
  show "c \<in> set (tr_children ((add_child parent (length recs) recs @ [r]) ! q)) \<longleftrightarrow>
      c < length (add_child parent (length recs) recs @ [r]) \<and>
      tr_parent ((add_child parent (length recs) recs @ [r]) ! c) = Some q"
    using q r p wf_timers_children [OF wf, of q c] wf_timers_older [OF wf, of c q]
    by (auto simp: nth_append add_child_children less_Suc_eq)
next
  fix c q
  assume "c < length (add_child parent (length recs) recs @ [r])"
    and "tr_parent ((add_child parent (length recs) recs @ [r]) ! c) = Some q"
  then show "q < c"
    using p r wf_timers_older [OF wf, of c q] by (auto simp: nth_append split: if_splits)
qed

lemma find_outer_less: "find_outer recs i = Some j \<Longrightarrow> j < i"
  by (auto simp: find_outer_def dest: find_SomeD)

lemma adopt_length [simp]: "length (adopt i recs) = length recs"
  by (simp add: adopt_def split: option.split)

lemma wf_timers_adopt:
  assumes wf: "wf_timers recs" and i: "i < length recs"
  shows "wf_timers (adopt i recs)"
proof (cases "tr_parent (recs ! i) = None \<and> find_outer recs i \<noteq> None")
  case False
  then show ?thesis using wf by (auto simp: adopt_def)
next
  case True
  then obtain j where j: "find_outer recs i = Some j" and none: "tr_parent (recs ! i) = None"
    by auto
  let ?mid = "recs[i := (recs ! i)\<lparr>tr_parent := Some j\<rparr>]"
  from j have ji: "j < i" by (rule find_outer_less)
  have eq: "adopt i recs = add_child (Some j) i ?mid"
    using j none by (simp add: adopt_def)
  have ch: "tr_children (?mid ! q) = tr_children (recs ! q)" for q
    using i by (cases "q = i") simp_all
  have pa: "tr_parent (?mid ! q) = (if q = i then Some j else tr_parent (recs ! q))" for q
    using i by simp
  have fresh: "i \<notin> set (tr_children (recs ! q))" if "q < length recs" for q
    using wf_timers_children [OF wf that, of i] none by simp
  show ?thesis
    unfolding eq
  proof (rule wf_timersI)
    fix q assume q: "q < length (add_child (Some j) i ?mid)"
    then show "distinct (tr_children (add_child (Some j) i ?mid ! q))"
      using fresh [of q] wf by (simp add: add_child_children ch wf_timers_distinct)
    fix c show "c \<in> set (tr_children (add_child (Some j) i ?mid ! q)) \<longleftrightarrow>
        c < length (add_child (Some j) i ?mid) \<and>
        tr_parent (add_child (Some j) i ?mid ! c) = Some q"
      using q i none wf_timers_children [OF wf, of q c] by (auto simp: add_child_children ch pa)
  next
    fix c q
    assume "c < length (add_child (Some j) i ?mid)"
      and "tr_parent (add_child (Some j) i ?mid ! c) = Some q"
    then show "q < c" using ji wf_timers_older [OF wf, of c q] by (auto simp: pa split: if_splits)
  qed
qed

lemma adopt_all_wf:
  assumes "wf_timers recs"
  shows "wf_timers (adopt_all recs) \<and> length (adopt_all recs) = length recs"
  unfolding adopt_all_def
  by (rule fold_invariant_list) (use assms in \<open>auto simp: wf_timers_adopt\<close>)

section \<open>What the report prints\<close>

text \<open>
  \<open>visits\<close> lists the records below a record in printing order, with their indentation;
  \<open>sorted_recs\<close> is the forest with every children list sorted by start time.
\<close>

definition sorted_recs :: "timer_record list \<Rightarrow> timer_record list" where
  "sorted_recs recs = map (sort_children recs) recs"

fun visits :: "nat \<Rightarrow> timer_record list \<Rightarrow> nat \<Rightarrow> nat \<Rightarrow> (nat \<times> nat) list" where
  "visits 0 S k d = []"
| "visits (Suc fuel) S k d = (k, d) # concat (map (\<lambda>c. visits fuel S c (d + 1)) (tr_children (S ! k)))"

definition lines_of :: "timer_record list \<Rightarrow> (nat \<times> nat) list \<Rightarrow> string list" where
  "lines_of S vs = map (\<lambda>(k, d). rec_line (S ! k) d) vs"

definition younger :: "timer_record list \<Rightarrow> bool" where
  "younger S \<longleftrightarrow> (\<forall>k < length S. \<forall>c \<in> set (tr_children (S ! k)). k < c \<and> c < length S)"

lemma youngerD:
  "younger S \<Longrightarrow> k < length S \<Longrightarrow> c \<in> set (tr_children (S ! k)) \<Longrightarrow> k < c \<and> c < length S"
  unfolding younger_def by blast

lemma sort_children_fields [simp]:
  "tr_start (sort_children recs r) = tr_start r"
  "tr_parent (sort_children recs r) = tr_parent r"
  "mset (tr_children (sort_children recs r)) = mset (tr_children r)"
  "set (tr_children (sort_children recs r)) = set (tr_children r)"
  "rec_line (sort_children recs r) d = rec_line r d"
  by (simp_all add: sort_children_def rec_line_def)

lemma sorted_recs_length [simp]: "length (sorted_recs recs) = length recs"
  by (simp add: sorted_recs_def)

lemma sorted_recs_nth [simp]: "k < length recs \<Longrightarrow> sorted_recs recs ! k = sort_children recs (recs ! k)"
  by (simp add: sorted_recs_def)

lemma sort_in_place:
  "sorted_recs (recs[k := sort_children recs (recs ! k)]) = sorted_recs recs"
proof -
  let ?r = "recs[k := sort_children recs (recs ! k)]"
  have keys: "sort_children ?r = sort_children recs"
    by (intro ext) (simp add: sort_children_def list_update_same_field)
  have idem: "sort_children recs (sort_children recs r) = sort_children recs r" for r
    by (simp add: sort_children_def sort_key_idem)
  show ?thesis
    unfolding sorted_recs_def keys
    by (rule nth_equalityI) (simp_all add: list_update_same_field [where f = "sort_children recs"] idem)
qed

lemma lines_of_Cons [simp]: "lines_of S ((k, d) # vs) = rec_line (S ! k) d # lines_of S vs"
  by (simp add: lines_of_def)

lemma lines_of_append [simp]: "lines_of S (vs @ ws) = lines_of S vs @ lines_of S ws"
  by (simp add: lines_of_def)

lemma lines_of_Nil [simp]: "lines_of S [] = []"
  by (simp add: lines_of_def)

lemma print_rec_visits:
  shows "sorted_recs recs = S \<Longrightarrow> younger S \<Longrightarrow> k < length S \<Longrightarrow> length S - k \<le> fuel \<Longrightarrow>
      \<exists>recs'. print_rec fuel recs k d = Some (lines_of S (visits fuel S k d), recs') \<and> sorted_recs recs' = S"
    and "sorted_recs recs = S \<Longrightarrow> younger S \<Longrightarrow> \<forall>c \<in> set cs. c < length S \<and> length S - c \<le> fuel \<Longrightarrow>
      \<exists>recs'. print_children fuel recs cs d = Some (lines_of S (concat (map (\<lambda>c. visits fuel S c d) cs)), recs')
        \<and> sorted_recs recs' = S"
proof (induction fuel recs k d and fuel recs cs d rule: print_rec_print_children.induct)
  case (2 fuel recs k d)
  let ?r = "recs[k := sort_children recs (recs ! k)]"
  have n: "length S = length recs" using "2.prems"(1) by auto
  have cs: "tr_children (?r ! k) = tr_children (S ! k)" using "2.prems"(1,3) n by auto
  have "\<forall>c \<in> set (tr_children (?r ! k)). c < length S \<and> length S - c \<le> fuel"
  proof
    fix c assume "c \<in> set (tr_children (?r ! k))"
    then have "c \<in> set (tr_children (S ! k))" unfolding cs .
    with "2.prems"(2,3) have "k < c \<and> c < length S" by (rule youngerD)
    with "2.prems"(4) show "c < length S \<and> length S - c \<le> fuel" by auto
  qed
  then obtain recs' where "print_children fuel ?r (tr_children (?r ! k)) (d + 1) =
      Some (lines_of S (concat (map (\<lambda>c. visits fuel S c (d + 1)) (tr_children (S ! k)))), recs')"
    and "sorted_recs recs' = S"
    using "2.IH" "2.prems"(1,2) by (auto simp only: sort_in_place cs)
  moreover have "rec_line (recs ! k) d = rec_line (S ! k) d" using "2.prems"(1,3) n by auto
  ultimately show ?case by simp
next
  case (4 fuel recs c cs d)
  from "4.prems" "4.IH"(1) obtain r1 where r1: "print_rec fuel recs c d = Some (lines_of S (visits fuel S c d), r1)"
    and s1: "sorted_recs r1 = S" by auto
  from "4.IH"(2) [OF r1 refl s1] "4.prems" obtain r2 where
    "print_children fuel r1 cs d = Some (lines_of S (concat (map (\<lambda>c. visits fuel S c d) cs)), r2)"
    and "sorted_recs r2 = S" by auto
  with r1 show ?case by simp
qed auto

lemma print_roots_visits:
  assumes "younger S" and "length S \<le> fuel"
  shows "sorted_recs recs = S \<Longrightarrow> \<forall>k \<in> set ks. k < length S \<Longrightarrow>
    \<exists>recs'. print_roots fuel recs ks = Some (lines_of S
      (concat (map (\<lambda>k. visits fuel S k 0) (filter (\<lambda>k. tr_parent (S ! k) = None) ks))), recs')
      \<and> sorted_recs recs' = S"
proof (induction ks arbitrary: recs)
  case Nil
  then show ?case by simp
next
  case (Cons k ks)
  have par: "tr_parent (recs ! k) = tr_parent (S ! k)" using Cons.prems by auto
  show ?case
  proof (cases "tr_parent (S ! k) = None")
    case False
    with Cons par show ?thesis by auto
  next
    case True
    have "length S - k \<le> fuel" using assms(2) by simp
    then obtain r1 where r1: "print_rec fuel recs k 0 = Some (lines_of S (visits fuel S k 0), r1)"
      and s1: "sorted_recs r1 = S"
      using print_rec_visits(1) [OF Cons.prems(1) assms(1), of k fuel 0] Cons.prems(2) by auto
    with Cons.IH [OF s1] Cons.prems(2) True par show ?thesis by auto
  qed
qed

text \<open>
  Each visited record sends its children to be visited one level deeper, and nothing else is
  visited: counting visits this way shows that a well-formed forest is printed record by record,
  each exactly once and at its depth.
\<close>

definition kids :: "timer_record list \<Rightarrow> nat \<times> nat \<Rightarrow> (nat \<times> nat) multiset" where
  "kids S v = mset (map (\<lambda>c. (c, snd v + 1)) (tr_children (S ! fst v)))"

lemma visits_flow:
  assumes "younger S"
  shows "k < length S \<Longrightarrow> length S - k \<le> fuel \<Longrightarrow>
    mset (visits fuel S k d) = {#(k, d)#} + (\<Sum>v \<in># mset (visits fuel S k d). kids S v)"
proof (induction fuel arbitrary: k d)
  case 0
  then show ?case by simp
next
  case (Suc fuel)
  have IH: "mset (visits fuel S c (d + 1)) =
      {#(c, d + 1)#} + (\<Sum>v \<in># mset (visits fuel S c (d + 1)). kids S v)"
    if "c \<in> set (tr_children (S ! k))" for c
    using youngerD [OF assms Suc.prems(1) that] Suc.prems(2) by (intro Suc.IH) auto
  have part: "mset (concat (map (\<lambda>c. visits fuel S c (d + 1)) cs)) =
      mset (map (\<lambda>c. (c, d + 1)) cs) +
      (\<Sum>v \<in># mset (concat (map (\<lambda>c. visits fuel S c (d + 1)) cs)). kids S v)"
    if "set cs \<subseteq> set (tr_children (S ! k))" for cs
    using that
  proof (induction cs)
    case (Cons c cs)
    then show ?case using IH [of c] by (simp add: ac_simps)
  qed simp
  from part [OF subset_refl] show ?case by (simp add: kids_def)
qed

fun depth_up :: "timer_record list \<Rightarrow> nat \<Rightarrow> nat \<Rightarrow> nat" where
  "depth_up recs 0 k = 0"
| "depth_up recs (Suc f) k =
     (case tr_parent (recs ! k) of None \<Rightarrow> 0 | Some p \<Rightarrow> Suc (depth_up recs f p))"

definition depth :: "timer_record list \<Rightarrow> nat \<Rightarrow> nat" where
  "depth recs k = depth_up recs k k"

lemma depth_up_enough:
  assumes "wf_timers recs"
  shows "k < length recs \<Longrightarrow> k \<le> f \<Longrightarrow> depth_up recs f k = depth recs k"
proof (induction k arbitrary: f rule: less_induct)
  case (less k)
  show ?case
  proof (cases "tr_parent (recs ! k)")
    case None
    then show ?thesis by (cases f; cases k) (simp_all add: depth_def)
  next
    case (Some p)
    then have p: "p < k" using assms less.prems by (simp add: wf_timers_older)
    then obtain g h where "f = Suc g" "k = Suc h" using less.prems by (cases f; cases k) auto
    moreover have "depth_up recs g p = depth recs p" and "depth_up recs h p = depth recs p"
      using p less calculation by auto
    moreover have "depth recs k = depth_up recs k k" by (simp only: depth_def)
    ultimately show ?thesis using Some by simp
  qed
qed

lemma depth_step:
  assumes "wf_timers recs" and "k < length recs"
  shows "depth recs k = (case tr_parent (recs ! k) of None \<Rightarrow> 0 | Some p \<Rightarrow> Suc (depth recs p))"
proof (cases "tr_parent (recs ! k)")
  case None
  then show ?thesis by (cases k) (simp_all add: depth_def)
next
  case (Some p)
  then have "p < k" using assms by (simp add: wf_timers_older)
  then obtain h where k: "k = Suc h" and "p \<le> h" by (cases k) auto
  have "depth recs k = Suc (depth_up recs h p)" using Some k by (simp add: depth_def)
  also have "depth_up recs h p = depth recs p"
    using assms k \<open>p \<le> h\<close> by (intro depth_up_enough) auto
  finally show ?thesis using Some by simp
qed

lemma kids_count:
  assumes wf: "wf_timers S" and v: "fst v < length S" and j: "j < length S"
  shows "count (kids S v) (j, d) =
    (case tr_parent (S ! j) of None \<Rightarrow> 0 | Some p \<Rightarrow> if v = (p, d - 1) \<and> 0 < d then 1 else 0)"
proof -
  have dist: "distinct (map (\<lambda>c. (c, snd v + 1)) (tr_children (S ! fst v)))"
    using wf_timers_distinct [OF wf v] by (simp add: distinct_map inj_on_def)
  have "count (kids S v) (j, d) =
      (if (j, d) \<in> set (map (\<lambda>c. (c, snd v + 1)) (tr_children (S ! fst v))) then 1 else 0)"
    unfolding kids_def by (rule count_distinct [OF dist])
  then show ?thesis
    using wf_timers_children [OF wf v, of j] j by (cases v) (auto split: option.split)
qed

lemma visits_in_range:
  assumes "younger S"
  shows "k < length S \<Longrightarrow> v \<in> set (visits fuel S k d) \<Longrightarrow> fst v < length S"
proof (induction fuel arbitrary: k d)
  case (Suc fuel)
  then show ?case using youngerD [OF assms Suc.prems(1)] by fastforce
qed simp

lemma wf_timers_sorted: "wf_timers recs \<Longrightarrow> wf_timers (sorted_recs recs)"
  by (rule wf_timers_cong [of _ recs]) simp_all

lemma wf_timers_younger: "wf_timers recs \<Longrightarrow> younger recs"
  unfolding younger_def by (auto simp: wf_timers_children dest: wf_timers_older)

lemma visits_once:
  assumes wf: "wf_timers S" and fuel: "length S \<le> fuel"
  defines "V \<equiv> mset (concat (map (\<lambda>k. visits fuel S k 0)
    (filter (\<lambda>k. tr_parent (S ! k) = None) [0..<length S])))"
  shows "V = image_mset (\<lambda>k. (k, depth S k)) (mset [0..<length S])"
proof (rule multiset_eqI)
  note young = wf_timers_younger [OF wf]
  have flow: "mset (concat (map (\<lambda>k. visits fuel S k 0) ks)) = mset (map (\<lambda>k. (k, 0)) ks) +
      (\<Sum>v \<in># mset (concat (map (\<lambda>k. visits fuel S k 0) ks)). kids S v)"
    if "set ks \<subseteq> {..<length S}" for ks
    using that
  proof (induction ks)
    case (Cons k ks)
    then have "mset (visits fuel S k 0) = {#(k, 0)#} + (\<Sum>v \<in># mset (visits fuel S k 0). kids S v)"
      using fuel by (intro visits_flow [OF young]) auto
    with Cons show ?case by (simp add: ac_simps)
  qed simp
  have V: "V = mset (map (\<lambda>k. (k, 0)) (filter (\<lambda>k. tr_parent (S ! k) = None) [0..<length S])) +
      (\<Sum>v \<in># V. kids S v)"
    unfolding V_def by (rule flow) auto
  have inV: "v \<in># V \<Longrightarrow> fst v < length S" for v
    unfolding V_def by (auto dest: visits_in_range [OF young])
  have roots: "count (mset (map (\<lambda>k. (k, 0::nat)) (filter (\<lambda>k. tr_parent (S ! k) = None) [0..<length S]))) (j, d)
      = (if tr_parent (S ! j) = None \<and> d = 0 then 1 else 0)" if "j < length S" for j d
    using that by (subst count_distinct) (auto simp: distinct_map inj_on_def)
  have sums: "count (\<Sum>v \<in># V. kids S v) (j, d) = (case tr_parent (S ! j) of None \<Rightarrow> 0
      | Some p \<Rightarrow> if 0 < d then count V (p, d - 1) else 0)" if "j < length S" for j d
  proof -
    have "count (\<Sum>v \<in># V. kids S v) (j, d) = (\<Sum>v \<in># V. count (kids S v) (j, d))"
      by (induction V) simp_all
    also have "\<dots> = (\<Sum>v \<in># V. case tr_parent (S ! j) of None \<Rightarrow> 0
        | Some p \<Rightarrow> if v = (p, d - 1) \<and> 0 < d then 1 else 0)"
      using that inV by (intro arg_cong [of _ _ sum_mset] image_mset_cong) (simp add: kids_count [OF wf])
    finally show ?thesis by (cases "tr_parent (S ! j)"; cases "0 < d") (simp_all add: sum_mset_delta)
  qed
  have step: "count V (j, d) = (if d = depth S j then 1 else 0)" if "j < length S" for j d
    using that
  proof (induction j arbitrary: d rule: less_induct)
    case (less j)
    have eq: "count V (j, d) = (if tr_parent (S ! j) = None \<and> d = 0 then 1 else 0) +
        (case tr_parent (S ! j) of None \<Rightarrow> 0 | Some p \<Rightarrow> if 0 < d then count V (p, d - 1) else 0)"
      by (subst V) (simp add: roots sums less.prems del: mset_map)
    show ?case
    proof (cases "tr_parent (S ! j)")
      case None
      with eq show ?thesis using depth_step [OF wf less.prems] by simp
    next
      case (Some p)
      then have "p < j" using wf less.prems by (simp add: wf_timers_older)
      with less have "count V (p, d - 1) = (if d - 1 = depth S p then 1 else 0)" by simp
      with eq Some show ?thesis using depth_step [OF wf less.prems] by (cases d) simp_all
    qed
  qed
  fix x :: "nat \<times> nat"
  obtain j d where x: "x = (j, d)" by (cases x)
  have rhs: "count (image_mset (\<lambda>k. (k, depth S k)) (mset [0..<length S])) x =
      (if j < length S \<and> d = depth S j then 1 else 0)"
    unfolding mset_map [symmetric] x by (subst count_distinct) (auto simp: distinct_map inj_on_def)
  show "count V x = count (image_mset (\<lambda>k. (k, depth S k)) (mset [0..<length S])) x"
    unfolding rhs using step [of j d] inV [of x] by (auto simp: x count_eq_zero_iff)
qed

section \<open>Scoped timers and invariants\<close>

text \<open>Creating and stopping a timer touches only the records and the count of readings.\<close>

lemma timer_new_frame:
  obtains c where "timer_new os name parent s = (length (timer_records s),
    s\<lparr>w_clock := c, timer_records := timer_records (snd (timer_new os name parent s))\<rparr>)"
proof -
  obtain t s1 where n: "now_nsec os s = (t, s1)" by (metis surj_pair)
  obtain u v s2 where g: "get_usage os s1 = ((u, v), s2)" by (metis surj_pair)
  have "s2 = s\<lparr>w_clock := w_clock s2\<rparr>"
    using n g by (auto simp: now_nsec_def get_usage_def split: prod.splits)
  with that [of "w_clock s2"] n g show thesis
    by (simp add: timer_new_def Let_def split: prod.splits)
qed

lemma timer_stop_frame:
  obtains c where "timer_stop os k s =
    s\<lparr>w_clock := c, timer_records := timer_records (timer_stop os k s)\<rparr>"
proof -
  obtain u v s1 where g: "get_usage os s = ((u, v), s1)" by (metis surj_pair)
  obtain t s2 where n: "now_nsec os s1 = (t, s2)" by (metis surj_pair)
  have "s2 = s\<lparr>w_clock := w_clock s2\<rparr>"
    using n g by (auto simp: now_nsec_def get_usage_def split: prod.splits)
  then have "\<exists>r. timer_stop os k s = s\<lparr>w_clock := w_clock s2, timer_records := r\<rparr> \<or> timer_stop os k s = s"
    using n g by (cases s2; cases s) (auto simp: timer_stop_def Let_def)
  then show thesis using that [of "w_clock s2"] that [of "w_clock s"] by auto
qed

lemma timer_new_field:
  assumes "\<And>c r. f (s\<lparr>w_clock := c, timer_records := r\<rparr>) = f s"
  shows "f (snd (timer_new os nm p s)) = f s"
  by (rule timer_new_frame [of os nm p s]) (metis assms snd_conv)

lemma timer_stop_field:
  assumes "\<And>c r. f (s\<lparr>w_clock := c, timer_records := r\<rparr>) = f s"
  shows "f (timer_stop os k s) = f s"
  by (rule timer_stop_frame [of os k s]) (metis assms)

lemma timer_new_fields [simp]:
  "arg (snd (timer_new os nm p s)) = arg s" "cmdline_args (snd (timer_new os nm p s)) = cmdline_args s"
  "new_file (snd (timer_new os nm p s)) = new_file s" "old_file (snd (timer_new os nm p s)) = old_file s"
  "new_color_mat (snd (timer_new os nm p s)) = new_color_mat s"
  "old_color_mat (snd (timer_new os nm p s)) = old_color_mat s"
  "new_gray_mat (snd (timer_new os nm p s)) = new_gray_mat s"
  "old_gray_mat (snd (timer_new os nm p s)) = old_gray_mat s"
  "new_segments (snd (timer_new os nm p s)) = new_segments s"
  "old_segments (snd (timer_new os nm p s)) = old_segments s"
  "w_errno (snd (timer_new os nm p s)) = w_errno s"
  "w_out (snd (timer_new os nm p s)) = w_out s" "w_err (snd (timer_new os nm p s)) = w_err s"
  "w_written (snd (timer_new os nm p s)) = w_written s"
  "w_fds (snd (timer_new os nm p s)) = w_fds s" "w_maps (snd (timer_new os nm p s)) = w_maps s"
  by (rule timer_new_field, simp)+

lemma timer_stop_fields [simp]:
  "arg (timer_stop os k s) = arg s" "cmdline_args (timer_stop os k s) = cmdline_args s"
  "new_file (timer_stop os k s) = new_file s" "old_file (timer_stop os k s) = old_file s"
  "new_color_mat (timer_stop os k s) = new_color_mat s"
  "old_color_mat (timer_stop os k s) = old_color_mat s"
  "new_gray_mat (timer_stop os k s) = new_gray_mat s"
  "old_gray_mat (timer_stop os k s) = old_gray_mat s"
  "new_segments (timer_stop os k s) = new_segments s"
  "old_segments (timer_stop os k s) = old_segments s"
  "w_errno (timer_stop os k s) = w_errno s"
  "w_out (timer_stop os k s) = w_out s" "w_err (timer_stop os k s) = w_err s"
  "w_written (timer_stop os k s) = w_written s"
  "w_fds (timer_stop os k s) = w_fds s" "w_maps (timer_stop os k s) = w_maps s"
  by (rule timer_stop_field, simp)+

definition timers_from :: "nat \<Rightarrow> state \<Rightarrow> bool" where
  "timers_from n s \<longleftrightarrow> wf_timers (timer_records s) \<and> n \<le> length (timer_records s)"

definition parent_below :: "nat \<Rightarrow> nat option \<Rightarrow> bool" where
  "parent_below n parent \<longleftrightarrow> (case parent of None \<Rightarrow> True | Some p \<Rightarrow> p < n)"

text \<open>
  The contract of a client that runs code under scoped timers: a family of invariants, one for
  each number of records that must exist, kept by creating and stopping records.
\<close>

locale timer_scopes =
  fixes J :: "nat \<Rightarrow> state \<Rightarrow> bool"
  assumes J_new: "J n s \<Longrightarrow> parent_below n parent \<Longrightarrow>
      J (max n (Suc (length (timer_records s)))) (snd (timer_new os name parent s))"
    and J_stop: "J n s \<Longrightarrow> J n (timer_stop os k s)"
    and J_mono: "J n s \<Longrightarrow> m \<le> n \<Longrightarrow> J m s"
begin

lemma keeps_with_timer:
  assumes "parent_below n parent" and "\<And>k. keeps (J (max n (Suc k))) (body k)"
  shows "keeps (J n) (with_timer os name parent body)"
proof (rule keepsI)
  fix s assume "J n s"
  obtain s1 where new: "timer_new os name parent s = (length (timer_records s), s1)"
    by (metis timer_new_frame)
  with J_new [OF \<open>J n s\<close> assms(1), of os name] have "J (max n (Suc (length (timer_records s)))) s1"
    by simp
  then have "J (max n (Suc (length (timer_records s)))) (snd (body (length (timer_records s)) s1))"
    by (rule keepsD [OF assms(2)])
  then have "J n (snd (body (length (timer_records s)) s1))" by (rule J_mono) simp
  then show "J n (snd (with_timer os name parent body s))"
    by (auto simp: with_timer_def new J_stop split: prod.split outcome.split)
qed

lemma keeps_timer_stop: "keeps (J n) (upd (timer_stop os k))"
  by (rule keeps_upd) (rule J_stop)

end

text \<open>An invariant that does not look at the records gives such a family at once.\<close>

locale timer_blind =
  fixes I :: "state \<Rightarrow> bool"
  assumes blind: "I (s\<lparr>w_clock := c, timer_records := r\<rparr>) \<longleftrightarrow> I s"
begin

lemma blind_new: "I (snd (timer_new os name parent s)) \<longleftrightarrow> I s"
  by (rule timer_new_field) (rule blind)

lemma blind_stop: "I (timer_stop os k s) \<longleftrightarrow> I s"
  by (rule timer_stop_field) (rule blind)

end

sublocale timer_blind \<subseteq> scopes: timer_scopes "\<lambda>_. I"
  by unfold_locales (simp_all add: blind_new blind_stop)

context timer_blind
begin

lemma keeps_scope:
  assumes "\<And>k. keeps I (body k)"
  shows "keeps I (with_timer os name parent body)"
  using scopes.keeps_with_timer [of "case parent of None \<Rightarrow> 0 | Some p \<Rightarrow> Suc p" parent body os name] assms
  by (simp add: parent_below_def split: option.splits)

end

interpretation forest: timer_scopes timers_from
proof
  fix n s parent os name
  assume J: "timers_from n s" and p: "parent_below n parent"
  then have "wf_timers (timer_records (snd (timer_new os name parent s)))"
    by (auto simp: timer_new_def Let_def timers_from_def parent_below_def now_nsec_def get_usage_def
        intro!: wf_timers_new split: prod.splits option.splits)
  moreover have "length (timer_records (snd (timer_new os name parent s))) = Suc (length (timer_records s))"
    by (simp add: timer_new_def Let_def now_nsec_def get_usage_def split: prod.splits)
  ultimately show "timers_from (max n (Suc (length (timer_records s)))) (snd (timer_new os name parent s))"
    using J by (simp add: timers_from_def)
next
  fix n s os k
  assume "timers_from n s"
  then show "timers_from n (timer_stop os k s)"
    unfolding timers_from_def by (auto intro: wf_timers_cong [of _ "timer_records s"])
qed (simp add: timers_from_def)

lemma with_timer_body:
  assumes new: "timer_new os name parent s = (k, s1)"
  shows "with_timer os name parent body s = (case body k s1 of
    (Ret x, s2) \<Rightarrow> (Ret x, timer_stop os k s2) | (Halt h, s2) \<Rightarrow> (Halt h, s2))"
  by (simp add: with_timer_def new)

lemma outcome_with_timer [outcome_simps]:
  "fst (with_timer os name parent body s) =
     fst (body (length (timer_records s)) (snd (timer_new os name parent s)))"
proof -
  obtain s1 where new: "timer_new os name parent s = (length (timer_records s), s1)"
    by (metis timer_new_frame)
  then show ?thesis by (simp add: with_timer_body [OF new] split: prod.splits outcome.splits)
qed

lemma with_timer_Ret:
  assumes "with_timer os name parent body s = (Ret x, t)"
  obtains s2 where "body (length (timer_records s)) (snd (timer_new os name parent s)) = (Ret x, s2)"
    and "t = timer_stop os (length (timer_records s)) s2"
proof -
  obtain s1 where new: "timer_new os name parent s = (length (timer_records s), s1)"
    by (metis timer_new_frame)
  with assms that show thesis
    by (auto simp: with_timer_body [OF new] split: prod.splits outcome.splits)
qed

section \<open>Runs up to the timers\<close>

text \<open>
  States that differ only in the clock reading and the timer records; and runs up to that
  difference: \<open>runs p s r t\<close> says that \<open>p\<close>, started in a state like \<open>s\<close>, ends with the outcome
  \<open>r\<close> in a state like \<open>t\<close>. A program that computes an outcome does so from every state and
  leaves the state as it was.
\<close>

definition same_but_timers :: "state \<Rightarrow> state \<Rightarrow> bool" where
  "same_but_timers s t \<longleftrightarrow> (\<exists>c r. t = s\<lparr>w_clock := c, timer_records := r\<rparr>)"

definition runs :: "'a act \<Rightarrow> state \<Rightarrow> 'a outcome \<Rightarrow> state \<Rightarrow> bool" where
  "runs p s r t \<longleftrightarrow> (\<forall>s'. same_but_timers s s' \<longrightarrow> fst (p s') = r \<and> same_but_timers t (snd (p s')))"

definition computes :: "'a act \<Rightarrow> 'a outcome \<Rightarrow> bool" where
  "computes p r \<longleftrightarrow> (\<forall>s. runs p s r s)"

named_theorems runs_intros \<open>rules for runs up to the timers\<close>

lemma same_but_timersI: "same_but_timers s (s\<lparr>w_clock := c, timer_records := r\<rparr>)"
  unfolding same_but_timers_def by (intro exI) (rule refl)

lemma same_but_timers_refl [simp]: "same_but_timers s s"
  unfolding same_but_timers_def by (intro exI [of _ "w_clock s"] exI [of _ "timer_records s"]) simp

lemma same_but_timers_trans: "same_but_timers s t \<Longrightarrow> same_but_timers t u \<Longrightarrow> same_but_timers s u"
  unfolding same_but_timers_def by (elim exE) (rule exI, rule exI, simp)

lemma same_but_timers_sym: "same_but_timers s t \<Longrightarrow> same_but_timers t s"
  unfolding same_but_timers_def
  by (elim exE) (intro exI [of _ "w_clock s"] exI [of _ "timer_records s"], simp)

lemma same_but_timers_new: "same_but_timers s (snd (timer_new os name parent s))"
  unfolding same_but_timers_def by (metis timer_new_frame snd_conv)

lemma same_but_timers_stop: "same_but_timers s (timer_stop os k s)"
  unfolding same_but_timers_def by (metis timer_stop_frame)

lemma runs_start: "runs p s r t \<Longrightarrow> fst (p s) = r \<and> same_but_timers t (snd (p s))"
  by (simp add: runs_def)

lemma runs_outcome: "runs p s r t \<Longrightarrow> p s = (r', t') \<Longrightarrow> r' = r \<and> same_but_timers t t'"
  using runs_start by fastforce

lemma runs_ret [runs_intros]: "runs (ret x) s (Ret x) s"
  by (simp add: runs_def ret_def)

lemma runs_halt [runs_intros]: "runs (halt h) s (Halt h) s"
  by (simp add: runs_def halt_def)

lemma runs_call [runs_intros]: "runs (call r) s (case r of Inl e \<Rightarrow> Halt (Uncaught e) | Inr x \<Rightarrow> Ret x) s"
  by (cases r) (simp_all add: runs_intros)

lemma runs_guarded [runs_intros]: "runs (guarded r) s (case r of Inl h \<Rightarrow> Halt h | Inr x \<Rightarrow> Ret x) s"
  by (cases r) (simp_all add: runs_intros)

lemma runs_stop [runs_intros]: "runs (upd (timer_stop os k)) s (Ret ()) s"
  using same_but_timers_stop same_but_timers_trans by (auto simp: runs_def upd_def)

lemma runs_ask:
  assumes "\<And>c r. f (s\<lparr>w_clock := c, timer_records := r\<rparr>) = f s"
  shows "runs (ask f) s (Ret (f s)) s"
  using assms by (auto simp: runs_def ask_def same_but_timers_def)

lemma runs_upd:
  assumes "\<And>c r. f (s\<lparr>w_clock := c, timer_records := r\<rparr>) = (f s)\<lparr>w_clock := c, timer_records := r\<rparr>"
  shows "runs (upd f) s (Ret ()) (f s)"
proof -
  have "same_but_timers (f s) (f s')" if "same_but_timers s s'" for s'
    using that assms by (auto simp: same_but_timers_def)
  then show ?thesis by (simp add: runs_def upd_def)
qed

lemma runs_bnd:
  assumes "runs p s (Ret x) s1" and "runs (f x) s1 r t"
  shows "runs (bnd p f) s r t"
  using assms by (auto simp: runs_def outcome_bnd)

lemma runs_bnd_Halt: "runs p s (Halt h) t \<Longrightarrow> runs (bnd p f) s (Halt h) t"
  by (simp add: runs_def outcome_bnd)

lemma runs_with_timer [runs_intros]:
  assumes "\<And>k. runs (body k) s r t"
  shows "runs (with_timer os name parent body) s r t"
  unfolding runs_def
proof (intro allI impI)
  fix s' assume ss: "same_but_timers s s'"
  obtain s1 where new: "timer_new os name parent s' = (length (timer_records s'), s1)"
    by (metis timer_new_frame)
  then have "same_but_timers s s1"
    using ss same_but_timers_new same_but_timers_trans by (metis snd_conv)
  with assms have "fst (body (length (timer_records s')) s1) = r"
    "same_but_timers t (snd (body (length (timer_records s')) s1))" by (auto simp: runs_def)
  then show "fst (with_timer os name parent body s') = r \<and>
      same_but_timers t (snd (with_timer os name parent body s'))"
    using same_but_timers_stop same_but_timers_trans
    by (auto simp: with_timer_body [OF new] split: prod.split outcome.split)
qed

lemma computes_runs: "computes p r \<Longrightarrow> runs p s r s"
  by (simp add: computes_def)

lemma computesI: "(\<And>s. runs p s r s) \<Longrightarrow> computes p r"
  by (simp add: computes_def)

section \<open>Properties of the timers\<close>

lemma stop_all_frame:
  obtains c where "fold (timer_stop os) ks s =
    s\<lparr>w_clock := c, timer_records := timer_records (fold (timer_stop os) ks s)\<rparr>"
proof -
  have "\<exists>c r. fold (timer_stop os) ks s = s\<lparr>w_clock := c, timer_records := r\<rparr>"
  proof (induction ks arbitrary: s)
    case Nil
    show ?case by (intro exI [of _ "w_clock s"] exI [of _ "timer_records s"]) simp
  next
    case (Cons k ks)
    obtain c where c: "timer_stop os k s = s\<lparr>w_clock := c, timer_records := timer_records (timer_stop os k s)\<rparr>"
      by (rule timer_stop_frame)
    obtain c' r' where "fold (timer_stop os) ks (timer_stop os k s) =
        (timer_stop os k s)\<lparr>w_clock := c', timer_records := r'\<rparr>" using Cons by blast
    then show ?case by (subst (asm) (2) c) auto
  qed
  then show thesis using that by auto
qed

lemma stop_all_wf:
  assumes "wf_timers (timer_records s)"
  shows "wf_timers (timer_records (fold (timer_stop os) ks s)) \<and>
    length (timer_records (fold (timer_stop os) ks s)) = length (timer_records s)"
proof -
  have "timers_from 0 (fold (timer_stop os) ks s) \<and>
      length (timer_records (fold (timer_stop os) ks s)) = length (timer_records s)"
    by (rule fold_invariant_list) (use assms forest.J_stop in \<open>auto simp: timers_from_def\<close>)
  then show ?thesis by (simp add: timers_from_def)
qed

lemma depth_sorted: "depth_up (sorted_recs recs) f k = depth_up recs f k" if "wf_timers recs" "k < length recs"
  using that(2)
proof (induction f arbitrary: k)
  case (Suc f)
  show ?case
  proof (cases "tr_parent (recs ! k)")
    case (Some p)
    then have "p < length recs" using wf_timers_older [OF that(1) Suc.prems] Suc.prems by fastforce
    with Some Suc show ?thesis by simp
  qed (use Suc.prems in simp)
qed simp

lemma print_roots_once:
  assumes wf: "wf_timers R"
  obtains out R' where "print_roots (length R) R [0..<length R] = Some (out, R')"
    and "mset out = image_mset (\<lambda>k. rec_line (R ! k) (depth R k)) (mset [0..<length R])"
proof -
  let ?S = "sorted_recs R"
  have wfS: "wf_timers ?S" using wf by (rule wf_timers_sorted)
  from print_roots_visits [OF wf_timers_younger [OF wfS], of "length R" R "[0..<length R]"]
  obtain R' where pr: "print_roots (length R) R [0..<length R] = Some (lines_of ?S
      (concat (map (\<lambda>k. visits (length R) ?S k 0) (filter (\<lambda>k. tr_parent (?S ! k) = None) [0..<length ?S]))), R')"
    by auto
  show thesis
  proof (rule that [OF pr])
    let ?V = "concat (map (\<lambda>k. visits (length R) ?S k 0)
      (filter (\<lambda>k. tr_parent (?S ! k) = None) [0..<length ?S]))"
    have "mset (lines_of ?S ?V) = image_mset (\<lambda>(k, d). rec_line (?S ! k) d) (mset ?V)"
      unfolding lines_of_def by (rule mset_map)
    also have "mset ?V = image_mset (\<lambda>k. (k, depth ?S k)) (mset [0..<length ?S])"
      by (rule visits_once [OF wfS]) simp
    also have "image_mset (\<lambda>(k, d). rec_line (?S ! k) d) \<dots> =
        image_mset (\<lambda>k. rec_line (R ! k) (depth R k)) (mset [0..<length R])"
      unfolding image_mset.compositionality comp_def
      by (auto simp: depth_def depth_sorted [OF wf] intro!: image_mset_cong)
    finally show "mset (lines_of ?S ?V) =
        image_mset (\<lambda>k. rec_line (R ! k) (depth R k)) (mset [0..<length R])" .
  qed
qed

lemma adopt_times [simp]:
  "tr_start (adopt i recs ! j) = tr_start (recs ! j)" "tr_end (adopt i recs ! j) = tr_end (recs ! j)"
  by (auto simp: adopt_def add_child_def list_update_same_field split: option.split)

lemma find_outer_cong:
  assumes "\<And>j. tr_start (recs' ! j) = tr_start (recs ! j)" and "\<And>j. tr_end (recs' ! j) = tr_end (recs ! j)"
  shows "find_outer recs' i = find_outer recs i"
  by (simp add: find_outer_def encloses_def assms)

lemma adopt_parent:
  "i < length recs \<Longrightarrow> tr_parent (adopt i recs ! j) =
     (if j = i \<and> tr_parent (recs ! i) = None then find_outer recs i else tr_parent (recs ! j))"
  by (auto simp: adopt_def split: option.split)

lemma report_complete:
  fixes os :: os and s :: state
  assumes "wf_timers (timer_records s)"
  defines "R \<equiv> adopt_all (timer_records (fold (timer_stop os) [0..<length (timer_records s)] s))"
  shows "\<exists>s' out. print_timer_records os s = (Ret (), s') \<and>
    w_out s' = w_out s @ report_header @ concat out \<and>
    mset out = image_mset (\<lambda>k. rec_line (R ! k) (depth R k)) (mset [0..<length (timer_records s)])"
proof -
  let ?s1 = "fold (timer_stop os) [0..<length (timer_records s)] s"
  have len: "length R = length (timer_records s)" and wf: "wf_timers R"
    unfolding R_def using adopt_all_wf stop_all_wf [OF assms(1)] by simp_all
  obtain out R' where pr: "print_roots (length R) R [0..<length R] = Some (out, R')"
    and out: "mset out = image_mset (\<lambda>k. rec_line (R ! k) (depth R k)) (mset [0..<length R])"
    by (rule print_roots_once [OF wf])
  obtain c where "?s1 = s\<lparr>w_clock := c, timer_records := timer_records ?s1\<rparr>"
    by (rule stop_all_frame)
  then have "w_out ?s1 = w_out (s\<lparr>w_clock := c, timer_records := timer_records ?s1\<rparr>)"
    by (rule arg_cong)
  with pr out show ?thesis
    by (auto simp: print_timer_records_def Let_def len simp flip: R_def)
qed

text \<open>
  C5. With a well-formed forest of records the report always completes, and what it appends to
  the standard output is the heading followed by one line for every record: each record is
  printed exactly once, indented by its depth in the forest that adoption has built.
\<close>

theorem print_timer_records_complete:
  fixes os :: os and s :: state
  assumes "wf_timers (timer_records s)"
  defines "R \<equiv> adopt_all (timer_records (fold (timer_stop os) [0..<length (timer_records s)] s))"
  shows "\<exists>s' out. print_timer_records os s = (Ret (), s') \<and>
    w_out s' = w_out s @ report_header @ concat out \<and>
    mset out = image_mset (\<lambda>k. rec_line (R ! k) (depth R k)) (mset [0..<length (timer_records s)])"
  unfolding R_def using assms(1) by (rule report_complete)

definition sample_timers :: state where
  "sample_timers = snd (timer_new sample_os ''inner'' (Some 0)
     (snd (timer_new sample_os ''all'' None initial_state)))"

lemma sample_timers_wf: "wf_timers (timer_records sample_timers)" "length (timer_records sample_timers) = 2"
proof -
  have "timers_from 1 (snd (timer_new sample_os ''all'' None initial_state))"
    using forest.J_new [of 0 initial_state None sample_os "''all''"]
    by (simp add: parent_below_def timers_from_def initial_state_def)
  from forest.J_new [OF this, of "Some 0" sample_os "''inner''"]
  show "wf_timers (timer_records sample_timers)"
    by (simp add: sample_timers_def parent_below_def timers_from_def)
  show "length (timer_records sample_timers) = 2" by code_simp
qed

theorem print_timer_records_complete_witness:
  "\<exists>s' out. print_timer_records sample_os sample_timers = (Ret (), s') \<and>
     w_out s' = w_out sample_timers @ report_header @ concat out \<and> length out = 2"
proof -
  obtain s' out where "print_timer_records sample_os sample_timers = (Ret (), s')"
    and "w_out s' = w_out sample_timers @ report_header @ concat out"
    and out: "mset out = image_mset (\<lambda>k. rec_line (adopt_all (timer_records
      (fold (timer_stop sample_os) [0..<length (timer_records sample_timers)] sample_timers)) ! k)
      (depth (adopt_all (timer_records (fold (timer_stop sample_os)
        [0..<length (timer_records sample_timers)] sample_timers))) k))
      (mset [0..<length (timer_records sample_timers)])"
    using print_timer_records_complete [OF sample_timers_wf(1), of sample_os] by blast
  moreover have "length out = 2"
    using arg_cong [OF out, of size] by (simp add: sample_timers_wf(2))
  ultimately show ?thesis by blast
qed

lemma find_rev_upt:
  "find P (rev [0..<n]) = (if {j. j < n \<and> P j} = {} then None else Some (Max {j. j < n \<and> P j}))"
proof (induction n)
  case (Suc n)
  show ?case
  proof (cases "P n")
    case True
    then have "Max {j. j < Suc n \<and> P j} = n" by (intro Max_eqI) auto
    with True show ?thesis by auto
  next
    case False
    then have "{j. j < Suc n \<and> P j} = {j. j < n \<and> P j}" by (auto simp: less_Suc_eq)
    with False Suc show ?thesis by simp
  qed
qed simp

lemma adopt_children:
  assumes "i < length recs" and "j < length recs"
  shows "tr_children (adopt i recs ! j) =
    tr_children (recs ! j) @ (if tr_parent (recs ! i) = None \<and> find_outer recs i = Some j then [i] else [])"
proof -
  have "tr_children (recs[i := (recs ! i)\<lparr>tr_parent := p\<rparr>] ! j) = tr_children (recs ! j)" for p
    using assms(1) by (cases "j = i") simp_all
  then show ?thesis using assms(2) by (auto simp: adopt_def add_child_children split: option.split)
qed

text \<open>The records after the first \<open>m\<close> steps of the outer loop.\<close>

lemma adopt_prefix:
  assumes "m \<le> length recs"
  shows "length (fold adopt [0..<m] recs) = length recs \<and>
    (\<forall>j. tr_start (fold adopt [0..<m] recs ! j) = tr_start (recs ! j)) \<and>
    (\<forall>j. tr_end (fold adopt [0..<m] recs ! j) = tr_end (recs ! j)) \<and>
    (\<forall>j. tr_parent (fold adopt [0..<m] recs ! j) = (case tr_parent (recs ! j) of
       Some p \<Rightarrow> Some p | None \<Rightarrow> if j < m then find_outer recs j else None)) \<and>
    (\<forall>j < length recs. tr_children (fold adopt [0..<m] recs ! j) = tr_children (recs ! j) @
       filter (\<lambda>k. tr_parent (recs ! k) = None \<and> find_outer recs k = Some j) [0..<m])"
  using assms
proof (induction m)
  case 0
  show ?case by (auto split: option.split)
next
  case (Suc m)
  then have "find_outer (fold adopt [0..<m] recs) m = find_outer recs m"
    by (intro find_outer_cong) simp_all
  with Suc show ?case by (auto simp: adopt_parent adopt_children less_Suc_eq split: option.splits)
qed

text \<open>
  C38. Adoption keeps every explicit parent. A record without one gets the last of the earlier
  records whose time interval encloses its own, and stays a root when there is none. Every record
  keeps its children, and those it adopts follow them in the order in which they were created.
\<close>

theorem adopt_all_nearest:
  assumes "i < length recs"
    and "outer = {j. j < i \<and> tr_start (recs ! j) \<le> tr_start (recs ! i) \<and> tr_end (recs ! i) \<le> tr_end (recs ! j)}"
  shows "tr_parent (adopt_all recs ! i) = (case tr_parent (recs ! i) of
      Some p \<Rightarrow> Some p
    | None \<Rightarrow> if outer = {} then None else Some (Max outer)) \<and>
    tr_children (adopt_all recs ! i) = tr_children (recs ! i) @
      filter (\<lambda>k. tr_parent (recs ! k) = None \<and> tr_parent (adopt_all recs ! k) = Some i) [0..<length recs]"
proof -
  have parent: "tr_parent (adopt_all recs ! k) = (case tr_parent (recs ! k) of Some p \<Rightarrow> Some p | None \<Rightarrow> find_outer recs k)"
    if "k < length recs" for k
    using adopt_prefix [of "length recs" recs] that by (simp add: adopt_all_def)
  have "find_outer recs i = (if outer = {} then None else Some (Max outer))"
    unfolding find_outer_def encloses_def find_rev_upt assms(2) by (rule refl)
  moreover have "filter (\<lambda>k. tr_parent (recs ! k) = None \<and> tr_parent (adopt_all recs ! k) = Some i) [0..<length recs] =
      filter (\<lambda>k. tr_parent (recs ! k) = None \<and> find_outer recs k = Some i) [0..<length recs]"
    by (rule filter_cong) (auto simp: parent)
  moreover have "tr_children (adopt_all recs ! i) = tr_children (recs ! i) @
      filter (\<lambda>k. tr_parent (recs ! k) = None \<and> find_outer recs k = Some i) [0..<length recs]"
    using adopt_prefix [of "length recs" recs] assms(1) by (simp add: adopt_all_def)
  ultimately show ?thesis by (simp only: parent [OF assms(1)])
qed

text \<open>Three records without a parent: the second is enclosed by the first, the third by both.\<close>

definition nested_records :: "timer_record list" where
  "nested_records = map (\<lambda>(a, b). \<lparr>tr_name = [], tr_parent = None, tr_children = [], tr_start = a, tr_end = b,
     tr_user = 0, tr_sys = 0, tr_stopped = True\<rparr>) [(0, 10), (1, 9), (2, 3)]"

theorem adopt_all_nearest_witness:
  "tr_parent (adopt_all nested_records ! 2) = Some 1 \<and> tr_children (adopt_all nested_records ! 0) = [1]"
proof -
  have outer: "{j. j < 2 \<and> tr_start (nested_records ! j) \<le> tr_start (nested_records ! 2) \<and>
      tr_end (nested_records ! 2) \<le> tr_end (nested_records ! j)} = {0, 1}"
    "{j. j < 1 \<and> tr_start (nested_records ! j) \<le> tr_start (nested_records ! 1) \<and>
      tr_end (nested_records ! 1) \<le> tr_end (nested_records ! j)} = {0}"
    by (auto simp: nested_records_def numeral_2_eq_2 less_Suc_eq)
  have none: "tr_parent (nested_records ! 0) = None" "tr_parent (nested_records ! 1) = None"
    "tr_parent (nested_records ! 2) = None" "tr_children (nested_records ! 0) = []"
    and n: "length nested_records = 3" "[0..<3] = [0, 1, 2 :: nat]"
    by (simp_all add: nested_records_def upt_rec)
  have "tr_parent (adopt_all nested_records ! 0) = None"
    using adopt_all_nearest [of 0 nested_records "{}"] none n by simp
  moreover have "tr_parent (adopt_all nested_records ! 1) = Some 0"
    using adopt_all_nearest [of 1 nested_records "{0}"] outer none n by simp
  moreover have "tr_parent (adopt_all nested_records ! 2) = Some 1"
    using adopt_all_nearest [of 2 nested_records "{0, 1}"] outer none n by simp
  ultimately show ?thesis using adopt_all_nearest [of 0 nested_records "{}"] none n by simp
qed

end
