(* ===== verification/Cmdline.thy ===== *)
theory Cmdline
  imports Perf
begin

text \<open>
  The command line of \<open>cmdline.cc\<close>. The loop of \<open>parse_args\<close> looks at one argument at a time;
  its position \<open>i\<close> is modelled by the list of arguments still to be read. One iteration is
  \<open>parse_step\<close>; \<open>parse_loop\<close> iterates it and \<open>parse_args\<close> turns the ways the loop can end
  into the effects of the program and fills in the defaults.
\<close>

section \<open>The loop\<close>

datatype parse_stop =
    Help
  | Missing_argument string
  | Bad_number conversion_error
  | Unknown_option string

datatype parsed = Next options "string list" | Stop parse_stop

text \<open>
  What an iteration does is a function of the arguments after the current one. \<open>read_arg\<close> on an
  option that matches: the next argument is its value, whatever it looks like.
\<close>

definition read_arg :: "string \<Rightarrow> (string \<Rightarrow> conversion_error + options) \<Rightarrow> string list \<Rightarrow> parsed" where
  "read_arg name assign rest = (case rest of
       [] \<Rightarrow> Stop (Missing_argument name)
     | v # rest' \<Rightarrow> (case assign v of Inl e \<Rightarrow> Stop (Bad_number e) | Inr ar' \<Rightarrow> Next ar' rest'))"

definition parse_step :: "options \<Rightarrow> string \<Rightarrow> string list \<Rightarrow> parsed" where
  "parse_step ar a =
     (if a = ''-h'' \<or> a = ''--help'' then (\<lambda>_. Stop Help)
      else if a = ''-color-diagnostics'' \<or> a = ''--color-diagnostics'' then
        read_arg a (\<lambda>_. Inr (ar\<lparr>color_diagnostics := True\<rparr>))
      else if a = ''-new'' then read_arg a (\<lambda>v. Inr (ar\<lparr>arg_new_file := v\<rparr>))
      else if a = ''-old'' then read_arg a (\<lambda>v. Inr (ar\<lparr>arg_old_file := v\<rparr>))
      else if a = ''-threshold'' then
        read_arg a (\<lambda>v. map_sum id (\<lambda>n. ar\<lparr>bin_threshold := n\<rparr>) (stoi v))
      else if a = ''-o'' \<or> a = ''--output'' then read_arg a (\<lambda>v. Inr (ar\<lparr>output_name := v\<rparr>))
      else if a = ''-create_change_image'' then Next (ar\<lparr>create_change_image := True\<rparr>)
      else if a = ''-cross_check'' then Next (ar\<lparr>cross_check := True\<rparr>)
      else if a = ''-thread_count'' then
        read_arg a (\<lambda>v. map_sum id (\<lambda>n. ar\<lparr>thread_count := n\<rparr>) (stoi v))
      else if a = ''-perf'' then Next (ar\<lparr>perf := True\<rparr>)
      else if a \<noteq> [] \<and> hd a = CHR ''-'' then (\<lambda>_. Stop (Unknown_option a))
      else Next ar)"

text \<open>
  An iteration stops, consumes one argument or consumes two; whatever it assigns, the numeric
  options stay in the range of an \<open>int\<close>.
\<close>

definition int_range :: "int \<Rightarrow> bool" where
  "int_range n \<longleftrightarrow> - (2 ^ 31) \<le> n \<and> n < 2 ^ 31"

definition numbers_ok :: "options \<Rightarrow> bool" where
  "numbers_ok ar \<longleftrightarrow> int_range (bin_threshold ar) \<and> int_range (thread_count ar)"

lemma stoi_int_range: "stoi v = Inr n \<Longrightarrow> int_range n"
  unfolding int_range_def by (rule stoi_range)

lemma parse_step_rule:
  assumes "\<And>st. P (\<lambda>_. Stop st)"
    and "\<And>ar'. (numbers_ok ar \<Longrightarrow> numbers_ok ar') \<Longrightarrow> P (Next ar')"
    and "\<And>f. (\<And>v ar'. numbers_ok ar \<Longrightarrow> f v = Inr ar' \<Longrightarrow> numbers_ok ar') \<Longrightarrow> P (read_arg a f)"
  shows "P (parse_step ar a)"
  unfolding parse_step_def
  by (intro if_cases [of P] assms)
     (auto simp: numbers_ok_def map_sum_def stoi_int_range split: sum.splits)

lemma read_arg_Next: "read_arg a f rest = Next ar' rest' \<Longrightarrow> length rest' < length rest"
  by (auto simp: read_arg_def split: list.splits sum.splits)

lemma parse_step_shorter: "parse_step ar a rest = Next ar' rest' \<Longrightarrow> length rest' \<le> length rest"
  by (rule parse_step_rule [of "\<lambda>g. g rest = Next ar' rest' \<longrightarrow> length rest' \<le> length rest" ar a, THEN mp])
     (auto dest: read_arg_Next)

text \<open>The result is the options assigned so far and why the loop stopped early, if it did.\<close>

function parse_loop :: "options \<Rightarrow> string list \<Rightarrow> options \<times> parse_stop option" where
  "parse_loop ar [] = (ar, None)"
| "parse_loop ar (a # rest) =
     (case parse_step ar a rest of
        Stop st \<Rightarrow> (ar, Some st)
      | Next ar' rest' \<Rightarrow> parse_loop ar' rest')"
  by pat_completeness auto
termination
  by (relation "measure (\<lambda>(ar, args). length args)") (auto dest!: parse_step_shorter)

section \<open>parse_args\<close>

text \<open>
  The build: without \<open>ENABLE_PARALLEL\<close>, or with it on a machine whose
  \<open>tbb::global_control::active_value\<close> is the given number.
\<close>

datatype build = Serial | Parallel nat

definition get_default_thread_count :: "build \<Rightarrow> nat" where
  "get_default_thread_count b =
     (let default_thread = 16; n = (case b of Serial \<Rightarrow> 16 | Parallel active \<Rightarrow> active)
      in min n default_thread)"

definition help_msg :: string where
  "help_msg = newline @ concat (map (\<lambda>l. l @ newline)
     [''Options:'',
      ''  -new <FILE>                 new image file path'',
      ''  -old <FILE>                 old image file path'',
      ''  -o, --output <NAME>         output prefix name (default: image_difference)'',
      ''  -create_change_image        create changed image'',
      ''  -threshold <NUMBER>         binary threshold'',
      ''  -cross_check                cross check descriptor matching'',
      ''  -thread_count <NUMBER>      Use given number of threads'',
      ''  -perf                       Print performance statistics'',
      [],
      [],
      ''  -h, --help                  report usage information''])"

definition usage :: "string \<Rightarrow> 'a act" where
  "usage argv0 = (\<lambda>s. (Halt (Exited 0),
     s\<lparr>w_out := w_out s @ ''Usage: '' @ argv0 @ '' [options]'' @ newline @ help_msg\<rparr>))"

definition exception_name :: "conversion_error \<Rightarrow> string" where
  "exception_name e = (case e of Invalid_argument \<Rightarrow> ''std::invalid_argument''
     | Out_of_range \<Rightarrow> ''std::out_of_range'')"

definition stop_parsing :: "string \<Rightarrow> parse_stop \<Rightarrow> 'a act" where
  "stop_parsing argv0 st = (case st of
       Help \<Rightarrow> usage argv0
     | Missing_argument name \<Rightarrow> fatal (''option -'' @ name @ '': argument missing'')
     | Bad_number e \<Rightarrow> halt (Uncaught (exception_name e))
     | Unknown_option a \<Rightarrow> fatal (''unknown command line option: '' @ a))"

definition fill_defaults :: "build \<Rightarrow> options \<Rightarrow> options" where
  "fill_defaults b ar =
     (let a1 = (if thread_count ar = 0 then ar\<lparr>thread_count := int (get_default_thread_count b)\<rparr> else ar);
          a2 = (if bin_threshold a1 = 0 then a1\<lparr>bin_threshold := 200\<rparr> else a1)
      in if output_name a2 = [] then a2\<lparr>output_name := ''image_difference''\<rparr> else a2)"

definition quote :: "string \<Rightarrow> string" where
  "quote str = CHR 0x22 # str @ [CHR 0x22]"

definition parse_args :: "build \<Rightarrow> os \<Rightarrow> unit act" where
  "parse_args b os = with_timer os ''parse args'' None (\<lambda>_ s.
     let (ar, stop) = parse_loop (arg s) (tl (cmdline_args s)); s1 = s\<lparr>arg := ar\<rparr> in
     case stop of
       Some st \<Rightarrow> stop_parsing (hd (cmdline_args s)) st s1
     | None \<Rightarrow>
         if arg_new_file ar = [] then fatal (quote ''-new'' @ '' option is required'') s1
         else if arg_old_file ar = [] then fatal (quote ''-old'' @ '' option is required'') s1
         else (Ret (), s1\<lparr>arg := fill_defaults b ar\<rparr>))"

section \<open>Reading a command line piece by piece\<close>

lemma read_arg_append:
  "read_arg a f rest = Next ar' rest' \<Longrightarrow> read_arg a f (rest @ ys) = Next ar' (rest' @ ys)"
  by (auto simp: read_arg_def split: list.splits sum.splits)

lemma parse_step_append:
  "parse_step ar a rest = Next ar' rest' \<Longrightarrow> parse_step ar a (rest @ ys) = Next ar' (rest' @ ys)"
  by (rule parse_step_rule [of "\<lambda>g. g rest = Next ar' rest' \<longrightarrow> g (rest @ ys) = Next ar' (rest' @ ys)"
        ar a, THEN mp]) (auto dest: read_arg_append)

lemma read_arg_numbers:
  assumes "\<And>v ar'. f v = Inr ar' \<Longrightarrow> numbers_ok ar'" and "read_arg a f rest = Next ar' rest'"
  shows "numbers_ok ar'"
  using assms by (auto simp: read_arg_def split: list.splits sum.splits)

lemma parse_step_numbers:
  "numbers_ok ar \<Longrightarrow> parse_step ar a rest = Next ar' rest' \<Longrightarrow> numbers_ok ar'"
  by (rule parse_step_rule [of "\<lambda>g. g rest = Next ar' rest' \<longrightarrow> numbers_ok ar'" ar a, THEN mp])
     (auto dest: read_arg_numbers [rotated])

lemma parse_loop_append:
  "parse_loop ar xs = (ar', None) \<Longrightarrow> parse_loop ar (xs @ ys) = parse_loop ar' ys"
proof (induction ar xs rule: parse_loop.induct)
  case (2 ar a rest)
  then show ?case by (auto simp: parse_step_append split: parsed.splits)
qed simp

text \<open>A stop is reported by the iteration that meets it, with the options read before it.\<close>

lemma parse_loop_stop:
  assumes "parse_loop ar xs = (ar', None)" and "parse_step ar' a ys = Stop st"
  shows "parse_loop ar (xs @ a # ys) = (ar', Some st)"
  using parse_loop_append [OF assms(1)] assms(2) by simp

lemma parse_loop_numbers:
  "numbers_ok ar \<Longrightarrow> parse_loop ar xs = (ar', st) \<Longrightarrow> numbers_ok ar'"
proof (induction ar xs rule: parse_loop.induct)
  case (2 ar a rest)
  then show ?case by (auto dest: parse_step_numbers split: parsed.splits)
qed simp

section \<open>The whole of parse_args\<close>

text \<open>The body of \<open>parse_args\<close>, without its timer.\<close>

lemma parse_args_body:
  obtains k s1 where "timer_new os ''parse args'' None s = (k, s1)"
    and "arg s1 = arg s" and "cmdline_args s1 = cmdline_args s"
    and "w_out s1 = w_out s" and "w_err s1 = w_err s"
  by (metis prod.collapse timer_new_fields(1,2,12,13))

lemma fill_defaults_simps:
  "arg_new_file (fill_defaults b ar) = arg_new_file ar"
  "arg_old_file (fill_defaults b ar) = arg_old_file ar"
  "output_name (fill_defaults b ar) = (if output_name ar = [] then ''image_difference'' else output_name ar)"
  "bin_threshold (fill_defaults b ar) = (if bin_threshold ar = 0 then 200 else bin_threshold ar)"
  "thread_count (fill_defaults b ar) =
     (if thread_count ar = 0 then int (get_default_thread_count b) else thread_count ar)"
  by (simp_all add: fill_defaults_def Let_def)

lemma parse_args_Ret:
  assumes "parse_args b os s = (Ret (), s')"
  obtains ar where "parse_loop (arg s) (tl (cmdline_args s)) = (ar, None)"
    and "arg_new_file ar \<noteq> []" and "arg_old_file ar \<noteq> []" and "arg s' = fill_defaults b ar"
proof -
  obtain k s1 where new: "timer_new os ''parse args'' None s = (k, s1)"
    and fr: "arg s1 = arg s" "cmdline_args s1 = cmdline_args s"
    by (rule parse_args_body)
  obtain ar stop where pl: "parse_loop (arg s) (tl (cmdline_args s)) = (ar, stop)" by (metis surj_pair)
  have none: "stop = None"
  proof (rule ccontr)
    assume "stop \<noteq> None"
    then obtain st where "stop = Some st" by auto
    with assms show False
      by (cases st) (auto simp: parse_args_def with_timer_body [OF new] fr pl stop_parsing_def
          usage_def fatal_def halt_def)
  qed
  with assms pl show thesis
    by (intro that [of ar])
       (auto simp: parse_args_def with_timer_body [OF new] fr fatal_def Let_def split: if_splits)
qed

lemma parse_args_options:
  assumes "parse_args b os s = (Ret (), s')" and "numbers_ok (arg s)"
    and "0 < get_default_thread_count b"
  shows "arg_new_file (arg s') \<noteq> [] \<and> arg_old_file (arg s') \<noteq> [] \<and> output_name (arg s') \<noteq> [] \<and>
    bin_threshold (arg s') \<noteq> 0 \<and> thread_count (arg s') \<noteq> 0 \<and> numbers_ok (arg s')"
proof -
  obtain ar where pl: "parse_loop (arg s) (tl (cmdline_args s)) = (ar, None)"
    and files: "arg_new_file ar \<noteq> []" "arg_old_file ar \<noteq> []" and arg: "arg s' = fill_defaults b ar"
    by (rule parse_args_Ret [OF assms(1)])
  have "numbers_ok ar" using assms(2) pl by (rule parse_loop_numbers)
  moreover have "int_range (int (get_default_thread_count b))"
    by (simp add: int_range_def get_default_thread_count_def Let_def)
  ultimately show ?thesis
    using files assms(3) by (auto simp: arg fill_defaults_simps numbers_ok_def int_range_def)
qed

text \<open>
  C27. When \<open>parse_args\<close> returns, both image files are named, the output prefix is not empty and
  the threshold and the thread count are non-zero values of an \<open>int\<close>, provided the default number
  of threads is not zero.
\<close>

theorem parse_args_establishes:
  assumes "parse_args b os s = (Ret (), s')" and "numbers_ok (arg s)"
    and "0 < get_default_thread_count b"
  shows "arg_new_file (arg s') \<noteq> [] \<and> arg_old_file (arg s') \<noteq> [] \<and> output_name (arg s') \<noteq> [] \<and>
    bin_threshold (arg s') \<noteq> 0 \<and> thread_count (arg s') \<noteq> 0 \<and> numbers_ok (arg s')"
  using assms by (rule parse_args_options)

text \<open>The command line that spells out a setting of the options.\<close>

definition command_line :: "options \<Rightarrow> string list" where
  "command_line ar =
     [''-new'', arg_new_file ar, ''-old'', arg_old_file ar, ''-o'', output_name ar,
      ''-threshold'', to_string (bin_threshold ar), ''-thread_count'', to_string (thread_count ar)]
     @ (if create_change_image ar then [''-create_change_image''] else [])
     @ (if cross_check ar then [''-cross_check''] else [])
     @ (if perf ar then [''-perf''] else [])
     @ (if color_diagnostics ar then [''-color-diagnostics'', ''yes''] else [])"

lemma parse_step_values:
  "parse_step ar ''-new'' = read_arg ''-new'' (\<lambda>v. Inr (ar\<lparr>arg_new_file := v\<rparr>))"
  "parse_step ar ''-old'' = read_arg ''-old'' (\<lambda>v. Inr (ar\<lparr>arg_old_file := v\<rparr>))"
  "parse_step ar ''-o'' = read_arg ''-o'' (\<lambda>v. Inr (ar\<lparr>output_name := v\<rparr>))"
  "parse_step ar ''-threshold'' =
     read_arg ''-threshold'' (\<lambda>v. map_sum id (\<lambda>n. ar\<lparr>bin_threshold := n\<rparr>) (stoi v))"
  "parse_step ar ''-thread_count'' =
     read_arg ''-thread_count'' (\<lambda>v. map_sum id (\<lambda>n. ar\<lparr>thread_count := n\<rparr>) (stoi v))"
  "parse_step ar ''-color-diagnostics'' =
     read_arg ''-color-diagnostics'' (\<lambda>_. Inr (ar\<lparr>color_diagnostics := True\<rparr>))"
  "parse_step ar ''-create_change_image'' = Next (ar\<lparr>create_change_image := True\<rparr>)"
  "parse_step ar ''-cross_check'' = Next (ar\<lparr>cross_check := True\<rparr>)"
  "parse_step ar ''-perf'' = Next (ar\<lparr>perf := True\<rparr>)"
  by (simp_all add: parse_step_def)

lemma read_arg_Cons:
  "read_arg a f (v # rest) = (case f v of Inl e \<Rightarrow> Stop (Bad_number e) | Inr ar' \<Rightarrow> Next ar' rest)"
  by (simp add: read_arg_def)

text \<open>One option read from the front of a command line.\<close>

lemma parse_loop_values:
  "parse_loop ar (''-new'' # v # xs) = parse_loop (ar\<lparr>arg_new_file := v\<rparr>) xs"
  "parse_loop ar (''-old'' # v # xs) = parse_loop (ar\<lparr>arg_old_file := v\<rparr>) xs"
  "parse_loop ar (''-o'' # v # xs) = parse_loop (ar\<lparr>output_name := v\<rparr>) xs"
  "parse_loop ar (''-create_change_image'' # xs) = parse_loop (ar\<lparr>create_change_image := True\<rparr>) xs"
  "parse_loop ar (''-cross_check'' # xs) = parse_loop (ar\<lparr>cross_check := True\<rparr>) xs"
  "parse_loop ar (''-perf'' # xs) = parse_loop (ar\<lparr>perf := True\<rparr>) xs"
  "stoi v = Inr n \<Longrightarrow> parse_loop ar (''-threshold'' # v # xs) = parse_loop (ar\<lparr>bin_threshold := n\<rparr>) xs"
  "stoi v = Inr n \<Longrightarrow> parse_loop ar (''-thread_count'' # v # xs) = parse_loop (ar\<lparr>thread_count := n\<rparr>) xs"
  "parse_loop ar (''-color-diagnostics'' # v # xs) = parse_loop (ar\<lparr>color_diagnostics := True\<rparr>) xs"
  by (simp_all add: parse_step_values read_arg_Cons)

text \<open>
  C28. Reading back: for every setting of the options whose numbers are ints, the command line
  that spells it out is read as exactly that setting.
\<close>

theorem command_line_reads_back:
  assumes "numbers_ok ar"
  shows "parse_loop default_options (command_line ar) = (ar, None)"
proof -
  have "stoi (to_string (bin_threshold ar)) = Inr (bin_threshold ar)"
    and "stoi (to_string (thread_count ar)) = Inr (thread_count ar)"
    using assms by (simp_all add: numbers_ok_def int_range_def stoi_to_string)
  then show ?thesis
    by (cases ar) (simp add: command_line_def default_options_def parse_loop_values del: parse_loop.simps(2))
qed

text \<open>
  C29. The first argument that stops the loop decides how the process ends, with the options read
  before it in force: a help request prints the usage text and exits with status 0, an unknown
  option and a missing value print a fatal diagnostic and exit with status 1, and a number that
  cannot be converted leaves the process with an uncaught exception.
\<close>

theorem parse_args_first_stop:
  assumes "cmdline_args s = argv0 # xs @ a # ys" and "parse_loop (arg s) xs = (ar, None)"
    and "parse_step ar a ys = Stop st"
  shows "\<exists>s'. parse_args b os s =
      (Halt (case st of Help \<Rightarrow> Exited 0 | Bad_number e \<Rightarrow> Uncaught (exception_name e) | _ \<Rightarrow> Exited 1), s') \<and>
    w_out s' = w_out s @ (if st = Help then ''Usage: '' @ argv0 @ '' [options]'' @ newline @ help_msg else []) \<and>
    w_err s' = w_err s @ (case st of
      Missing_argument name \<Rightarrow> add_color ar ''fatal'' @ ''option -'' @ name @ '': argument missing'' @ newline
    | Unknown_option opt \<Rightarrow> add_color ar ''fatal'' @ ''unknown command line option: '' @ opt @ newline
    | _ \<Rightarrow> [])"
proof -
  obtain k s1 where new: "timer_new os ''parse args'' None s = (k, s1)"
    and fr: "arg s1 = arg s" "cmdline_args s1 = cmdline_args s" "w_out s1 = w_out s" "w_err s1 = w_err s"
    by (rule parse_args_body)
  have "parse_loop (arg s) (xs @ a # ys) = (ar, Some st)"
    using assms(2,3) by (rule parse_loop_stop)
  then show ?thesis
    by (cases st) (simp_all add: parse_args_def with_timer_body [OF new] fr assms(1)
        stop_parsing_def usage_def fatal_def halt_def sync_out_err_def)
qed

text \<open>
  A threshold of zero cannot be asked for: when the command line sets it to zero, the program
  runs with 200.
\<close>

lemma threshold_zero_replaced:
  assumes "parse_args b os s = (Ret (), s')"
    and "bin_threshold (fst (parse_loop (arg s) (tl (cmdline_args s)))) = 0"
  shows "bin_threshold (arg s') = 200"
proof -
  obtain ar where "parse_loop (arg s) (tl (cmdline_args s)) = (ar, None)" and "arg s' = fill_defaults b ar"
    by (rule parse_args_Ret [OF assms(1)])
  with assms(2) show ?thesis by (simp add: fill_defaults_simps)
qed

section \<open>Examples\<close>

definition sample_args :: "string list" where
  "sample_args = [''gazosan'', ''-new'', ''a.png'', ''-old'', ''b.png'', ''-threshold'', ''0'']"

definition started :: "string list \<Rightarrow> state" where
  "started args = initial_state\<lparr>cmdline_args := args\<rparr>"

lemma started_simps [simp]:
  "arg (started args) = default_options" "cmdline_args (started args) = args"
  "w_out (started args) = []" "w_err (started args) = []"
  by (simp_all add: started_def initial_state_def)

lemma sample_loop:
  "parse_loop default_options (tl sample_args) =
     (default_options\<lparr>arg_new_file := ''a.png'', arg_old_file := ''b.png'', bin_threshold := 0\<rparr>, None)"
  by code_simp

lemma sample_parse: "\<exists>s'. parse_args Serial sample_os (started sample_args) = (Ret (), s')"
proof -
  obtain k s1 where new: "timer_new sample_os ''parse args'' None (started sample_args) = (k, s1)"
    and "arg s1 = default_options" "cmdline_args s1 = sample_args"
    by (rule parse_args_body [of sample_os "started sample_args"]) simp
  then show ?thesis
    by (simp add: parse_args_def with_timer_body [OF new] sample_loop)
qed

lemma numbers_ok_default: "numbers_ok default_options"
  by (simp add: numbers_ok_def int_range_def default_options_def)

theorem parse_args_establishes_witness:
  "\<exists>s'. parse_args Serial sample_os (started sample_args) = (Ret (), s') \<and>
     output_name (arg s') \<noteq> [] \<and> thread_count (arg s') \<noteq> 0"
  using sample_parse parse_args_establishes [of Serial sample_os "started sample_args"]
  by (auto simp: numbers_ok_default get_default_thread_count_def)

theorem command_line_reads_back_witness:
  "parse_loop default_options (command_line (default_options\<lparr>bin_threshold := - 7\<rparr>)) =
     (default_options\<lparr>bin_threshold := - 7\<rparr>, None)"
  by (rule command_line_reads_back) (simp add: numbers_ok_def int_range_def default_options_def)

theorem parse_args_first_stop_witness:
  "\<exists>s'. parse_args Serial sample_os (started [''gazosan'', ''-perf'', ''-new'']) = (Halt (Exited 1), s') \<and>
     w_err s' = ''gazo-san: fatal: option --new: argument missing'' @ newline"
proof -
  have "parse_loop (arg (started [''gazosan'', ''-perf'', ''-new''])) [''-perf''] = (default_options\<lparr>perf := True\<rparr>, None)"
    by (simp add: parse_step_values)
  from parse_args_first_stop [OF _ this, of "''gazosan''" "''-new''" "[]" "Missing_argument ''-new''" Serial sample_os]
  show ?thesis by (auto simp: parse_step_values read_arg_def add_color_def default_options_def)
qed

end
