(* ===== verification/Loading.thy ===== *)
theory Loading
  imports Cmdline
begin

text \<open>
  Memory-mapped files (\<open>MappedFile\<close> of \<open>gazosan.h\<close>) and \<open>load_image\<close> with
  \<open>decode_from_mapped_file\<close> (\<open>image.cc\<close>), in the order the serial build runs them: first the
  new image, then the old one. Open descriptors and live mappings are counted in the state.
\<close>

section \<open>MappedFile\<close>

definition fatal_errno :: "os \<Rightarrow> string \<Rightarrow> 'a act" where
  "fatal_errno os msg = (\<lambda>s. let (reason, s1) = errno_string os s in fatal (msg @ reason) s1)"

definition mtime_nsec :: "file_status \<Rightarrow> int" where
  "mtime_nsec st = i64 (take_bit 64 (take_bit 64 (st_mtim_sec st) * 1000000000 + st_mtim_nsec st))"

definition mapped_file_open :: "os \<Rightarrow> string \<Rightarrow> mapped_file option act" where
  "mapped_file_open os path = (\<lambda>s.
     case os_open os path of
       Inl e \<Rightarrow> (Ret None, s\<lparr>w_errno := e\<rparr>)
     | Inr fd \<Rightarrow>
         (let s1 = s\<lparr>w_fds := w_fds s + 1\<rparr> in
          case os_fstat os fd of
            Inl e \<Rightarrow> fatal_errno os (path @ '': fstat failed: '') (s1\<lparr>w_errno := e\<rparr>)
          | Inr st \<Rightarrow>
              (let mf = \<lparr>mf_name = path, mf_data = None, mf_size = st_size st, mf_mtime = mtime_nsec st\<rparr> in
               if 0 < st_size st then
                 (case os_mmap os fd (st_size st) of
                    Inl e \<Rightarrow> fatal_errno os (path @ '': mmap failed: '') (s1\<lparr>w_errno := e\<rparr>)
                  | Inr bytes \<Rightarrow>
                      (Ret (Some (mf\<lparr>mf_data := Some bytes\<rparr>)),
                       s1\<lparr>w_maps := w_maps s1 + 1, w_fds := w_fds s1 - 1\<rparr>))
               else (Ret (Some mf), s1\<lparr>w_fds := w_fds s1 - 1\<rparr>))))"

definition must_open :: "os \<Rightarrow> string \<Rightarrow> mapped_file act" where
  "must_open os path = bnd (mapped_file_open os path) (\<lambda>r. case r of
       Some mf \<Rightarrow> ret mf
     | None \<Rightarrow> fatal_errno os (''cannot open '' @ path @ '': ''))"

definition mapped_file_dtor :: "mapped_file \<Rightarrow> state \<Rightarrow> state" where
  "mapped_file_dtor mf s = (if mf_size mf = 0 then s else s\<lparr>w_maps := w_maps s - 1\<rparr>)"

text \<open>\<open>std::unique_ptr::reset\<close> and the destructor of the pointer.\<close>

definition delete_file :: "mapped_file option \<Rightarrow> state \<Rightarrow> state" where
  "delete_file f s = (case f of None \<Rightarrow> s | Some mf \<Rightarrow> mapped_file_dtor mf s)"

definition reset_new_file :: "mapped_file \<Rightarrow> state \<Rightarrow> state" where
  "reset_new_file mf s = delete_file (new_file s) (s\<lparr>new_file := Some mf\<rparr>)"

definition reset_old_file :: "mapped_file \<Rightarrow> state \<Rightarrow> state" where
  "reset_old_file mf s = delete_file (old_file s) (s\<lparr>old_file := Some mf\<rparr>)"

section \<open>load_image\<close>

text \<open>The file size is converted to an \<open>int\<close> for the column count of the one-row matrix.\<close>

definition decode_from_mapped_file :: "opencv \<Rightarrow> mapped_file \<Rightarrow> imread_flag \<Rightarrow> string + bgr mat" where
  "decode_from_mapped_file cv mf flags = cv_imdecode cv (mf_data mf) (i32 (mf_size mf)) flags"

definition load_new :: "opencv \<Rightarrow> os \<Rightarrow> unit act" where
  "load_new cv os =
     bnd (ask (\<lambda>s. arg_new_file (arg s))) (\<lambda>path.
     if path = [] then ret () else
     bnd (must_open os path) (\<lambda>mf.
     bnd (upd (reset_new_file mf)) (\<lambda>_.
     bnd (call (decode_from_mapped_file cv mf IMREAD_COLOR)) (\<lambda>color.
     bnd (upd (\<lambda>s. s\<lparr>new_color_mat := color\<rparr>)) (\<lambda>_.
     bnd (call (cv_bgr2gray cv color)) (\<lambda>gray.
     upd (\<lambda>s. s\<lparr>new_gray_mat := gray\<rparr>)))))))"

definition load_old :: "opencv \<Rightarrow> os \<Rightarrow> unit act" where
  "load_old cv os =
     bnd (ask (\<lambda>s. arg_old_file (arg s))) (\<lambda>path.
     if path = [] then ret () else
     bnd (must_open os path) (\<lambda>mf.
     bnd (upd (reset_old_file mf)) (\<lambda>_.
     bnd (call (decode_from_mapped_file cv mf IMREAD_COLOR)) (\<lambda>color.
     bnd (upd (\<lambda>s. s\<lparr>old_color_mat := color\<rparr>)) (\<lambda>_.
     bnd (call (cv_bgr2gray cv color)) (\<lambda>gray.
     upd (\<lambda>s. s\<lparr>old_gray_mat := gray\<rparr>)))))))"

definition load_image :: "opencv \<Rightarrow> os \<Rightarrow> unit act" where
  "load_image cv os = with_timer os ''load image'' None (\<lambda>_.
     bnd (load_new cv os) (\<lambda>_. load_old cv os))"

section \<open>Opening\<close>

definition maps_of :: "mapped_file option \<Rightarrow> int" where
  "maps_of f = (case f of None \<Rightarrow> 0 | Some mf \<Rightarrow> if mf_size mf = 0 then 0 else 1)"

lemma fatal_errno_never_returns [simp]: "fatal_errno os msg s \<noteq> (Ret x, t)"
  by (simp add: fatal_errno_def split: prod.split)

lemma mapped_file_open_Some:
  assumes "mapped_file_open os path s = (Ret (Some mf), t)"
  obtains fd st where "os_open os path = Inr fd" and "os_fstat os fd = Inr st"
    and "mf_name mf = path" and "mf_size mf = st_size st" and "mf_mtime mf = mtime_nsec st"
    and "mf_data mf = (if 0 < st_size st then Some (projr (os_mmap os fd (st_size st))) else None)"
    and "t = s\<lparr>w_maps := w_maps s + (if 0 < st_size st then 1 else 0)\<rparr>"
  using assms by (auto simp: mapped_file_open_def Let_def split: sum.splits if_splits)

lemma mapped_file_open_None:
  "mapped_file_open os path s = (Ret None, t) \<longleftrightarrow> (\<exists>e. os_open os path = Inl e \<and> t = s\<lparr>w_errno := e\<rparr>)"
  by (auto simp: mapped_file_open_def Let_def split: sum.splits if_splits)

lemma must_open_Ret:
  "must_open os path s = (Ret mf, t) \<longleftrightarrow> mapped_file_open os path s = (Ret (Some mf), t)"
  by (auto simp: must_open_def bnd_def split: prod.splits outcome.splits option.splits)

text \<open>
  Mappings are balanced when the sizes the system reports are not negative: the live mappings are
  those of the files the context owns.
\<close>

definition sizes_ok :: "os \<Rightarrow> bool" where
  "sizes_ok os \<longleftrightarrow> (\<forall>fd st. os_fstat os fd = Inr st \<longrightarrow> 0 \<le> st_size st)"

definition resources_ok :: "state \<Rightarrow> bool" where
  "resources_ok s \<longleftrightarrow> w_fds s = 0 \<and> w_maps s = maps_of (new_file s) + maps_of (old_file s)"

lemma delete_file_effect:
  "w_maps (delete_file f s) = w_maps s - maps_of f" "w_fds (delete_file f s) = w_fds s"
  "new_file (delete_file f s) = new_file s" "old_file (delete_file f s) = old_file s"
  "arg (delete_file f s) = arg s" "new_color_mat (delete_file f s) = new_color_mat s"
  "new_gray_mat (delete_file f s) = new_gray_mat s" "old_color_mat (delete_file f s) = old_color_mat s"
  "old_gray_mat (delete_file f s) = old_gray_mat s"
  by (auto simp: delete_file_def mapped_file_dtor_def maps_of_def split: option.split)

lemma must_open_resources:
  assumes "must_open os path s = (Ret mf, t)" and "sizes_ok os"
  shows "t = s\<lparr>w_maps := w_maps s + maps_of (Some mf)\<rparr>" and "mf_name mf = path"
proof -
  from assms(1) have "mapped_file_open os path s = (Ret (Some mf), t)" by (simp add: must_open_Ret)
  then obtain fd st where "os_fstat os fd = Inr st" and name: "mf_name mf = path"
    and "mf_size mf = st_size st" and "t = s\<lparr>w_maps := w_maps s + (if 0 < st_size st then 1 else 0)\<rparr>"
    by (rule mapped_file_open_Some)
  moreover from this assms(2) have "0 \<le> st_size st" by (auto simp: sizes_ok_def)
  ultimately show "t = s\<lparr>w_maps := w_maps s + maps_of (Some mf)\<rparr>" by (simp add: maps_of_def)
  from name show "mf_name mf = path" .
qed

lemma load_new_Ret:
  assumes "load_new cv os s = (Ret (), t)" and "arg_new_file (arg s) \<noteq> []" and "sizes_ok os"
  obtains mf where "new_file t = Some mf" and "mf_name mf = arg_new_file (arg s)"
    and "decode_from_mapped_file cv mf IMREAD_COLOR = Inr (new_color_mat t)"
    and "cv_bgr2gray cv (new_color_mat t) = Inr (new_gray_mat t)"
    and "w_fds t = w_fds s" and "w_maps t = w_maps s + maps_of (Some mf) - maps_of (new_file s)"
    and "arg t = arg s" and "old_file t = old_file s"
    and "old_color_mat t = old_color_mat s" and "old_gray_mat t = old_gray_mat s"
proof -
  from assms(1,2) obtain mf s1 color gray where mo: "must_open os (arg_new_file (arg s)) s = (Ret mf, s1)"
    and color: "decode_from_mapped_file cv mf IMREAD_COLOR = Inr color" and gray: "cv_bgr2gray cv color = Inr gray"
    and t: "t = (reset_new_file mf s1)\<lparr>new_color_mat := color, new_gray_mat := gray\<rparr>"
    by (auto simp: load_new_def elim!: bnd_RetE)
  from must_open_resources [OF mo assms(3)] color gray show thesis
    by (intro that [of mf]) (auto simp: t reset_new_file_def delete_file_effect)
qed

lemma load_old_Ret:
  assumes "load_old cv os s = (Ret (), t)" and "arg_old_file (arg s) \<noteq> []" and "sizes_ok os"
  obtains mf where "old_file t = Some mf" and "mf_name mf = arg_old_file (arg s)"
    and "decode_from_mapped_file cv mf IMREAD_COLOR = Inr (old_color_mat t)"
    and "cv_bgr2gray cv (old_color_mat t) = Inr (old_gray_mat t)"
    and "w_fds t = w_fds s" and "w_maps t = w_maps s + maps_of (Some mf) - maps_of (old_file s)"
    and "arg t = arg s" and "new_file t = new_file s"
    and "new_color_mat t = new_color_mat s" and "new_gray_mat t = new_gray_mat s"
proof -
  from assms(1,2) obtain mf s1 color gray where mo: "must_open os (arg_old_file (arg s)) s = (Ret mf, s1)"
    and color: "decode_from_mapped_file cv mf IMREAD_COLOR = Inr color" and gray: "cv_bgr2gray cv color = Inr gray"
    and t: "t = (reset_old_file mf s1)\<lparr>old_color_mat := color, old_gray_mat := gray\<rparr>"
    by (auto simp: load_old_def elim!: bnd_RetE)
  from must_open_resources [OF mo assms(3)] color gray show thesis
    by (intro that [of mf]) (auto simp: t reset_old_file_def delete_file_effect)
qed

section \<open>Properties of loading\<close>

lemma load_image_result:
  assumes "load_image cv os s = (Ret (), t)" and "sizes_ok os" and "resources_ok s"
    and "arg_new_file (arg s) \<noteq> []" and "arg_old_file (arg s) \<noteq> []"
  shows "resources_ok t \<and> arg t = arg s \<and>
    (\<exists>nf. new_file t = Some nf \<and> mf_name nf = arg_new_file (arg s) \<and>
       decode_from_mapped_file cv nf IMREAD_COLOR = Inr (new_color_mat t) \<and>
       cv_bgr2gray cv (new_color_mat t) = Inr (new_gray_mat t)) \<and>
    (\<exists>mo. old_file t = Some mo \<and> mf_name mo = arg_old_file (arg s) \<and>
       decode_from_mapped_file cv mo IMREAD_COLOR = Inr (old_color_mat t) \<and>
       cv_bgr2gray cv (old_color_mat t) = Inr (old_gray_mat t))"
proof -
  define s0 where "s0 = snd (timer_new os ''load image'' None s)"
  have s0: "arg s0 = arg s" "resources_ok s0"
    using assms(3) by (simp_all add: s0_def resources_ok_def)
  from assms(1) obtain s1 s2 where new: "load_new cv os s0 = (Ret (), s1)" and old: "load_old cv os s1 = (Ret (), s2)"
    and t: "t = timer_stop os (length (timer_records s)) s2"
    unfolding load_image_def s0_def by (elim with_timer_Ret bnd_RetE) auto
  have n: "arg_new_file (arg s0) \<noteq> []" using s0 assms(4) by simp
  obtain nf where nf: "new_file s1 = Some nf" "mf_name nf = arg_new_file (arg s)"
      "decode_from_mapped_file cv nf IMREAD_COLOR = Inr (new_color_mat s1)"
      "cv_bgr2gray cv (new_color_mat s1) = Inr (new_gray_mat s1)" "arg s1 = arg s" "resources_ok s1"
    using s0 by (rule_tac load_new_Ret [OF new n assms(2)]) (auto simp: resources_ok_def)
  have o: "arg_old_file (arg s1) \<noteq> []" using nf assms(5) by simp
  show ?thesis
    by (rule load_old_Ret [OF old o assms(2)]) (use nf in \<open>auto simp: t resources_ok_def\<close>)
qed

text \<open>
  C16. When \<open>load_image\<close> returns, both files are mapped under the names given on the command line,
  each colour image is what decoding the mapped bytes gives and each gray image is its
  conversion; no file descriptor stays open and the live mappings are those of the two files.
\<close>

theorem load_image_loads_both:
  assumes "load_image cv os s = (Ret (), t)" and "sizes_ok os" and "resources_ok s"
    and "arg_new_file (arg s) \<noteq> []" and "arg_old_file (arg s) \<noteq> []"
  shows "resources_ok t \<and> arg t = arg s \<and>
    (\<exists>nf. new_file t = Some nf \<and> mf_name nf = arg_new_file (arg s) \<and>
       decode_from_mapped_file cv nf IMREAD_COLOR = Inr (new_color_mat t) \<and>
       cv_bgr2gray cv (new_color_mat t) = Inr (new_gray_mat t)) \<and>
    (\<exists>mo. old_file t = Some mo \<and> mf_name mo = arg_old_file (arg s) \<and>
       decode_from_mapped_file cv mo IMREAD_COLOR = Inr (old_color_mat t) \<and>
       cv_bgr2gray cv (old_color_mat t) = Inr (old_gray_mat t))"
  using assms by (rule load_image_result)

definition loaded_args :: options where
  "loaded_args = default_options\<lparr>arg_new_file := ''n.png'', arg_old_file := ''o.png''\<rparr>"

definition before_load :: state where
  "before_load = initial_state\<lparr>arg := loaded_args\<rparr>"

theorem load_image_loads_both_witness:
  "\<exists>t. load_image sample_cv sample_os before_load = (Ret (), t) \<and> resources_ok t \<and>
     new_file t \<noteq> None \<and> old_file t \<noteq> None"
proof -
  have "fst (load_image sample_cv sample_os before_load) = Ret ()" by code_simp
  then obtain t where t: "load_image sample_cv sample_os before_load = (Ret (), t)"
    by (metis prod.collapse)
  have "sizes_ok sample_os" by (auto simp: sizes_ok_def sample_os_def)
  moreover have "resources_ok before_load"
    by (simp add: resources_ok_def before_load_def initial_state_def maps_of_def)
  ultimately show ?thesis
    using load_image_loads_both [OF t] t
    by (auto simp: before_load_def loaded_args_def)
qed

text \<open>
  C40. A file that cannot be opened ends the process with status 1 and a diagnostic that names the
  file, followed by whatever text \<open>strerror_r\<close> has left in the buffer; no descriptor and no
  mapping is created.
\<close>

theorem must_open_failure:
  assumes "os_open os path = Inl e"
  shows "\<exists>s'. must_open os path s = (Halt (Exited 1), s') \<and>
    w_err s' = w_err s @ add_color (arg s) ''fatal'' @ ''cannot open '' @ path @ '': '' @
      takeWhile (\<lambda>c. c \<noteq> CHR 0x00) (os_strerror_r os e (w_errbuf s)) @ newline \<and>
    w_fds s' = w_fds s \<and> w_maps s' = w_maps s"
proof -
  have "mapped_file_open os path s = (Ret None, s\<lparr>w_errno := e\<rparr>)"
    using assms by (simp add: mapped_file_open_None)
  then show ?thesis
    by (simp add: must_open_def fatal_errno_def errno_string_def Let_def fatal_def sync_out_err_def)
qed

theorem must_open_failure_witness:
  "\<exists>s'. must_open sample_os ''missing'' initial_state = (Halt (Exited 1), s') \<and>
     w_err s' = ''gazo-san: fatal: cannot open missing: No such file'' @ newline"
proof -
  have "os_open sample_os ''missing'' = Inl 2" by (simp add: sample_os_def)
  from must_open_failure [OF this, of initial_state] show ?thesis
    by (auto simp: sample_os_def initial_state_def default_options_def add_color_def)
qed

text \<open>
  Where \<open>strerror_r\<close> returns the address of a constant text and leaves its buffer alone, as
  the GNU C library documents for its default variant, the buffer keeps its initial zero bytes
  and the reported reason is empty, whatever the error is.
\<close>

lemma errno_string_blank_on_gnu:
  assumes "\<And>e buf. os_strerror_r os e buf = buf" and "w_errbuf s = replicate 200 (CHR 0x00)"
  shows "fst (errno_string os s) = []"
  using assms by (simp add: errno_string_def Let_def)

text \<open>
  Decoding hands the decoder the whole file exactly when its size is an \<open>int\<close>: from
  2 GiB to 4 GiB the length handed over is negative.
\<close>

lemma decode_length:
  "decode_from_mapped_file cv mf fl = cv_imdecode cv (mf_data mf)
     (if 0 \<le> mf_size mf \<and> mf_size mf < 2 ^ 31 then mf_size mf
      else if 2 ^ 31 \<le> mf_size mf \<and> mf_size mf < 2 ^ 32 then mf_size mf - 2 ^ 32
      else i32 (mf_size mf)) fl"
proof -
  have "i32 x = x - 2 ^ 32" if "2 ^ 31 \<le> x" "x < 2 ^ 32" for x :: int
  proof -
    have "x - 2 ^ 32 = i32 (x - 2 ^ 32)" using that by (intro i32_id [symmetric]) auto
    also have "\<dots> = i32 x" unfolding i32_def
      by (rule signed_take_bit_eq_iff_take_bit_eq [THEN iffD2]) (simp add: take_bit_eq_mod mod_diff_right_eq)
    finally show ?thesis ..
  qed
  then show ?thesis by (auto simp: decode_from_mapped_file_def i32_id)
qed

end
