(* ===== verification/Histogram.thy ===== *)
theory Histogram
  imports Loading
begin

text \<open>
  \<open>check_histogram_differential\<close> of \<open>image.cc\<close>: both colour images are converted to HSV, their
  hue and saturation histograms are normalised, and the chi-square distance of the two decides
  whether the images count as the same.
\<close>

definition preprocess_image :: "opencv \<Rightarrow> os \<Rightarrow> bgr mat \<Rightarrow> rat mat act" where
  "preprocess_image cv os color_mat = with_timer os ''preprocess image'' None (\<lambda>_.
     bnd (call (cv_bgr2hsv cv color_mat)) (\<lambda>hsv_mat.
     bnd (call (cv_calcHist cv hsv_mat [0, 1] [256, 256] [(0, 180), (0, 256)] True False)) (\<lambda>output.
     call (cv_normalize_minmax cv output 0 1))))"

text \<open>The comparison \<open>d - 0.00001 <= 1e-13\<close> on doubles.\<close>

definition histograms_same :: "double \<Rightarrow> bool" where
  "histograms_same d = (case d of
       Fin x \<Rightarrow> round53 (x - round53 (1 / 100000)) \<le> round53 (1 / 10000000000000)
     | NInf \<Rightarrow> True
     | PInf \<Rightarrow> False
     | NaN \<Rightarrow> False)"

text \<open>The result is \<open>std::variant<bool, std::string>\<close>: \<open>Inl\<close> the verdict, \<open>Inr\<close> an error text.\<close>

definition check_histogram_differential :: "opencv \<Rightarrow> os \<Rightarrow> (bool + string) act" where
  "check_histogram_differential cv os = with_timer os ''check histogram differential'' None (\<lambda>_.
     bnd (ask (\<lambda>s. (old_color_mat s, new_color_mat s))) (\<lambda>(old, new).
     if mat_empty old \<or> mat_empty new then ret (Inr ''failed to decode image file'')
     else
       bnd (preprocess_image cv os old) (\<lambda>hist_old_mat.
       bnd (preprocess_image cv os new) (\<lambda>hist_new_mat.
       bnd (call (cv_compareHist cv hist_old_mat hist_new_mat 1)) (\<lambda>d.
       ret (Inl (histograms_same d)))))))"

section \<open>The verdict\<close>

lemma histograms_same_mono: "x \<le> y \<Longrightarrow> histograms_same (Fin y) \<Longrightarrow> histograms_same (Fin x)"
  using round53_mono [of "x - round53 (1 / 100000)" "y - round53 (1 / 100000)"]
  by (simp add: histograms_same_def)

lemma tenmicro_error: "\<bar>round53 (1 / 100000) - 1 / 100000\<bar> \<le> 1 / 10 ^ 20"
proof -
  have "\<bar>round53 (1 / 100000) - 1 / 100000\<bar> \<le> (1 / 100000) / (2 ^ 53 :: rat)"
    by (rule round53_error) simp
  also have "\<dots> \<le> 1 / 10 ^ 20" by simp
  finally show ?thesis .
qed

lemma histograms_same_low: "histograms_same (Fin (1 / 100000))"
proof -
  have "1 / 100000 - round53 (1 / 100000) \<le> 1 / 10000000000000" using tenmicro_error unfolding abs_le_iff by simp
  then show ?thesis by (simp add: histograms_same_def round53_mono)
qed

lemma histograms_same_zero: "histograms_same (Fin 0)"
  by (rule histograms_same_mono [OF _ histograms_same_low]) simp

lemma histograms_same_high: "\<not> histograms_same (Fin (1 / 100000 + 2 / 10000000000000))"
proof -
  let ?d = "1 / 100000 + 2 / 10000000000000 - round53 (1 / 100000)"
  have d: "19 / 100000000000000 \<le> ?d" using tenmicro_error unfolding abs_le_iff by simp
  have "round53 (1 / 10000000000000) < round53 ?d"
    by (rule round53_separates) (use d in simp_all)
  then show ?thesis by (simp add: histograms_same_def)
qed

text \<open>
  C35. The rounding of the floating-point comparison does no harm: every distance up to 0.00001
  counts as the same image, every distance from 0.00001 plus 2e-13 on counts as different, the
  verdict changes only once in between, and a distance that is not a number counts as different.
\<close>

theorem histograms_same_threshold:
  "(x \<le> 1 / 100000 \<longrightarrow> histograms_same (Fin x)) \<and>
   (1 / 100000 + 2 / 10000000000000 \<le> x \<longrightarrow> \<not> histograms_same (Fin x)) \<and>
   (x \<le> y \<longrightarrow> histograms_same (Fin y) \<longrightarrow> histograms_same (Fin x)) \<and>
   \<not> histograms_same NaN"
proof (intro conjI impI)
  show "x \<le> 1 / 100000 \<Longrightarrow> histograms_same (Fin x)"
    by (erule histograms_same_mono) (rule histograms_same_low)
  show "1 / 100000 + 2 / 10000000000000 \<le> x \<Longrightarrow> \<not> histograms_same (Fin x)"
    using histograms_same_mono histograms_same_high by blast
  show "x \<le> y \<Longrightarrow> histograms_same (Fin y) \<Longrightarrow> histograms_same (Fin x)"
    by (rule histograms_same_mono)
  show "\<not> histograms_same NaN" by (simp add: histograms_same_def)
qed

theorem histograms_same_threshold_witness:
  "histograms_same (Fin 0) \<and> \<not> histograms_same (Fin (1 / 1000))"
  using histograms_same_threshold [of 0 0] histograms_same_threshold [of "1 / 1000" 0] by simp

end
