(* ===== verification/Segments.thy ===== *)
theory Segments
  imports Histogram
begin

text \<open>
  \<open>split_segments\<close> of \<open>image.cc\<close>: the contour labelling loop, the breadth-first search over the
  label matrix, the raster scan that groups labelled pixels into rectangles, and the function
  around them. The search is proved to collect exactly the 8-connected component of its start
  pixel, and the scan to produce one rectangle for every component of more than one pixel.
\<close>

section \<open>Labelling the contours\<close>

definition hier_next :: "vec4i \<Rightarrow> int" where
  "hier_next v = fst v"

definition hier_prev :: "vec4i \<Rightarrow> int" where
  "hier_prev v = fst (snd v)"

text \<open>
  The loop follows the links to the next contour of the same level and may run forever on links
  that form a cycle; then there is no result.
\<close>

partial_function (option) label_loop ::
  "opencv \<Rightarrow> contour list \<Rightarrow> vec4i list \<Rightarrow> int \<Rightarrow> int \<Rightarrow> int mat \<Rightarrow> (halt + int mat) option"
where
  "label_loop cv contours hierarchy idx labels markers =
     (if idx < 0 then Some (Inr markers)
      else case cv_drawContours cv markers contours idx (labels + 1) hierarchy of
             Inl e \<Rightarrow> Some (Inl (Uncaught e))
           | Inr markers' \<Rightarrow>
               if length hierarchy \<le> nat idx then Some (Inl (Undefined ''hierarchy[idx]''))
               else label_loop cv contours hierarchy (hier_next (hierarchy ! nat idx)) (labels + 1) markers')"

section \<open>The breadth-first search\<close>

record bfs_state =
  b_markers :: "int mat"
  b_minP :: point
  b_maxP :: point
  b_Q :: "(int \<times> int) list"

definition offsets :: "(int \<times> int) list" where
  "offsets = [(dx, dy). dy \<leftarrow> [- 1, 0, 1], dx \<leftarrow> [- 1, 0, 1]]"

text \<open>The body of the two inner loops, for one offset around the pixel taken from the queue.\<close>

definition visit :: "int \<Rightarrow> int \<Rightarrow> int \<times> int \<Rightarrow> bfs_state \<Rightarrow> bfs_state" where
  "visit x y d b =
     (let (dx, dy) = d; nx = x + dx; ny = y + dy in
      if dx = 0 \<and> dy = 0 then b
      else if nx < 0 \<or> cols (b_markers b) \<le> nx then b
      else if ny < 0 \<or> rows (b_markers b) \<le> ny then b
      else if pix (b_markers b) ny nx \<le> 1 then b
      else b\<lparr>b_markers := put ny nx 0 (b_markers b),
             b_minP := \<lparr>px = min (px (b_minP b)) nx, py = min (py (b_minP b)) ny\<rparr>,
             b_maxP := \<lparr>px = max (px (b_maxP b)) nx, py = max (py (b_maxP b)) ny\<rparr>,
             b_Q := b_Q b @ [(nx, ny)]\<rparr>)"

text \<open>The labelled pixels: those that are neither border, background nor already processed.\<close>

definition fg :: "int mat \<Rightarrow> (int \<times> int) set" where
  "fg m = {(x, y). 0 \<le> x \<and> x < cols m \<and> 0 \<le> y \<and> y < rows m \<and> 1 < pix m y x}"

lemma finite_fg [simp]: "finite (fg m)"
  by (rule finite_subset [of _ "{0..<cols m} \<times> {0..<rows m}"]) (auto simp: fg_def)

lemma fg_put_0 [simp]: "fg (put y x 0 m) = fg m - {(x, y)}"
  by (auto simp: fg_def split: if_splits)

lemma visit_cases:
  obtains (skip) "visit x y d b = b" and "(x + fst d, y + snd d) \<notin> fg (b_markers b) \<or> d = (0, 0)"
  | (take) "(x + fst d, y + snd d) \<in> fg (b_markers b)" and "d \<noteq> (0, 0)"
    and "visit x y d b = b\<lparr>b_markers := put (y + snd d) (x + fst d) 0 (b_markers b),
             b_minP := \<lparr>px = min (px (b_minP b)) (x + fst d), py = min (py (b_minP b)) (y + snd d)\<rparr>,
             b_maxP := \<lparr>px = max (px (b_maxP b)) (x + fst d), py = max (py (b_maxP b)) (y + snd d)\<rparr>,
             b_Q := b_Q b @ [(x + fst d, y + snd d)]\<rparr>"
proof (cases "(x + fst d, y + snd d) \<in> fg (b_markers b) \<and> d \<noteq> (0, 0)")
  case True
  then show thesis by (intro take) (auto simp: visit_def fg_def Let_def split: prod.split)
next
  case False
  then show thesis by (intro skip) (auto simp: visit_def fg_def Let_def split: prod.split)
qed

definition work :: "bfs_state \<Rightarrow> nat" where
  "work b = card (fg (b_markers b)) + length (b_Q b)"

lemma work_visit: "work (visit x y d b) = work b"
proof (cases rule: visit_cases [of x y d b])
  case take
  then have "0 < card (fg (b_markers b))" by (auto simp: card_gt_0_iff)
  with take show ?thesis by (simp add: work_def)
qed (simp add: work_def)

lemma work_visits: "work (fold (visit x y) ds b) = work b"
  by (induction ds arbitrary: b) (simp_all add: work_visit)

text \<open>
  Each iteration takes one pixel from the queue; a pixel enters the queue only when it leaves the
  labelled pixels, so the loop ends.
\<close>

function bfs_loop :: "bfs_state \<Rightarrow> bfs_state" where
  "bfs_loop b = (case b_Q b of
       [] \<Rightarrow> b
     | (x, y) # Q' \<Rightarrow> bfs_loop (fold (visit x y) offsets (b\<lparr>b_Q := Q'\<rparr>)))"
  by pat_completeness auto
termination
  by (relation "measure work") (simp_all add: work_visits, simp add: work_def)

declare bfs_loop.simps [simp del]

lemma bfs_loop_eval [code]:
  "bfs_loop b = (if b_Q b = [] then b
     else bfs_loop (fold (visit (fst (hd (b_Q b))) (snd (hd (b_Q b)))) offsets (b\<lparr>b_Q := tl (b_Q b)\<rparr>)))"
  by (subst bfs_loop.simps) (simp split: list.split prod.split)

definition bfs :: "opencv \<Rightarrow> int mat \<Rightarrow> int \<Rightarrow> int \<Rightarrow> rect option \<times> int mat" where
  "bfs cv markers sx sy =
     (let p = \<lparr>px = sx, py = sy\<rparr>;
          b = bfs_loop \<lparr>b_markers = markers, b_minP = p, b_maxP = p, b_Q = [(sx, sy)]\<rparr>
      in (if px (b_minP b) = sx \<and> py (b_minP b) = sy \<and> px (b_maxP b) = sx \<and> py (b_maxP b) = sy
          then None else Some (cv_Rect cv (b_minP b) (b_maxP b)),
          b_markers b))"

section \<open>Grouping and the whole of split_segments\<close>

text \<open>The pixels in the order of the two grouping loops: row by row, each row from left to right.\<close>

definition raster :: "'a mat \<Rightarrow> (int \<times> int) list" where
  "raster m = [(x, y). y \<leftarrow> [0..rows m - 1], x \<leftarrow> [0..cols m - 1]]"

definition group_pixel :: "opencv \<Rightarrow> int \<times> int \<Rightarrow> int mat \<times> rect list \<Rightarrow> int mat \<times> rect list" where
  "group_pixel cv p acc =
     (let (x, y) = p; (markers, segments) = acc in
      if pix markers y x \<le> 1 then (markers, segments)
      else let (r, markers') = bfs cv markers x y
           in (markers', case r of Some rect \<Rightarrow> segments @ [rect] | None \<Rightarrow> segments))"

definition group_pixels :: "opencv \<Rightarrow> int mat \<Rightarrow> int mat \<times> rect list" where
  "group_pixels cv markers = fold (group_pixel cv) (raster markers) (markers, [])"

text \<open>The image processing part, up to the watershed: \<open>None\<close> when no contour was found.\<close>

definition label_image :: "opencv \<Rightarrow> u8 mat \<Rightarrow> bgr mat \<Rightarrow> int \<Rightarrow> ('s, int mat option) prog" where
  "label_image cv gray_mat color_mat threshold =
     bnd (call (cv_threshold_binary cv gray_mat threshold 255)) (\<lambda>bin_mat.
     bnd (call (cv_morph_gradient cv bin_mat (cv_rect_kernel cv 3 3) \<lparr>px = - 1, py = - 1\<rparr> 7)) (\<lambda>grd8.
     bnd (call (cv_convert_32S cv grd8)) (\<lambda>grd_mat.
     bnd (call (cv_findContours cv grd_mat)) (\<lambda>(contours, hierarchy).
     if contours = [] then ret None
     else
       case label_loop cv contours hierarchy 0 0 (cv_zeros cv (rows grd_mat) (cols grd_mat)) of
         None \<Rightarrow> halt (Diverged ''contour loop'')
       | Some r \<Rightarrow>
           bnd (guarded r) (\<lambda>markers.
           bnd (call (cv_watershed cv color_mat (cv_add_scalar cv markers 1))) (\<lambda>markers.
           ret (Some markers)))))))"

text \<open>
  The timer of the image processing is stopped after the watershed; on the early return it is
  stopped by its destructor.
\<close>

definition split_segments :: "opencv \<Rightarrow> os \<Rightarrow> u8 mat \<Rightarrow> bgr mat \<Rightarrow> int \<Rightarrow> rect list act" where
  "split_segments cv os gray_mat color_mat threshold =
     with_timer os ''split segments'' None (\<lambda>t.
     with_timer os ''image processing'' (Some t) (\<lambda>t_image.
     bnd (label_image cv gray_mat color_mat threshold) (\<lambda>r. case r of
       None \<Rightarrow> ret []
     | Some markers \<Rightarrow>
         bnd (upd (timer_stop os t_image)) (\<lambda>_.
         with_timer os ''grouping'' (Some t) (\<lambda>_. ret (snd (group_pixels cv markers)))))))"

section \<open>What split_segments computes\<close>

text \<open>
  \<open>split_segments\<close> without its timers: how the image processing ends, and the rectangles of the
  grouping. From every state the function ends this way and changes nothing but the timers.
\<close>

definition segment_rects :: "opencv \<Rightarrow> u8 mat \<Rightarrow> bgr mat \<Rightarrow> int \<Rightarrow> rect list outcome" where
  "segment_rects cv gray_mat color_mat threshold =
     (case fst (label_image cv gray_mat color_mat threshold ()) of
        Halt h \<Rightarrow> Halt h
      | Ret None \<Rightarrow> Ret []
      | Ret (Some markers) \<Rightarrow> Ret (snd (group_pixels cv markers)))"

lemma label_image_stateless:
  "label_image cv g c th s = (fst (label_image cv g c th ()), s)"
  by (auto simp: label_image_def bnd_def prog_simps split: sum.splits option.splits prod.splits)

lemma label_image_computes: "computes (label_image cv g c th) (fst (label_image cv g c th ()))"
proof (rule computesI)
  fix s
  show "runs (label_image cv g c th) s (fst (label_image cv g c th ())) s"
    unfolding runs_def by (auto simp: label_image_stateless [of cv g c th "_ :: state"])
qed

lemma split_segments_computes:
  "computes (split_segments cv os g c th) (segment_rects cv g c th)"
proof (rule computesI)
  fix s
  note run = computes_runs [OF label_image_computes [of cv g c th], of s]
  show "runs (split_segments cv os g c th) s (segment_rects cv g c th) s"
  proof (cases "fst (label_image cv g c th ())")
    case (Halt h)
    with run show ?thesis unfolding split_segments_def segment_rects_def
      by (auto intro!: runs_with_timer intro: runs_bnd_Halt)
  next
    case (Ret r)
    with run have "runs (label_image cv g c th) s (Ret r) s" by simp
    with Ret show ?thesis unfolding split_segments_def segment_rects_def
      by (cases r) (auto intro!: runs_intros runs_bnd [OF runs_stop] elim!: runs_bnd)
  qed
qed

section \<open>Worklist search in general\<close>

text \<open>The elements that can be reached from \<open>p\<close> by neighbours that lie in \<open>F\<close>.\<close>

definition reach_in :: "('p \<Rightarrow> 'p \<Rightarrow> bool) \<Rightarrow> 'p set \<Rightarrow> 'p \<Rightarrow> 'p set" where
  "reach_in adj F p = {q. (\<lambda>a b. adj a b \<and> b \<in> F)\<^sup>*\<^sup>* p q}"

text \<open>
  What a worklist search keeps true: \<open>F0\<close> are the elements at the start, \<open>F\<close> those not yet
  taken, \<open>Q\<close> the queue. Every element taken, and the start, either waits in the queue or has
  had all its neighbours taken; every element taken is the neighbour of one that was reached.
\<close>

definition search_inv :: "('p \<Rightarrow> 'p \<Rightarrow> bool) \<Rightarrow> 'p \<Rightarrow> 'p set \<Rightarrow> 'p set \<Rightarrow> 'p list \<Rightarrow> bool" where
  "search_inv adj p0 F0 F Q \<longleftrightarrow> F \<subseteq> F0 \<and> set Q \<subseteq> reach_in adj F0 p0 \<and> F0 - F \<subseteq> reach_in adj F0 p0 \<and>
     (\<forall>q \<in> insert p0 (F0 - F). q \<in> set Q \<or> (\<forall>r. adj q r \<longrightarrow> r \<notin> F)) \<and>
     (\<forall>q \<in> F0 - F. \<exists>r \<in> reach_in adj F0 p0. adj r q)"

text \<open>The interface of the search: a neighbour relation that is symmetric and irreflexive.\<close>

locale worklist_search =
  fixes adj :: "'p \<Rightarrow> 'p \<Rightarrow> bool"
  assumes adj_sym: "adj p q \<Longrightarrow> adj q p"
    and adj_irrefl: "\<not> adj p p"
begin

lemma reach_refl [simp]: "p \<in> reach_in adj F p"
  by (simp add: reach_in_def)

lemma reach_step: "q \<in> reach_in adj F p \<Longrightarrow> adj q r \<Longrightarrow> r \<in> F \<Longrightarrow> r \<in> reach_in adj F p"
  by (simp add: reach_in_def rtranclp.rtrancl_into_rtrancl)

lemma reach_closed:
  assumes "q \<in> reach_in adj F p" and "p \<in> S" and "\<And>a b. a \<in> S \<Longrightarrow> adj a b \<Longrightarrow> b \<in> F \<Longrightarrow> b \<in> S"
  shows "q \<in> S"
proof -
  from assms(1) have "(\<lambda>a b. adj a b \<and> b \<in> F)\<^sup>*\<^sup>* p q" by (simp add: reach_in_def)
  then show ?thesis by (induction rule: rtranclp_induct) (use assms(2,3) in blast)+
qed

lemma reach_subset: "p \<in> F \<Longrightarrow> reach_in adj F p \<subseteq> F"
  using reach_closed [of _ F p F] by blast

lemma reach_trans: "q \<in> reach_in adj F p \<Longrightarrow> r \<in> reach_in adj F q \<Longrightarrow> r \<in> reach_in adj F p"
  by (auto simp: reach_in_def)

lemma reach_sym:
  assumes "q \<in> reach_in adj F p" and "p \<in> F"
  shows "p \<in> reach_in adj F q"
proof -
  have "q \<in> {q. q \<in> F \<and> p \<in> reach_in adj F q}"
  proof (rule reach_closed [OF assms(1)])
    fix a b assume "a \<in> {q. q \<in> F \<and> p \<in> reach_in adj F q}" and ab: "adj a b" and b: "b \<in> F"
    then have a: "a \<in> F" and pa: "p \<in> reach_in adj F a" by auto
    have "a \<in> reach_in adj F b" using reach_step [OF reach_refl adj_sym [OF ab] a] .
    then show "b \<in> {q. q \<in> F \<and> p \<in> reach_in adj F q}" using b pa reach_trans by blast
  qed (use assms(2) in simp)
  then show ?thesis by simp
qed

lemma reach_eq: "q \<in> reach_in adj F p \<Longrightarrow> p \<in> F \<Longrightarrow> reach_in adj F q = reach_in adj F p"
  using reach_trans reach_sym by blast

text \<open>Taking whole components away leaves the other components as they are.\<close>

lemma reach_remove:
  assumes closed: "\<And>a b. a \<in> S \<Longrightarrow> adj a b \<Longrightarrow> b \<in> F \<Longrightarrow> b \<in> S" and p: "p \<in> F - S"
  shows "reach_in adj (F - S) p = reach_in adj F p"
proof
  show "reach_in adj (F - S) p \<subseteq> reach_in adj F p"
    by (rule subsetI, erule reach_closed) (auto intro: reach_step)
  have "q \<in> reach_in adj (F - S) p \<inter> (F - S)" if "q \<in> reach_in adj F p" for q
  proof (rule reach_closed [OF that])
    fix a b assume a: "a \<in> reach_in adj (F - S) p \<inter> (F - S)" and ab: "adj a b" and b: "b \<in> F"
    have "b \<notin> S" using closed [OF _ adj_sym [OF ab]] a by blast
    with a ab b show "b \<in> reach_in adj (F - S) p \<inter> (F - S)" using reach_step by blast
  qed (use p in simp)
  then show "reach_in adj F p \<subseteq> reach_in adj (F - S) p" by blast
qed

lemma search_start: "p0 \<in> F0 \<Longrightarrow> search_inv adj p0 F0 F0 [p0]"
  by (simp add: search_inv_def)

lemma search_step:
  assumes inv: "search_inv adj p0 F0 F (p # Q)" and new: "set new = {r \<in> F. adj p r}"
  shows "search_inv adj p0 F0 (F - set new) (Q @ new)"
proof -
  have "p \<in> reach_in adj F0 p0" using inv by (simp add: search_inv_def)
  then have "set new \<subseteq> reach_in adj F0 p0"
    using inv new by (auto simp: search_inv_def intro: reach_step)
  with inv new show ?thesis unfolding search_inv_def by auto
qed

lemma search_end:
  assumes inv: "search_inv adj p0 F0 F []" and p0: "p0 \<in> F0"
  shows "F0 - F = (if reach_in adj F0 p0 = {p0} then {} else reach_in adj F0 p0)"
proof -
  let ?D = "F0 - F" and ?R = "reach_in adj F0 p0"
  have sub: "?D \<subseteq> ?R" and closed: "\<And>q r. q \<in> insert p0 ?D \<Longrightarrow> adj q r \<Longrightarrow> r \<in> F0 \<Longrightarrow> r \<in> ?D"
    using inv by (auto simp: search_inv_def)
  have cover: "?R \<subseteq> insert p0 ?D" using reach_closed [of _ F0 p0 "insert p0 ?D"] closed by blast
  show ?thesis
  proof (cases "?R = {p0}")
    case True
    have "p0 \<notin> ?D"
    proof
      assume "p0 \<in> ?D"
      with inv obtain r where "r \<in> ?R" and "adj r p0" unfolding search_inv_def by blast
      with True adj_irrefl show False by simp
    qed
    with sub True show ?thesis by auto
  next
    case False
    then obtain q where "q \<in> ?R" "q \<noteq> p0" using reach_refl by blast
    then obtain r where r: "adj p0 r" "r \<in> F0" using reach_closed [of q F0 p0 "{p0}"] by blast
    then have "r \<in> ?D" using closed by blast
    then have "p0 \<in> ?D" using closed adj_sym [OF r(1)] p0 by blast
    with cover sub False show ?thesis by auto
  qed
qed

end

section \<open>The search collects the 8-connected component\<close>

definition adj8 :: "int \<times> int \<Rightarrow> int \<times> int \<Rightarrow> bool" where
  "adj8 p q \<longleftrightarrow> p \<noteq> q \<and> \<bar>fst p - fst q\<bar> \<le> 1 \<and> \<bar>snd p - snd q\<bar> \<le> 1"

interpretation grid: worklist_search adj8
  by unfold_locales (auto simp: adj8_def)

text \<open>The component of a labelled pixel, the corners of a set of pixels, and clearing a set.\<close>

definition component :: "int mat \<Rightarrow> int \<times> int \<Rightarrow> (int \<times> int) set" where
  "component m p = reach_in adj8 (fg m) p"

definition min_corner :: "(int \<times> int) set \<Rightarrow> point" where
  "min_corner C = \<lparr>px = Min (fst ` C), py = Min (snd ` C)\<rparr>"

definition max_corner :: "(int \<times> int) set \<Rightarrow> point" where
  "max_corner C = \<lparr>px = Max (fst ` C), py = Max (snd ` C)\<rparr>"

definition clear :: "(int \<times> int) set \<Rightarrow> int mat \<Rightarrow> int mat" where
  "clear C m = m\<lparr>pix := (\<lambda>y x. if (x, y) \<in> C then 0 else pix m y x)\<rparr>"

lemma clear_dims [simp]: "rows (clear C m) = rows m" "cols (clear C m) = cols m"
  by (simp_all add: clear_def)

lemma pix_clear [simp]: "pix (clear C m) y x = (if (x, y) \<in> C then 0 else pix m y x)"
  by (simp add: clear_def)

lemma fg_clear [simp]: "fg (clear C m) = fg m - C"
  by (auto simp: fg_def split: if_splits)

lemma clear_empty [simp]: "clear {} m = m"
  by (simp add: clear_def)

lemma clear_clear [simp]: "clear C (clear D m) = clear (C \<union> D) m"
  by (auto simp: clear_def fun_eq_iff)

lemma put_clear: "put y x 0 (clear C m) = clear (insert (x, y) C) m"
  by (auto simp: put_def clear_def fun_eq_iff)

lemma component_subset: "p \<in> fg m \<Longrightarrow> component m p \<subseteq> fg m"
  unfolding component_def by (rule grid.reach_subset)

lemma finite_component: "p \<in> fg m \<Longrightarrow> finite (component m p)"
  using component_subset finite_fg by (metis finite_subset)

lemma offsets_iff: "d \<in> set offsets \<longleftrightarrow> \<bar>fst d\<bar> \<le> 1 \<and> \<bar>snd d\<bar> \<le> 1"
proof -
  have unit_iff: "a \<in> {- 1, 0, 1} \<longleftrightarrow> \<bar>a\<bar> \<le> 1" for a :: int by auto
  have "d \<in> set offsets \<longleftrightarrow> fst d \<in> {- 1, 0, 1} \<and> snd d \<in> {- 1, 0, 1}"
    unfolding offsets_def by (cases d) auto
  then show ?thesis by (simp only: unit_iff)
qed

lemma offsets_adj8: "(\<lambda>d. (x + fst d, y + snd d)) ` (set offsets - {(0, 0)}) = {q. adj8 (x, y) q}"
proof (intro set_eqI iffI)
  fix q assume q: "q \<in> {q. adj8 (x, y) q}"
  let ?d = "(fst q - x, snd q - y)"
  from q have "?d \<in> set offsets - {(0, 0)}"
    by (auto simp: adj8_def offsets_iff abs_minus_commute prod_eq_iff)
  moreover have "q = (x + fst ?d, y + snd ?d)" by simp
  ultimately show "q \<in> (\<lambda>d. (x + fst d, y + snd d)) ` (set offsets - {(0, 0)})" by blast
qed (auto simp: adj8_def offsets_iff prod_eq_iff)

text \<open>One round of the inner loops takes exactly the labelled neighbours.\<close>

lemma visits_take:
  "\<exists>new. b_Q (fold (visit x y) ds b) = b_Q b @ new \<and>
     set new = fg (b_markers b) \<inter> (\<lambda>d. (x + fst d, y + snd d)) ` (set ds - {(0, 0)}) \<and>
     fg (b_markers (fold (visit x y) ds b)) = fg (b_markers b) - set new"
proof (induction ds arbitrary: b)
  case (Cons d ds)
  show ?case
  proof (cases rule: visit_cases [of x y d b])
    case skip
    with Cons [of b] show ?thesis by (cases "d = (0, 0)") (auto simp: image_iff)
  next
    case take
    from Cons [of "visit x y d b"] obtain new where
      "b_Q (fold (visit x y) ds (visit x y d b)) = b_Q b @ (x + fst d, y + snd d) # new"
      "set new = (fg (b_markers b) - {(x + fst d, y + snd d)}) \<inter> (\<lambda>d. (x + fst d, y + snd d)) ` (set ds - {(0, 0)})"
      "fg (b_markers (fold (visit x y) ds (visit x y d b))) = fg (b_markers b) - {(x + fst d, y + snd d)} - set new"
      using take by auto
    with take show ?thesis
      by (intro exI [of _ "(x + fst d, y + snd d) # new"]) auto
  qed
qed simp

text \<open>
  What the search keeps of the matrix and the corners: the taken pixels are cleared, and the
  corners are those of the taken pixels and the start.
\<close>

definition bfs_inv :: "int mat \<Rightarrow> int \<times> int \<Rightarrow> bfs_state \<Rightarrow> bool" where
  "bfs_inv m p0 b \<longleftrightarrow> (\<exists>D \<subseteq> fg m. b_markers b = clear D m \<and>
     b_minP b = min_corner (insert p0 D) \<and> b_maxP b = max_corner (insert p0 D))"

lemma visit_bfs_inv:
  assumes "bfs_inv m p0 b"
  shows "bfs_inv m p0 (visit x y d b)"
proof (cases rule: visit_cases [of x y d b])
  case take
  let ?q = "(x + fst d, y + snd d)"
  from assms obtain D where D: "D \<subseteq> fg m" "b_markers b = clear D m"
      "b_minP b = min_corner (insert p0 D)" "b_maxP b = max_corner (insert p0 D)"
    by (auto simp: bfs_inv_def)
  have fin: "finite D" using D(1) finite_fg by (rule finite_subset)
  have "insert ?q D \<subseteq> fg m" using D take by auto
  moreover have "b_markers (visit x y d b) = clear (insert ?q D) m"
    using D take by (simp add: put_clear)
  moreover have "b_minP (visit x y d b) = min_corner (insert p0 (insert ?q D))"
    and "b_maxP (visit x y d b) = max_corner (insert p0 (insert ?q D))"
    using D take fin
    by (simp_all add: min_corner_def max_corner_def insert_commute [of p0] Min_insert2 min.commute max.commute)
  ultimately show ?thesis unfolding bfs_inv_def by blast
qed (use assms in simp)

lemma bfs_loop_correct:
  assumes "bfs_inv m p0 b" and "search_inv adj8 p0 (fg m) (fg (b_markers b)) (b_Q b)"
  shows "bfs_inv m p0 (bfs_loop b) \<and> search_inv adj8 p0 (fg m) (fg (b_markers (bfs_loop b))) []"
  using assms
proof (induction b rule: bfs_loop.induct)
  case (1 b)
  show ?case
  proof (cases "b_Q b")
    case Nil
    with "1.prems" show ?thesis by (simp add: bfs_loop.simps [of b])
  next
    case (Cons p Q')
    obtain x y where p: "p = (x, y)" by (cases p)
    let ?b = "b\<lparr>b_Q := Q'\<rparr>" and ?c = "fold (visit x y) offsets (b\<lparr>b_Q := Q'\<rparr>)"
    have "bfs_inv m p0 ?b" using "1.prems"(1) by (simp add: bfs_inv_def)
    then have inv: "bfs_inv m p0 ?c" by (rule fold_invariant_list) (rule visit_bfs_inv)
    obtain new where new: "b_Q ?c = Q' @ new" "set new = {r \<in> fg (b_markers b). adj8 (x, y) r}"
        "fg (b_markers ?c) = fg (b_markers b) - set new"
      using visits_take [of x y offsets ?b] by (auto simp: offsets_adj8)
    have "search_inv adj8 p0 (fg m) (fg (b_markers ?c)) (b_Q ?c)"
      unfolding new(1,3) using "1.prems"(2) new(2) by (intro grid.search_step [of _ _ _ "(x, y)"]) (simp_all add: Cons p)
    then have "bfs_inv m p0 (bfs_loop ?c) \<and> search_inv adj8 p0 (fg m) (fg (b_markers (bfs_loop ?c))) []"
      using "1.IH" [OF Cons p [symmetric] inv] by simp
    then show ?thesis by (simp add: bfs_loop.simps [of b] Cons p)
  qed
qed

lemma corners_singleton_iff:
  assumes "finite C" and "(x, y) \<in> C"
  shows "min_corner C = \<lparr>px = x, py = y\<rparr> \<and> max_corner C = \<lparr>px = x, py = y\<rparr> \<longleftrightarrow> C = {(x, y)}"
proof
  assume "min_corner C = \<lparr>px = x, py = y\<rparr> \<and> max_corner C = \<lparr>px = x, py = y\<rparr>"
  then have "Min (fst ` C) = x" "Min (snd ` C) = y" "Max (fst ` C) = x" "Max (snd ` C) = y"
    by (simp_all add: min_corner_def max_corner_def)
  then have "fst q = x \<and> snd q = y" if "q \<in> C" for q
    using that assms(1) by (metis Max_ge Min_le antisym finite_imageI imageI)
  with assms(2) show "C = {(x, y)}" by (auto simp: prod_eq_iff)
qed (simp add: min_corner_def max_corner_def)

lemma bfs_correct:
  assumes "(x, y) \<in> fg m"
  defines "C \<equiv> component m (x, y)"
  shows "bfs cv m x y = (if C = {(x, y)} then (None, m)
    else (Some (cv_Rect cv (min_corner C) (max_corner C)), clear C m))"
proof -
  let ?p = "\<lparr>px = x, py = y\<rparr>"
  define b where "b = bfs_loop \<lparr>b_markers = m, b_minP = ?p, b_maxP = ?p, b_Q = [(x, y)]\<rparr>"
  have "bfs_inv m (x, y) \<lparr>b_markers = m, b_minP = ?p, b_maxP = ?p, b_Q = [(x, y)]\<rparr>"
    unfolding bfs_inv_def by (intro exI [of _ "{}"]) (simp add: min_corner_def max_corner_def)
  then have inv: "bfs_inv m (x, y) b" and fin: "search_inv adj8 (x, y) (fg m) (fg (b_markers b)) []"
    unfolding b_def using bfs_loop_correct grid.search_start [OF assms(1)] by simp_all
  then obtain D where D: "D \<subseteq> fg m" "b_markers b = clear D m"
      "b_minP b = min_corner (insert (x, y) D)" "b_maxP b = max_corner (insert (x, y) D)"
    by (auto simp: bfs_inv_def)
  have "fg m - fg (b_markers b) = D" using D by auto
  with grid.search_end [OF fin assms(1)] have DC: "D = (if C = {(x, y)} then {} else C)"
    by (simp add: C_def component_def)
  have inC: "(x, y) \<in> C" by (simp add: C_def component_def)
  then have ins: "insert (x, y) D = C" using DC by auto
  have "finite C" unfolding C_def by (rule finite_component [OF assms(1)])
  note one = corners_singleton_iff [OF this inC]
  have "bfs cv m x y = (if b_minP b = ?p \<and> b_maxP b = ?p then None
      else Some (cv_Rect cv (b_minP b) (b_maxP b)), b_markers b)"
    by (cases "b_minP b"; cases "b_maxP b") (simp add: bfs_def Let_def b_def [symmetric])
  with DC D(2-4) ins one show ?thesis by auto
qed

section \<open>Grouping produces one rectangle per component\<close>

definition raster_less :: "int \<times> int \<Rightarrow> int \<times> int \<Rightarrow> bool" where
  "raster_less q p \<longleftrightarrow> snd q < snd p \<or> snd q = snd p \<and> fst q < fst p"

text \<open>A leader is the first pixel, in raster order, of a component with more than one pixel.\<close>

definition leader :: "int mat \<Rightarrow> int \<times> int \<Rightarrow> bool" where
  "leader m p \<longleftrightarrow> p \<in> fg m \<and> component m p \<noteq> {p} \<and> (\<forall>q \<in> component m p. \<not> raster_less q p)"

definition component_rect :: "opencv \<Rightarrow> int mat \<Rightarrow> int \<times> int \<Rightarrow> rect" where
  "component_rect cv m p = cv_Rect cv (min_corner (component m p)) (max_corner (component m p))"

definition large :: "int mat \<Rightarrow> (int \<times> int) set" where
  "large m = {p \<in> fg m. component m p \<noteq> {p}}"

lemma set_raster: "set (raster m) = {(x, y). 0 \<le> x \<and> x < cols m \<and> 0 \<le> y \<and> y < rows m}"
  by (auto simp: raster_def)

lemma fg_raster: "fg m \<subseteq> set (raster m)"
  by (auto simp: set_raster fg_def)

lemma sorted_raster: "sorted_wrt raster_less (raster m)"
proof -
  have row: "sorted_wrt raster_less (map (\<lambda>x. (x, y)) [a..b])" for a b y
    by (simp add: sorted_wrt_map raster_less_def sorted_wrt_upto)
  have "sorted_wrt raster_less (concat (map (\<lambda>y. map (\<lambda>x. (x, y)) [0..c]) ys))"
    if "sorted_wrt (<) ys" for ys c
    using that by (induction ys) (auto simp: sorted_wrt_append row raster_less_def)
  then show ?thesis unfolding raster_def by (simp add: sorted_wrt_upto)
qed

lemma component_eq: "q \<in> component m p \<Longrightarrow> p \<in> fg m \<Longrightarrow> component m q = component m p"
  unfolding component_def by (rule grid.reach_eq)

lemma component_self [simp]: "p \<in> component m p"
  by (simp add: component_def)

lemma component_nonempty [simp]: "component m p \<noteq> {}"
  using component_self by blast

lemma large_component: "q \<in> component m p \<Longrightarrow> p \<in> large m \<Longrightarrow> q \<in> large m"
  using component_eq component_subset unfolding large_def
  by (metis (mono_tags, lifting) component_self insert_iff mem_Collect_eq singletonD subsetD)

definition taken :: "int mat \<Rightarrow> (int \<times> int) set \<Rightarrow> (int \<times> int) set" where
  "taken m P = (\<Union>p \<in> P \<inter> large m. component m p)"

lemma component_after:
  assumes "p \<in> fg m - taken m P"
  shows "component (clear (taken m P) m) p = component m p"
proof -
  have "b \<in> taken m P" if "a \<in> taken m P" "adj8 a b" "b \<in> fg m" for a b
    using that unfolding taken_def component_def by (auto intro: grid.reach_step)
  with assms show ?thesis unfolding component_def by (simp add: grid.reach_remove)
qed

lemma group_pixel_step:
  assumes split: "raster m = pre @ p # suf"
  shows "group_pixel cv p (clear (taken m (set pre)) m, segs) =
    (clear (taken m (set (pre @ [p]))) m, segs @ (if leader m p then [component_rect cv m p] else []))"
proof -
  obtain x y where p: "p = (x, y)" by (cases p)
  let ?S = "taken m (set pre)"
  have range: "p \<in> set (raster m)" by (simp add: split)
  have before: "q \<in> set pre" if "raster_less q p" "q \<in> fg m" for q
  proof -
    have "q \<in> set pre \<union> {p} \<union> set suf" using that(2) fg_raster [of m] by (auto simp: split)
    moreover have "q \<noteq> p" using that(1) by (auto simp: raster_less_def)
    moreover have "q \<notin> set suf"
    proof
      assume "q \<in> set suf"
      then have "raster_less p q" using sorted_raster [of m] unfolding split by (simp add: sorted_wrt_append)
      with that(1) show False by (auto simp: raster_less_def)
    qed
    ultimately show ?thesis by blast
  qed
  have after: "raster_less q p" if "q \<in> set pre" for q
    using that sorted_raster [of m] unfolding split by (auto simp: sorted_wrt_append)
  have grow: "taken m (set (pre @ [p])) = (if p \<in> large m then component m p else {}) \<union> ?S"
    by (auto simp: taken_def)
  consider (out) "p \<notin> fg m" | (old) "p \<in> ?S" | (new) "p \<in> fg m - ?S" by blast
  then show ?thesis
  proof cases
    case out
    then have "pix m y x \<le> 1" using range by (auto simp: p set_raster fg_def)
    then have "group_pixel cv p (clear ?S m, segs) = (clear ?S m, segs)" by (simp add: group_pixel_def p)
    then show ?thesis unfolding grow using out by (simp add: large_def leader_def)
  next
    case old
    then obtain q where q: "q \<in> set pre" "q \<in> large m" "p \<in> component m q" by (auto simp: taken_def)
    then have "component m p = component m q" using component_eq by (auto simp: large_def)
    then have "q \<in> component m p" and "component m p \<subseteq> ?S" using q by (auto simp: taken_def)
    moreover have "group_pixel cv p (clear ?S m, segs) = (clear ?S m, segs)"
      using old by (simp add: group_pixel_def p)
    ultimately show ?thesis unfolding grow using after [OF q(1)] by (auto simp: leader_def Un_absorb1)
  next
    case new
    then have "1 < pix (clear ?S m) y x" by (auto simp: p fg_def)
    then have step: "group_pixel cv p (clear ?S m, segs) = (let (r, m') = bfs cv (clear ?S m) x y
        in (m', case r of Some rect \<Rightarrow> segs @ [rect] | None \<Rightarrow> segs))"
      by (simp add: group_pixel_def p)
    have comp: "component (clear ?S m) (x, y) = component m p" using component_after [OF new] by (simp add: p)
    have res: "bfs cv (clear ?S m) x y = (if component m p = {p} then (None, clear ?S m)
        else (Some (component_rect cv m p), clear (component m p) (clear ?S m)))"
      using bfs_correct [of x y "clear ?S m" cv] new by (simp add: comp p component_rect_def)
    have "leader m p \<longleftrightarrow> component m p \<noteq> {p}"
    proof
      assume big: "component m p \<noteq> {p}"
      have "\<not> raster_less q p" if q: "q \<in> component m p" for q
      proof
        assume "raster_less q p"
        moreover have "q \<in> large m" using large_component [OF q] new big by (auto simp: large_def)
        ultimately have "q \<in> set pre \<inter> large m" using before by (auto simp: large_def)
        moreover have "p \<in> component m q" using component_eq [OF q] new by simp
        ultimately show False using new by (auto simp: taken_def)
      qed
      with new big show "leader m p" by (simp add: leader_def)
    qed (simp add: leader_def)
    with step res new show ?thesis unfolding grow by (auto simp: large_def)
  qed
qed

lemma group_pixels_correct:
  "group_pixels cv m =
     (clear (taken m (set (raster m))) m, map (component_rect cv m) (filter (leader m) (raster m)))"
proof -
  have "fold (group_pixel cv) pre (m, []) =
      (clear (taken m (set pre)) m, map (component_rect cv m) (filter (leader m) pre))"
    if "raster m = pre @ suf" for pre suf
    using that
  proof (induction pre arbitrary: suf rule: rev_induct)
    case Nil
    show ?case by (simp add: taken_def)
  next
    case (snoc p pre)
    then have "raster m = pre @ p # suf" by simp
    from group_pixel_step [OF this] snoc.IH [OF this] show ?case by simp
  qed
  from this [of "raster m" "[]"] show ?thesis by (simp add: group_pixels_def)
qed

section \<open>The contour loop ends\<close>

text \<open>
  What \<open>cv::findContours\<close> documents of the links between contours of one level: a next contour
  exists and names this one as its previous contour, and contour 0 is the first of its level.
\<close>

definition sibling_links :: "vec4i list \<Rightarrow> bool" where
  "sibling_links h \<longleftrightarrow> h \<noteq> [] \<and> hier_prev (h ! 0) < 0 \<and>
     (\<forall>i < length h. 0 \<le> hier_next (h ! i) \<longrightarrow>
        nat (hier_next (h ! i)) < length h \<and> hier_prev (h ! nat (hier_next (h ! i))) = int i)"

text \<open>\<open>chain h is\<close>: the contours met from contour 0 on, in order.\<close>

definition chain :: "vec4i list \<Rightarrow> nat list \<Rightarrow> bool" where
  "chain h is \<longleftrightarrow> (\<forall>k < length is. is ! k < length h \<and>
     (if k = 0 then is ! 0 = 0 else int (is ! k) = hier_next (h ! (is ! (k - 1)))))"

text \<open>Drawing a list of contours with consecutive labels; it stops at the first exception.\<close>

fun draw_seq :: "opencv \<Rightarrow> contour list \<Rightarrow> vec4i list \<Rightarrow> nat list \<Rightarrow> int \<Rightarrow> int mat \<Rightarrow> halt + int mat" where
  "draw_seq cv contours h [] labels m = Inr m"
| "draw_seq cv contours h (i # is) labels m =
     (case cv_drawContours cv m contours (int i) (labels + 1) h of
        Inl e \<Rightarrow> Inl (Uncaught e)
      | Inr m' \<Rightarrow> draw_seq cv contours h is (labels + 1) m')"

lemma sibling_linksD:
  assumes "sibling_links h" and "i < length h" and "hier_next (h ! i) = int j"
  shows "j < length h" and "hier_prev (h ! j) = int i"
proof -
  from assms(1,2) have "0 \<le> hier_next (h ! i) \<longrightarrow>
      nat (hier_next (h ! i)) < length h \<and> hier_prev (h ! nat (hier_next (h ! i))) = int i"
    unfolding sibling_links_def by blast
  then show "j < length h" and "hier_prev (h ! j) = int i" by (simp_all add: assms(3))
qed

lemma chain_fresh:
  assumes links: "sibling_links h" and c: "chain h is" and d: "distinct is" and ne: "is \<noteq> []"
    and nxt: "0 \<le> hier_next (h ! last is)"
  shows "nat (hier_next (h ! last is)) < length h" and "nat (hier_next (h ! last is)) \<notin> set is"
proof -
  let ?j = "nat (hier_next (h ! last is))" and ?n = "length is"
  have l: "last is = is ! (?n - 1)" "?n - 1 < ?n" using ne by (simp_all add: last_conv_nth)
  then have "last is < length h" using c by (simp add: chain_def)
  with links nxt show "?j < length h" by (simp add: sibling_links_def)
  have prev: "hier_prev (h ! ?j) = int (last is)"
    using links nxt \<open>last is < length h\<close> by (simp add: sibling_links_def)
  show "?j \<notin> set is"
  proof
    assume "?j \<in> set is"
    then obtain k where k: "k < ?n" "is ! k = ?j" by (auto simp: in_set_conv_nth)
    show False
    proof (cases "k = 0")
      case True
      with k c have "?j = 0" by (auto simp: chain_def)
      with prev links show False by (simp add: sibling_links_def)
    next
      case False
      with k c have "int ?j = hier_next (h ! (is ! (k - 1)))" "is ! (k - 1) < length h"
        by (auto simp: chain_def)
      then have "hier_prev (h ! ?j) = int (is ! (k - 1))" using sibling_linksD(2) [OF links] by metis
      with prev l have "is ! (k - 1) = is ! (?n - 1)" by simp
      with d k l(2) False show False by (simp add: nth_eq_iff_index_eq)
    qed
  qed
qed

lemma chain_snoc:
  assumes "chain h is" and "is \<noteq> []" and "0 \<le> hier_next (h ! last is)" and "nat (hier_next (h ! last is)) < length h"
  shows "chain h (is @ [nat (hier_next (h ! last is))])"
  using assms by (auto simp: chain_def nth_append last_conv_nth less_Suc_eq)

lemma chain_range: "chain h is \<Longrightarrow> set is \<subseteq> {..<length h}"
  unfolding chain_def by (metis in_set_conv_nth lessThan_iff subsetI)

lemma label_loop_follows:
  assumes links: "sibling_links h"
  shows "chain h is \<Longrightarrow> distinct is \<Longrightarrow> is \<noteq> [] \<Longrightarrow>
    \<exists>js. distinct (is @ js) \<and> chain h (is @ js) \<and> hier_next (h ! last (is @ js)) < 0 \<and>
      (\<forall>l m. label_loop cv cs h (hier_next (h ! last is)) l m = Some (draw_seq cv cs h js l m))"
proof (induction "length h - length is" arbitrary: "is" rule: less_induct)
  case less
  let ?i = "hier_next (h ! last is)"
  show ?case
  proof (cases "?i < 0")
    case True
    with less.prems show ?thesis by (intro exI [of _ "[]"]) (simp add: label_loop.simps)
  next
    case False
    then have i: "0 \<le> ?i" by simp
    note fresh = chain_fresh [OF links less.prems i]
    let ?is = "is @ [nat ?i]"
    have ch: "chain h ?is" using chain_snoc [OF less.prems(1,3) i fresh(1)] .
    have di: "distinct ?is" using fresh(2) less.prems(2) by simp
    have "length ?is \<le> length h"
      using chain_range [OF ch] di by (metis card_lessThan card_mono distinct_card finite_lessThan)
    then have smaller: "length h - length ?is < length h - length is" by simp
    from less.hyps [OF smaller ch di]
    obtain js where js: "distinct (?is @ js)" "chain h (?is @ js)" "hier_next (h ! last (?is @ js)) < 0"
      and rest: "\<And>l m. label_loop cv cs h (hier_next (h ! nat ?i)) l m = Some (draw_seq cv cs h js l m)"
      by auto
    have "label_loop cv cs h ?i l m = Some (draw_seq cv cs h (nat ?i # js) l m)" for l m
      using i fresh(1) rest by (subst label_loop.simps) (simp split: sum.split)
    with js show ?thesis by (intro exI [of _ "nat ?i # js"]) simp
  qed
qed

lemma label_loop_returns:
  assumes links: "sibling_links h"
  shows "\<exists>js. distinct js \<and> js \<noteq> [] \<and> chain h js \<and> hier_next (h ! last js) < 0 \<and>
    (\<forall>l m. label_loop cv cs h 0 l m = Some (draw_seq cv cs h js l m))"
proof -
  have h: "0 < length h" using links by (simp add: sibling_links_def)
  then have "chain h [0]" by (simp add: chain_def)
  from label_loop_follows [OF links this, of cv cs]
  obtain js where js: "distinct ([0] @ js)" "chain h ([0] @ js)" "hier_next (h ! last ([0] @ js)) < 0"
    and rest: "\<And>l m. label_loop cv cs h (hier_next (h ! 0)) l m = Some (draw_seq cv cs h js l m)"
    by auto
  have "label_loop cv cs h 0 l m = Some (draw_seq cv cs h (0 # js) l m)" for l m
    using h rest by (subst label_loop.simps) (simp split: sum.split)
  with js show ?thesis by (intro exI [of _ "0 # js"]) simp
qed

section \<open>Properties of the segmentation\<close>

text \<open>
  C14. The breadth-first search from a labelled pixel: it always ends; for an isolated pixel it
  gives no rectangle and changes nothing; otherwise it gives the rectangle spanned by the corners
  of the pixel's 8-connected component and clears exactly that component.
\<close>

theorem bfs_collects_component:
  assumes "(x, y) \<in> fg m"
  shows "bfs cv m x y = (if component m (x, y) = {(x, y)} then (None, m)
    else (Some (cv_Rect cv (min_corner (component m (x, y))) (max_corner (component m (x, y)))),
          clear (component m (x, y)) m))"
  using assms by (rule bfs_correct)

text \<open>
  C4. Grouping gives, in raster order of their first pixels, the rectangles of the 8-connected
  components of labelled pixels that have more than one pixel, each component once, and clears
  those components from the label matrix.
\<close>

theorem grouping_by_component:
  "group_pixels cv m =
     (clear (\<Union>p \<in> {p \<in> fg m. component m p \<noteq> {p}}. component m p) m,
      map (component_rect cv m) (filter (leader m) (raster m)))"
proof -
  have "set (raster m) \<inter> large m = large m" using fg_raster by (auto simp: large_def)
  then show ?thesis by (simp add: group_pixels_correct taken_def) (simp add: large_def)
qed

lemma leader_exists:
  assumes "p \<in> large m"
  shows "\<exists>q. leader m q \<and> component m q = component m p"
proof -
  have fin: "finite (component m p)" and ne: "component m p \<noteq> {}"
    using assms finite_component component_self by (auto simp: large_def)
  obtain q where q: "q \<in> component m p" "\<forall>r \<in> component m p. r \<noteq> q \<longrightarrow> \<not> raster_less r q"
    using Finite_Set.bex_min_element [OF fin _ _ ne, of raster_less]
    by (auto simp: asymp_on_def transp_on_def raster_less_def)
  have same: "component m q = component m p" using component_eq [OF q(1)] assms by (simp add: large_def)
  moreover have "q \<in> large m" using large_component [OF q(1) assms] .
  ultimately have "leader m q" using q(2) by (auto simp: leader_def large_def raster_less_def)
  with same show ?thesis by blast
qed

lemma leader_unique: "leader m p \<Longrightarrow> leader m q \<Longrightarrow> component m p = component m q \<Longrightarrow> p = q"
  using component_self unfolding leader_def raster_less_def by (metis linorder_neqE prod_eq_iff)

text \<open>
  The number of rectangles is the number of 8-connected components with more than one pixel.
\<close>

lemma grouping_counts_components:
  "length (snd (group_pixels cv m)) = card (component m ` {p \<in> fg m. component m p \<noteq> {p}})"
proof -
  let ?L = "filter (leader m) (raster m)"
  have "sorted_wrt raster_less ps \<Longrightarrow> distinct ps" for ps
    by (induction ps) (auto simp: raster_less_def)
  then have "distinct (raster m)" using sorted_raster .
  then have "length ?L = card (set ?L)" by (metis distinct_card distinct_filter)
  also have "set ?L = {p. leader m p}" using fg_raster by (auto simp: leader_def)
  also have "card {p. leader m p} = card (component m ` {p. leader m p})"
    by (rule card_image [symmetric]) (auto simp: inj_on_def leader_unique)
  also have "component m ` {p. leader m p} = component m ` large m"
  proof
    show "component m ` {p. leader m p} \<subseteq> component m ` large m"
      by (rule image_mono) (auto simp: leader_def large_def)
    show "component m ` large m \<subseteq> component m ` {p. leader m p}"
      using leader_exists by (metis (mono_tags, lifting) image_subsetI mem_Collect_eq imageI)
  qed
  finally show ?thesis by (simp add: group_pixels_correct large_def)
qed

text \<open>
  C34. The contour loop ends, for links as \<open>cv::findContours\<close> documents them: it draws every
  contour it meets exactly once, from contour 0 to the last contour of the level, with the labels
  1, 2, 3 and so on, and never reads outside the hierarchy.
\<close>

theorem contour_loop_ends:
  assumes "sibling_links hierarchy"
  shows "\<exists>drawn. distinct drawn \<and> drawn \<noteq> [] \<and> chain hierarchy drawn \<and>
    hier_next (hierarchy ! last drawn) < 0 \<and>
    label_loop cv contours hierarchy 0 0 markers = Some (draw_seq cv contours hierarchy drawn 0 markers)"
  using label_loop_returns [OF assms] by blast

text \<open>
  What OpenCV documents of \<open>cv::Rect\<close> built from an upper left and a lower right corner: the
  second corner is outside the rectangle.
\<close>

definition rect_law :: "opencv \<Rightarrow> bool" where
  "rect_law cv \<longleftrightarrow> (\<forall>p q. px p \<le> px q \<longrightarrow> py p \<le> py q \<longrightarrow>
     cv_Rect cv p q = \<lparr>rx = px p, ry = py p, rwidth = px q - px p, rheight = py q - py p\<rparr>)"

lemma component_rect_eq:
  assumes "rect_law cv" and "p \<in> fg m"
  shows "component_rect cv m p = \<lparr>rx = Min (fst ` component m p), ry = Min (snd ` component m p),
    rwidth = Max (fst ` component m p) - Min (fst ` component m p),
    rheight = Max (snd ` component m p) - Min (snd ` component m p)\<rparr>"
proof -
  have fin: "finite (component m p)" using assms(2) by (rule finite_component)
  have "Min (f ` component m p) \<le> Max (f ` component m p)" for f :: "int \<times> int \<Rightarrow> int"
    using fin component_self [of p m] by (meson Max_ge Min_le finite_imageI imageI order_trans)
  with assms(1) show ?thesis
    by (simp add: component_rect_def rect_law_def min_corner_def max_corner_def)
qed

lemma component_range:
  assumes "p \<in> fg m" and "q \<in> component m p"
  shows "0 \<le> fst q" "fst q < cols m" "0 \<le> snd q" "snd q < rows m"
  using component_subset [OF assms(1)] assms(2) by (auto simp: fg_def)

lemma component_rect_in:
  assumes "rect_law cv" and "p \<in> fg m"
  shows "rect_in (component_rect cv m p) m"
proof -
  let ?C = "component m p"
  have fin: "finite ?C" and ne: "?C \<noteq> {}" using assms(2) by (simp_all add: finite_component)
  have "Min (fst ` ?C) \<in> fst ` ?C" "Max (fst ` ?C) \<in> fst ` ?C"
    "Min (snd ` ?C) \<in> snd ` ?C" "Max (snd ` ?C) \<in> snd ` ?C"
    using fin ne by simp_all
  moreover have "Min (fst ` ?C) \<le> Max (fst ` ?C)" "Min (snd ` ?C) \<le> Max (snd ` ?C)"
    using calculation fin by simp_all
  ultimately show ?thesis
    using component_range [OF assms(2)] by (force simp: rect_in_def component_rect_eq [OF assms])
qed

lemma group_pixels_leaders:
  "r \<in> set (snd (group_pixels cv m)) \<longleftrightarrow> (\<exists>p. leader m p \<and> r = component_rect cv m p)"
proof -
  have "leader m p \<Longrightarrow> p \<in> set (raster m)" for p using fg_raster unfolding leader_def by blast
  then show ?thesis unfolding group_pixels_correct by auto
qed

lemma group_pixels_rect_in:
  assumes "rect_law cv" and "r \<in> set (snd (group_pixels cv m))"
  shows "rect_in r m"
  using assms component_rect_in by (auto simp: group_pixels_leaders leader_def)

text \<open>
  C39. Every segment lies inside the label matrix, and it does not cover the whole of its
  component: the pixels of the component with the greatest column, and those with the greatest
  row, are outside it.
\<close>

theorem segment_misses_last_row_and_column:
  assumes "rect_law cv" and "r \<in> set (snd (group_pixels cv m))"
  shows "rect_in r m \<and> (\<exists>p \<in> fg m. r = component_rect cv m p \<and>
    (\<forall>q \<in> component m p. in_rect r (snd q) (fst q) \<longleftrightarrow>
       fst q < Max (fst ` component m p) \<and> snd q < Max (snd ` component m p)) \<and>
    (\<exists>q \<in> component m p. \<not> in_rect r (snd q) (fst q)))"
proof -
  from assms(2) obtain p where p: "p \<in> fg m" and r: "r = component_rect cv m p"
    by (auto simp: group_pixels_leaders leader_def)
  have fin: "finite (component m p)" using p by (rule finite_component)
  have iff: "in_rect r (snd q) (fst q) \<longleftrightarrow>
      fst q < Max (fst ` component m p) \<and> snd q < Max (snd ` component m p)" if "q \<in> component m p" for q
    using that fin by (auto simp: r component_rect_eq [OF assms(1) p] in_rect_def)
  have "Max (fst ` component m p) \<in> fst ` component m p"
    using fin by (intro Max_in) simp_all
  then obtain q where "q \<in> component m p" "fst q = Max (fst ` component m p)" by auto
  then have "\<not> in_rect r (snd q) (fst q)" using iff [of q] by simp
  with \<open>q \<in> component m p\<close> have "\<exists>q \<in> component m p. \<not> in_rect r (snd q) (fst q)" ..
  with p r iff group_pixels_rect_in [OF assms] show ?thesis by blast
qed

section \<open>Examples\<close>

text \<open>One row of three pixels; the first two carry a label.\<close>

definition sample_markers :: "int mat" where
  "sample_markers = \<lparr>rows = 1, cols = 3, pix = (\<lambda>y x. if x < 2 then 2 else 1)\<rparr>"

theorem bfs_collects_component_witness:
  "(0, 0) \<in> fg sample_markers \<and> fst (bfs sample_cv sample_markers 0 0) \<noteq> None \<and>
   component sample_markers (0, 0) \<noteq> {(0, 0)}"
proof -
  have fg: "(0, 0) \<in> fg sample_markers" by (simp add: fg_def sample_markers_def)
  moreover have "fst (bfs sample_cv sample_markers 0 0) \<noteq> None" by code_simp
  ultimately show ?thesis using bfs_collects_component [OF fg, of sample_cv] by auto
qed

theorem contour_loop_ends_witness:
  "\<exists>r. label_loop sample_cv [[], []] [(1, - 1, - 1, - 1), (- 1, 0, - 1, - 1)] 0 0 (mat_const 1 1 0) = Some r"
proof -
  have "sibling_links [(1, - 1, - 1, - 1), (- 1, 0, - 1, - 1)]"
    by (simp add: sibling_links_def hier_next_def hier_prev_def less_Suc_eq)
  from contour_loop_ends [OF this] show ?thesis by blast
qed

lemma rect_law_sample: "rect_law sample_cv"
  by (simp add: rect_law_def sample_cv_def)

lemma group_pixel_eval:
  "pix m y x \<le> 1 \<Longrightarrow> group_pixel cv (x, y) (m, segs) = (m, segs)"
  "1 < pix m y x \<Longrightarrow> group_pixel cv (x, y) (m, segs) = (snd (bfs cv m x y),
     case fst (bfs cv m x y) of Some r \<Rightarrow> segs @ [r] | None \<Rightarrow> segs)"
  by (simp_all add: group_pixel_def split: prod.split)

lemma sample_bfs:
  "fst (bfs sample_cv sample_markers 0 0) = Some \<lparr>rx = 0, ry = 0, rwidth = 1, rheight = 0\<rparr>"
  "pix (snd (bfs sample_cv sample_markers 0 0)) 0 1 = 0"
  "pix (snd (bfs sample_cv sample_markers 0 0)) 0 2 = 1"
  by code_simp+

lemma sample_segments:
  "snd (group_pixels sample_cv sample_markers) = [\<lparr>rx = 0, ry = 0, rwidth = 1, rheight = 0\<rparr>]"
proof -
  have "raster sample_markers = [(0, 0), (1, 0), (2, 0)]" by code_simp
  moreover have "1 < pix sample_markers 0 0" by (simp add: sample_markers_def)
  ultimately show ?thesis by (simp add: group_pixels_def group_pixel_eval sample_bfs)
qed

theorem segment_misses_last_row_and_column_witness:
  "\<exists>r. snd (group_pixels sample_cv sample_markers) = [r] \<and> rect_in r sample_markers \<and> rheight r = 0"
proof -
  have "\<lparr>rx = 0, ry = 0, rwidth = 1, rheight = 0\<rparr> \<in> set (snd (group_pixels sample_cv sample_markers))"
    by (simp add: sample_segments)
  from segment_misses_last_row_and_column [OF rect_law_sample this] show ?thesis
    by (simp add: sample_segments)
qed

end
