(* ===== verification/Detect.thy ===== *)
theory Detect
  imports Segments
begin

text \<open>
  \<open>detect_segments\<close> and \<open>save_segments\<close> of \<open>image.cc\<close>. The list of segments that a call of
  \<open>do_detect\<close> fills is handed over by reference: the model passes how to read it from the state
  and how to update it, and the interface \<open>segment_store\<close> states what such a reference promises.
\<close>

section \<open>The operations\<close>

definition compute_descriptor :: "opencv \<Rightarrow> u8 mat \<Rightarrow> ('s, rat mat option) prog" where
  "compute_descriptor cv img =
     (if mat_empty img then ret None
      else
        bnd (call (cv_akaze_detect cv img)) (\<lambda>keypoint.
        if keypoint = [] then ret None
        else
          bnd (call (cv_akaze_compute cv img keypoint)) (\<lambda>descriptor.
          bnd (call (cv_convert_32F cv descriptor)) (\<lambda>descriptor.
          ret (Some descriptor)))))"

text \<open>One iteration of the loop over the rectangles, and one of the loop over the segments.\<close>

definition emplace_segment ::
  "opencv \<Rightarrow> u8 mat \<Rightarrow> ((image_segment list \<Rightarrow> image_segment list) \<Rightarrow> state \<Rightarrow> state) \<Rightarrow> rect \<Rightarrow> unit act"
where
  "emplace_segment cv gray_mat upd_result segment =
     bnd (call (cv_roi cv gray_mat segment)) (\<lambda>roi.
     upd (upd_result (\<lambda>result. result @ [image_segment_of segment roi])))"

definition describe_segment ::
  "opencv \<Rightarrow> (state \<Rightarrow> image_segment list) \<Rightarrow>
   ((image_segment list \<Rightarrow> image_segment list) \<Rightarrow> state \<Rightarrow> state) \<Rightarrow> nat \<Rightarrow> unit act"
where
  "describe_segment cv result upd_result i =
     bnd (ask (\<lambda>s. seg_roi (result s ! i))) (\<lambda>roi.
     bnd (compute_descriptor cv roi) (\<lambda>desc. case desc of
       None \<Rightarrow> ret ()
     | Some d \<Rightarrow> upd (upd_result (\<lambda>segs. segs[i := (segs ! i)\<lparr>seg_descriptor := d\<rparr>]))))"

definition do_detect ::
  "opencv \<Rightarrow> os \<Rightarrow> nat \<Rightarrow> u8 mat \<Rightarrow> bgr mat \<Rightarrow> (state \<Rightarrow> image_segment list) \<Rightarrow>
   ((image_segment list \<Rightarrow> image_segment list) \<Rightarrow> state \<Rightarrow> state) \<Rightarrow> unit act"
where
  "do_detect cv os t gray_mat color_mat result upd_result =
     with_timer os ''do detect'' (Some t) (\<lambda>t2.
     bnd (ask (\<lambda>s. bin_threshold (arg s))) (\<lambda>threshold.
     bnd (split_segments cv os gray_mat color_mat threshold) (\<lambda>rects.
     bnd (for_each rects (emplace_segment cv gray_mat upd_result)) (\<lambda>_.
     with_timer os ''compute descriptors'' (Some t2) (\<lambda>_.
     bnd (ask (\<lambda>s. length (result s))) (\<lambda>n.
     for_each [0..<n] (describe_segment cv result upd_result)))))))"

definition detect_segments :: "opencv \<Rightarrow> os \<Rightarrow> unit act" where
  "detect_segments cv os = with_timer os ''detect segments'' None (\<lambda>t.
     bnd (ask (\<lambda>s. (old_gray_mat s, old_color_mat s))) (\<lambda>(old_gray, old_color).
     bnd (do_detect cv os t old_gray old_color old_segments old_segments_update) (\<lambda>_.
     bnd (ask (\<lambda>s. (new_gray_mat s, new_color_mat s))) (\<lambda>(new_gray, new_color).
     do_detect cv os t new_gray new_color new_segments new_segments_update))))"

definition imwrite :: "opencv \<Rightarrow> string \<Rightarrow> bgr mat \<Rightarrow> unit act" where
  "imwrite cv file_name m =
     bnd (call (cv_imwrite cv file_name m)) (\<lambda>_.
     upd (\<lambda>s. s\<lparr>w_written := w_written s @ [(file_name, m)]\<rparr>))"

text \<open>\<open>save_segments\<close> is part of the interface; its only call in \<open>main\<close> is commented out.\<close>

definition save_segment :: "opencv \<Rightarrow> string \<Rightarrow> bgr mat \<Rightarrow> nat \<times> image_segment \<Rightarrow> unit act" where
  "save_segment cv prefix base_mat = (\<lambda>(i, image_segment).
     bnd (ask (\<lambda>s. output_name (arg s) @ ''/'' @ prefix @ ''/'' @ to_string (int i) @ ''.png'')) (\<lambda>file_name.
     bnd (call (cv_roi_color cv base_mat (seg_area image_segment))) (\<lambda>cropped.
     imwrite cv file_name cropped)))"

definition do_save :: "opencv \<Rightarrow> string \<Rightarrow> bgr mat \<Rightarrow> image_segment list \<Rightarrow> unit act" where
  "do_save cv prefix base_mat segments =
     for_each (zip [1..<Suc (length segments)] segments) (save_segment cv prefix base_mat)"

definition save_segments :: "opencv \<Rightarrow> unit act" where
  "save_segments cv =
     bnd (ask (\<lambda>s. (old_color_mat s, old_segments s))) (\<lambda>(old_color, old_segs).
     bnd (do_save cv ''old'' old_color old_segs) (\<lambda>_.
     bnd (ask (\<lambda>s. (new_color_mat s, new_segments s))) (\<lambda>(new_color, new_segs).
     do_save cv ''new'' new_color new_segs)))"

section \<open>What detection computes\<close>

text \<open>The specification: outcomes in sequence, without timers and without a state.\<close>

definition then_outcome :: "'a outcome \<Rightarrow> ('a \<Rightarrow> 'b outcome) \<Rightarrow> 'b outcome" where
  "then_outcome r f = (case r of Ret x \<Rightarrow> f x | Halt h \<Rightarrow> Halt h)"

primrec each_outcome :: "('a \<Rightarrow> 'b outcome) \<Rightarrow> 'a list \<Rightarrow> 'b list outcome" where
  "each_outcome f [] = Ret []"
| "each_outcome f (x # xs) = then_outcome (f x) (\<lambda>y. then_outcome (each_outcome f xs) (\<lambda>ys. Ret (y # ys)))"

definition cropped_segment :: "opencv \<Rightarrow> u8 mat \<Rightarrow> rect \<Rightarrow> image_segment outcome" where
  "cropped_segment cv gray_mat r = (case cv_roi cv gray_mat r of
       Inl e \<Rightarrow> Halt (Uncaught e)
     | Inr roi \<Rightarrow> Ret (image_segment_of r roi))"

definition described_segment :: "opencv \<Rightarrow> image_segment \<Rightarrow> image_segment outcome" where
  "described_segment cv seg =
     then_outcome (fst (compute_descriptor cv (seg_roi seg) ())) (\<lambda>desc.
       Ret (case desc of None \<Rightarrow> seg | Some d \<Rightarrow> seg\<lparr>seg_descriptor := d\<rparr>))"

definition detected :: "opencv \<Rightarrow> int \<Rightarrow> u8 mat \<Rightarrow> bgr mat \<Rightarrow> image_segment list outcome" where
  "detected cv threshold gray_mat color_mat =
     then_outcome (segment_rects cv gray_mat color_mat threshold) (\<lambda>rects.
     then_outcome (each_outcome (cropped_segment cv gray_mat) rects) (\<lambda>segs.
     each_outcome (described_segment cv) segs))"

lemma then_outcome_simps [simp]: "then_outcome (Ret x) f = f x" "then_outcome (Halt h) f = Halt h"
  by (simp_all add: then_outcome_def)

lemma then_outcome_Ret: "then_outcome r f = Ret y \<longleftrightarrow> (\<exists>x. r = Ret x \<and> f x = Ret y)"
  by (cases r) simp_all

lemma each_outcome_Ret:
  "each_outcome f xs = Ret ys \<longleftrightarrow> list_all2 (\<lambda>x y. f x = Ret y) xs ys"
  by (induction xs arbitrary: ys) (auto simp: then_outcome_Ret list_all2_Cons1)

lemma each_outcome_mem: "each_outcome f xs = Ret ys \<Longrightarrow> y \<in> set ys \<Longrightarrow> \<exists>x \<in> set xs. f x = Ret y"
  by (induction xs arbitrary: ys) (auto simp: then_outcome_Ret)

lemma each_outcome_all:
  "(\<And>x. x \<in> set xs \<Longrightarrow> f x = Ret (g x)) \<Longrightarrow> each_outcome f xs = Ret (map g xs)"
  by (induction xs) simp_all

lemma compute_descriptor_stateless:
  "compute_descriptor cv img s = (fst (compute_descriptor cv img ()), s)"
  by (auto simp: compute_descriptor_def bnd_def prog_simps split: sum.splits)

lemma compute_descriptor_runs:
  "runs (compute_descriptor cv img) s (fst (compute_descriptor cv img ())) s"
  unfolding runs_def by (auto simp: compute_descriptor_stateless [of cv img "_ :: state"])

text \<open>
  A program without a result whose end is specified by an outcome: when that is a value, the
  program returns in the state the value determines; otherwise the process ends the same way.
\<close>

definition ends :: "unit act \<Rightarrow> state \<Rightarrow> 'b outcome \<Rightarrow> ('b \<Rightarrow> state) \<Rightarrow> bool" where
  "ends p s r f \<longleftrightarrow> (\<forall>s'. same_but_timers s s' \<longrightarrow> (case r of
       Ret y \<Rightarrow> fst (p s') = Ret () \<and> same_but_timers (f y) (snd (p s'))
     | Halt h \<Rightarrow> fst (p s') = Halt h))"

lemma ends_runs: "ends p s (Ret y) f \<longleftrightarrow> runs p s (Ret ()) (f y)"
  by (simp add: ends_def runs_def)

lemma ends_Halt: "ends p s (Halt h) f \<Longrightarrow> fst (p s) = Halt h"
  by (simp add: ends_def)

lemma ends_bnd:
  assumes "ends p s r f" and "\<And>y. r = Ret y \<Longrightarrow> ends q (f y) (g y) h"
  shows "ends (bnd p (\<lambda>_. q)) s (then_outcome r g) h"
proof (cases r)
  case (Ret y)
  with assms(2) have "ends q (f y) (g y) h" by blast
  with assms(1) Ret show ?thesis by (cases "g y") (simp_all add: ends_def outcome_bnd)
qed (use assms(1) in \<open>simp add: ends_def outcome_bnd\<close>)

lemma ends_after:
  assumes "runs p s r s1" and "\<And>x. r = Ret x \<Longrightarrow> ends (f x) s1 (g x) h"
  shows "ends (bnd p f) s (then_outcome r g) h"
proof (cases r)
  case (Ret x)
  with assms(2) have "ends (f x) s1 (g x) h" by blast
  with assms(1) Ret show ?thesis by (cases "g x") (simp_all add: ends_def runs_def outcome_bnd)
qed (use assms(1) in \<open>simp add: ends_def runs_def outcome_bnd\<close>)

lemma ends_ask:
  assumes "ends (g (f s)) s r h" and "\<And>c tr. f (s\<lparr>w_clock := c, timer_records := tr\<rparr>) = f s"
  shows "ends (bnd (ask f) g) s r h"
  using ends_after [OF runs_ask [OF assms(2)], of g "\<lambda>_. r" h] assms(1) by simp

lemma ends_with_timer:
  assumes "\<And>k. ends (body k) s r f"
  shows "ends (with_timer os name parent body) s r f"
  unfolding ends_def
proof (intro allI impI)
  fix s' assume ss: "same_but_timers s s'"
  obtain s1 where new: "timer_new os name parent s' = (length (timer_records s'), s1)"
    by (metis timer_new_frame)
  then have "same_but_timers s s1"
    using ss same_but_timers_new same_but_timers_trans by (metis snd_conv)
  with assms [of "length (timer_records s')"]
  have body: "case r of Ret y \<Rightarrow> fst (body (length (timer_records s')) s1) = Ret () \<and>
        same_but_timers (f y) (snd (body (length (timer_records s')) s1))
      | Halt h \<Rightarrow> fst (body (length (timer_records s')) s1) = Halt h"
    by (simp add: ends_def)
  show "case r of
      Ret y \<Rightarrow> fst (with_timer os name parent body s') = Ret () \<and>
        same_but_timers (f y) (snd (with_timer os name parent body s'))
    | Halt h \<Rightarrow> fst (with_timer os name parent body s') = Halt h"
    using body same_but_timers_stop same_but_timers_trans
    by (cases r) (auto simp: with_timer_body [OF new] split: prod.splits outcome.splits)
qed

section \<open>References to a list of segments\<close>

text \<open>
  The contract of a reference: reading returns what was written, writing twice is writing once,
  only what was read decides what is written, and neither depends on the timers or changes the
  options.
\<close>

locale segment_store =
  fixes res :: "state \<Rightarrow> image_segment list"
    and upd_res :: "(image_segment list \<Rightarrow> image_segment list) \<Rightarrow> state \<Rightarrow> state"
  assumes res_upd: "res (upd_res f s) = f (res s)"
    and upd_upd: "upd_res f (upd_res g s) = upd_res (\<lambda>segs. f (g segs)) s"
    and upd_cong: "f (res s) = g (res s) \<Longrightarrow> upd_res f s = upd_res g s"
    and upd_id: "upd_res (\<lambda>segs. segs) s = s"
    and res_timers: "res (s\<lparr>w_clock := c, timer_records := r\<rparr>) = res s"
    and upd_timers: "upd_res f (s\<lparr>w_clock := c, timer_records := r\<rparr>) =
      (upd_res f s)\<lparr>w_clock := c, timer_records := r\<rparr>"
begin

lemma upd_runs: "runs (upd (upd_res f)) s (Ret ()) (upd_res f s)"
  by (rule runs_upd) (rule upd_timers)

lemma emplace_ends:
  "ends (emplace_segment cv gray_mat upd_res r) s (cropped_segment cv gray_mat r)
     (\<lambda>seg. upd_res (\<lambda>segs. segs @ [seg]) s)"
proof (cases "cv_roi cv gray_mat r")
  case (Inl e)
  then show ?thesis by (simp add: emplace_segment_def cropped_segment_def ends_def prog_simps)
next
  case (Inr roi)
  then show ?thesis by (simp add: emplace_segment_def cropped_segment_def ends_runs upd_runs)
qed

lemma emplace_all:
  "ends (for_each rects (emplace_segment cv gray_mat upd_res)) s
     (each_outcome (cropped_segment cv gray_mat) rects) (\<lambda>new. upd_res (\<lambda>segs. segs @ new) s)"
proof (induction rects arbitrary: s)
  case Nil
  show ?case by (simp add: ends_runs runs_ret upd_id)
next
  case (Cons r rects)
  show ?case unfolding for_each.simps each_outcome.simps
  proof (rule ends_bnd [OF emplace_ends])
    fix seg
    show "ends (for_each rects (emplace_segment cv gray_mat upd_res)) (upd_res (\<lambda>segs. segs @ [seg]) s)
        (then_outcome (each_outcome (cropped_segment cv gray_mat) rects) (\<lambda>ys. Ret (seg # ys)))
        (\<lambda>new. upd_res (\<lambda>segs. segs @ new) s)"
      using Cons [of "upd_res (\<lambda>segs. segs @ [seg]) s"]
      by (cases "each_outcome (cropped_segment cv gray_mat) rects") (simp_all add: ends_def upd_upd)
  qed
qed

lemma describe_ends:
  assumes "res s = front @ seg # rest"
  shows "ends (describe_segment cv res upd_res (length front)) s (described_segment cv seg)
    (\<lambda>seg'. upd_res (\<lambda>_. front @ seg' # rest) s)"
proof -
  have "runs (ask (\<lambda>s. seg_roi (res s ! length front))) s (Ret (seg_roi seg)) s"
    using runs_ask [of "\<lambda>s. seg_roi (res s ! length front)" s] assms by (simp add: res_timers)
  moreover have "ends (case desc of None \<Rightarrow> ret ()
      | Some d \<Rightarrow> upd (upd_res (\<lambda>segs. segs[length front := (segs ! length front)\<lparr>seg_descriptor := d\<rparr>]))) s
      (Ret (case desc of None \<Rightarrow> seg | Some d \<Rightarrow> seg\<lparr>seg_descriptor := d\<rparr>))
      (\<lambda>seg'. upd_res (\<lambda>_. front @ seg' # rest) s)" for desc
  proof (cases desc)
    case None
    have "upd_res (\<lambda>_. front @ seg # rest) s = s"
      using upd_cong [of "\<lambda>_. front @ seg # rest" s "\<lambda>segs. segs"] assms by (simp add: upd_id)
    with None show ?thesis by (simp add: ends_runs runs_ret)
  next
    case (Some d)
    let ?f = "\<lambda>segs. segs[length front := (segs ! length front)\<lparr>seg_descriptor := d\<rparr>]"
    have "upd_res ?f s = upd_res (\<lambda>_. front @ seg\<lparr>seg_descriptor := d\<rparr> # rest) s"
      by (rule upd_cong) (simp add: assms)
    with Some upd_runs [of ?f s] show ?thesis by (simp add: ends_runs)
  qed
  ultimately show ?thesis
    unfolding describe_segment_def described_segment_def
    using ends_after [OF _ ends_after [OF compute_descriptor_runs]] by fastforce
qed

lemma describe_all:
  assumes "res s = front @ todo"
  shows "ends (for_each [length front..<length front + length todo] (describe_segment cv res upd_res)) s
    (each_outcome (described_segment cv) todo) (\<lambda>segs. upd_res (\<lambda>_. front @ segs) s)"
  using assms
proof (induction todo arbitrary: s front)
  case Nil
  then have "upd_res (\<lambda>_. front) s = s"
    using upd_cong [of "\<lambda>_. front" s "\<lambda>segs. segs"] by (simp add: upd_id)
  then show ?case by (simp add: ends_runs runs_ret)
next
  case (Cons seg todo)
  have range: "[length front..<length front + length (seg # todo)] =
      length front # [length (front @ [seg])..<length (front @ [seg]) + length todo]"
    by (subst upt_rec) simp
  show ?case unfolding range for_each.simps each_outcome.simps
  proof (rule ends_bnd [OF describe_ends [OF Cons.prems]])
    fix seg'
    let ?s = "upd_res (\<lambda>_. front @ seg' # todo) s"
    have "ends (for_each [length (front @ [seg'])..<length (front @ [seg']) + length todo]
        (describe_segment cv res upd_res)) ?s (each_outcome (described_segment cv) todo)
        (\<lambda>segs. upd_res (\<lambda>_. (front @ [seg']) @ segs) ?s)"
      by (rule Cons.IH) (simp add: res_upd)
    then show "ends (for_each [length (front @ [seg])..<length (front @ [seg]) + length todo]
        (describe_segment cv res upd_res)) ?s
        (then_outcome (each_outcome (described_segment cv) todo) (\<lambda>ys. Ret (seg' # ys)))
        (\<lambda>segs. upd_res (\<lambda>_. front @ segs) s)"
      by (cases "each_outcome (described_segment cv) todo") (simp_all add: ends_def upd_upd)
  qed
qed

lemma do_detect_ends:
  assumes "res s = []"
  shows "ends (do_detect cv os t gray_mat color_mat res upd_res) s
    (detected cv (bin_threshold (arg s)) gray_mat color_mat) (\<lambda>segs. upd_res (\<lambda>_. segs) s)"
  unfolding do_detect_def detected_def
proof (intro ends_with_timer)
  fix t2
  let ?th = "bin_threshold (arg s)"
  let ?describe = "with_timer os ''compute descriptors'' (Some t2)
      (\<lambda>_. bnd (ask (\<lambda>s. length (res s))) (\<lambda>n. for_each [0..<n] (describe_segment cv res upd_res)))"
  have described: "ends ?describe (upd_res (\<lambda>l. l @ segs) s) (each_outcome (described_segment cv) segs)
      (\<lambda>segs. upd_res (\<lambda>_. segs) s)" for segs
    using describe_all [of "upd_res (\<lambda>l. l @ segs) s" "[]" segs cv]
    by (intro ends_with_timer ends_ask) (simp_all add: res_timers res_upd assms upd_upd)
  show "ends (bnd (ask (\<lambda>s. bin_threshold (arg s)))
      (\<lambda>threshold. bnd (split_segments cv os gray_mat color_mat threshold)
        (\<lambda>rects. bnd (for_each rects (emplace_segment cv gray_mat upd_res)) (\<lambda>_. ?describe)))) s
      (then_outcome (segment_rects cv gray_mat color_mat ?th)
         (\<lambda>rects. then_outcome (each_outcome (cropped_segment cv gray_mat) rects)
           (\<lambda>segs. each_outcome (described_segment cv) segs))) (\<lambda>segs. upd_res (\<lambda>_. segs) s)"
    by (intro ends_ask ends_after [OF computes_runs [OF split_segments_computes]]
        ends_bnd [OF emplace_all] described) simp
qed

end

interpretation old_store: segment_store old_segments old_segments_update
  by unfold_locales simp_all

interpretation new_store: segment_store new_segments new_segments_update
  by unfold_locales simp_all

lemma detect_segments_ends:
  assumes "old_segments s = []" and "new_segments s = []"
  shows "ends (detect_segments cv os) s
    (then_outcome (detected cv (bin_threshold (arg s)) (old_gray_mat s) (old_color_mat s)) (\<lambda>olds.
     then_outcome (detected cv (bin_threshold (arg s)) (new_gray_mat s) (new_color_mat s)) (\<lambda>news.
     Ret (olds, news))))
    (\<lambda>(olds, news). s\<lparr>old_segments := olds, new_segments := news\<rparr>)"
proof -
  let ?th = "bin_threshold (arg s)"
  have "ends (do_detect cv os t (new_gray_mat s) (new_color_mat s) new_segments new_segments_update)
      (s\<lparr>old_segments := olds\<rparr>)
      (then_outcome (detected cv ?th (new_gray_mat s) (new_color_mat s)) (\<lambda>news. Ret (olds, news)))
      (\<lambda>(olds, news). s\<lparr>old_segments := olds, new_segments := news\<rparr>)" for t olds
    using new_store.do_detect_ends [of "s\<lparr>old_segments := olds\<rparr>" cv os t "new_gray_mat s" "new_color_mat s"] assms
    by (cases "detected cv ?th (new_gray_mat s) (new_color_mat s)") (simp_all add: ends_def)
  then have rest: "ends (bnd (ask (\<lambda>s. (new_gray_mat s, new_color_mat s))) (\<lambda>(new_gray, new_color).
        do_detect cv os t new_gray new_color new_segments new_segments_update)) (s\<lparr>old_segments := olds\<rparr>)
      (then_outcome (detected cv ?th (new_gray_mat s) (new_color_mat s)) (\<lambda>news. Ret (olds, news)))
      (\<lambda>(olds, news). s\<lparr>old_segments := olds, new_segments := news\<rparr>)" for t olds
    by (intro ends_ask) simp_all
  have first: "ends (do_detect cv os t (old_gray_mat s) (old_color_mat s) old_segments old_segments_update) s
      (detected cv ?th (old_gray_mat s) (old_color_mat s)) (\<lambda>olds. s\<lparr>old_segments := olds\<rparr>)" for t
    using old_store.do_detect_ends assms(1) .
  show ?thesis unfolding detect_segments_def
    by (intro ends_with_timer ends_ask) (simp_all add: ends_bnd [OF first rest])
qed

section \<open>Sizes and positions\<close>

text \<open>
  What OpenCV documents of the calls that lead to the label matrix: each gives a matrix of the
  size of its input. And of a region of interest: a rectangle inside the matrix gives its part.
\<close>

definition size_laws :: "opencv \<Rightarrow> bool" where
  "size_laws cv \<longleftrightarrow>
     (\<forall>m th v m'. cv_threshold_binary cv m th v = Inr m' \<longrightarrow> same_size m' m) \<and>
     (\<forall>m k p n m'. cv_morph_gradient cv m k p n = Inr m' \<longrightarrow> same_size m' m) \<and>
     (\<forall>m m'. cv_convert_32S cv m = Inr m' \<longrightarrow> same_size m' m) \<and>
     (\<forall>r c. rows (cv_zeros cv r c) = r \<and> cols (cv_zeros cv r c) = c) \<and>
     (\<forall>m cs i l h m'. cv_drawContours cv m cs i l h = Inr m' \<longrightarrow> same_size m' m) \<and>
     (\<forall>m k. same_size (cv_add_scalar cv m k) m) \<and>
     (\<forall>c m m'. cv_watershed cv c m = Inr m' \<longrightarrow> same_size m' m)"

definition roi_law :: "opencv \<Rightarrow> bool" where
  "roi_law cv \<longleftrightarrow> (\<forall>m r. rect_in r m \<longrightarrow> cv_roi cv m r = Inr (sub_mat m r))"

lemma label_loop_size:
  assumes "label_loop cv cs h idx l m = Some r"
  shows "size_laws cv \<longrightarrow> r = Inr m' \<longrightarrow> same_size m' m"
proof (induction rule: label_loop.raw_induct [OF _ assms])
  case (1 f cv cs h idx l m r)
  show ?case
  proof (cases "cv_drawContours cv m cs idx (l + 1) h")
    case (Inr m1)
    then have "size_laws cv \<Longrightarrow> same_size m1 m" by (auto simp: size_laws_def)
    with 1 Inr show ?thesis by (fastforce simp: same_size_def split: if_splits)
  qed (use 1 in \<open>auto simp: same_size_def split: if_splits\<close>)
qed

lemma label_image_size:
  assumes "size_laws cv" and "fst (label_image cv g c th ()) = Ret (Some m)"
  shows "same_size m g"
proof -
  have "label_image cv g c th () = (Ret (Some m), ())" using assms(2) by (simp add: prod_eq_iff)
  then obtain b d e cs h m1 where "cv_threshold_binary cv g th 255 = Inr b"
    and "cv_morph_gradient cv b (cv_rect_kernel cv 3 3) \<lparr>px = - 1, py = - 1\<rparr> 7 = Inr d"
    and "cv_convert_32S cv d = Inr e"
    and m1: "label_loop cv cs h 0 0 (cv_zeros cv (rows e) (cols e)) = Some (Inr m1)"
    and "cv_watershed cv c (cv_add_scalar cv m1 1) = Inr m"
    unfolding label_image_def by (auto elim!: bnd_RetE split: if_splits option.splits)
  with assms(1) have "same_size b g" "same_size d b" "same_size e d"
    "same_size m (cv_add_scalar cv m1 1)" "same_size (cv_add_scalar cv m1 1) m1"
    "rows (cv_zeros cv (rows e) (cols e)) = rows e" "cols (cv_zeros cv (rows e) (cols e)) = cols e"
    by (simp_all add: size_laws_def)
  moreover have "same_size m1 (cv_zeros cv (rows e) (cols e))"
    using label_loop_size [OF m1] assms(1) by simp
  ultimately show ?thesis by (simp add: same_size_def)
qed

lemma rect_in_same_size: "same_size m n \<Longrightarrow> rect_in r m \<longleftrightarrow> rect_in r n"
  by (simp add: same_size_def rect_in_def)

lemma segment_rects_inside:
  assumes "size_laws cv" and "rect_law cv"
    and "segment_rects cv g c th = Ret rects" and "r \<in> set rects"
  shows "rect_in r g"
proof -
  from assms(3,4) obtain m where m: "fst (label_image cv g c th ()) = Ret (Some m)"
    and "r \<in> set (snd (group_pixels cv m))"
    by (auto simp: segment_rects_def split: outcome.splits option.splits)
  with assms(2) have "rect_in r m" by (simp add: group_pixels_rect_in)
  then show ?thesis using label_image_size [OF assms(1) m] rect_in_same_size by blast
qed

lemma crops_inside:
  assumes "size_laws cv" and "rect_law cv" and "roi_law cv" and "segment_rects cv g c th = Ret rects"
  shows "each_outcome (cropped_segment cv g) rects = Ret (map (\<lambda>r. image_segment_of r (sub_mat g r)) rects)"
  using assms segment_rects_inside
  by (intro each_outcome_all) (fastforce simp: cropped_segment_def roi_law_def)

text \<open>What \<open>described_segment\<close> leaves alone: everything but the descriptor.\<close>

lemma described_segment_fields:
  assumes "described_segment cv seg = Ret seg'"
  shows "seg_area seg' = seg_area seg" "seg_roi seg' = seg_roi seg" "seg_matched seg' = seg_matched seg"
  using assms by (auto simp: described_segment_def then_outcome_Ret split: option.splits)

definition placed :: "u8 mat \<Rightarrow> image_segment \<Rightarrow> bool" where
  "placed gray_mat seg \<longleftrightarrow> rect_in (seg_area seg) gray_mat \<and>
     seg_roi seg = sub_mat gray_mat (seg_area seg) \<and> \<not> seg_matched seg"

lemma detected_placed:
  assumes laws: "size_laws cv" "rect_law cv" "roi_law cv"
    and "detected cv th g c = Ret segs" and "seg \<in> set segs"
  shows "placed g seg"
proof -
  from assms(4) obtain rects crops where rects: "segment_rects cv g c th = Ret rects"
    and crops: "each_outcome (cropped_segment cv g) rects = Ret crops"
    and segs: "each_outcome (described_segment cv) crops = Ret segs"
    by (auto simp: detected_def then_outcome_Ret)
  from segs assms(5) obtain crop where crop: "crop \<in> set crops" "described_segment cv crop = Ret seg"
    by (auto dest: each_outcome_mem)
  from crop(1) crops_inside [OF laws rects] crops
  obtain r where "r \<in> set rects" "crop = image_segment_of r (sub_mat g r)" by auto
  with segment_rects_inside [OF laws(1,2) rects] described_segment_fields [OF crop(2)] show ?thesis
    by (simp add: placed_def image_segment_of_def)
qed

section \<open>Properties of the detection\<close>

text \<open>
  C7. \<open>detect_segments\<close> implements its specification: it detects the segments of the old image and
  then those of the new one with the threshold of the command line, ends the process exactly when
  one of the two detections does, and otherwise leaves their results in the context and changes
  nothing else but the timers.
\<close>

theorem detect_segments_refines:
  fixes cv :: opencv and os :: os and s :: state
  assumes "old_segments s = []" and "new_segments s = []"
  defines "old \<equiv> detected cv (bin_threshold (arg s)) (old_gray_mat s) (old_color_mat s)"
    and "new \<equiv> detected cv (bin_threshold (arg s)) (new_gray_mat s) (new_color_mat s)"
  shows "case then_outcome old (\<lambda>olds. then_outcome new (\<lambda>news. Ret (olds, news))) of
      Ret (olds, news) \<Rightarrow> fst (detect_segments cv os s) = Ret () \<and>
        same_but_timers (s\<lparr>old_segments := olds, new_segments := news\<rparr>) (snd (detect_segments cv os s))
    | Halt h \<Rightarrow> fst (detect_segments cv os s) = Halt h"
  using detect_segments_ends [OF assms(1,2), of cv os] unfolding old_def new_def ends_def
  by (auto split: outcome.splits)

text \<open>
  C13. Cutting the segments out of the gray image never fails: every rectangle that \<open>split_segments\<close>
  returns lies inside the image, so every segment that is stored lies inside it, holds exactly the
  part of the image it covers, and starts out unmatched.
\<close>

theorem detected_segments_inside:
  assumes "size_laws cv" and "rect_law cv" and "roi_law cv"
  shows "(\<forall>rects. segment_rects cv g c th = Ret rects \<longrightarrow>
      each_outcome (cropped_segment cv g) rects = Ret (map (\<lambda>r. image_segment_of r (sub_mat g r)) rects)) \<and>
    (\<forall>segs. detected cv th g c = Ret segs \<longrightarrow> (\<forall>seg \<in> set segs. rect_in (seg_area seg) g \<and>
      seg_roi seg = sub_mat g (seg_area seg) \<and> \<not> seg_matched seg))"
  using crops_inside [OF assms] detected_placed [OF assms] by (auto simp: placed_def)

text \<open>The file names of \<open>save_segments\<close>.\<close>

definition segment_file :: "string \<Rightarrow> string \<Rightarrow> nat \<Rightarrow> string" where
  "segment_file out prefix i = out @ ''/'' @ prefix @ ''/'' @ to_string (int i) @ ''.png''"

lemma to_string_inj: "to_string (int i) = to_string (int j) \<longleftrightarrow> i = j"
  by (auto simp: to_string_def dest: arg_cong [where f = digits_value])

lemma segment_file_inj: "segment_file out prefix i = segment_file out prefix j \<longleftrightarrow> i = j"
  by (simp add: segment_file_def to_string_inj)

text \<open>The images that one call of \<open>do_save\<close> writes, with their names.\<close>

definition saved :: "opencv \<Rightarrow> string \<Rightarrow> bgr mat \<Rightarrow> nat \<Rightarrow> image_segment list \<Rightarrow> string \<Rightarrow> (string \<times> bgr mat) list \<Rightarrow> bool" where
  "saved cv prefix base n segs out files \<longleftrightarrow>
     map fst files = map (segment_file out prefix) [n..<n + length segs] \<and>
     list_all2 (\<lambda>seg f. cv_roi_color cv base (seg_area seg) = Inr (snd f)) segs files"

lemma save_all:
  assumes "for_each (zip [n..<n + length segs] segs) (save_segment cv prefix base) s = (Ret (), t)"
  shows "\<exists>files. saved cv prefix base n segs (output_name (arg s)) files \<and>
    t = s\<lparr>w_written := w_written s @ files\<rparr>"
  using assms
proof (induction segs arbitrary: s n)
  case (Cons seg segs)
  have range: "[n..<n + length (seg # segs)] = n # [Suc n..<Suc n + length segs]"
    by (subst upt_rec) simp
  from Cons.prems obtain img where img: "cv_roi_color cv base (seg_area seg) = Inr img"
    and rest: "for_each (zip [Suc n..<Suc n + length segs] segs) (save_segment cv prefix base)
      (s\<lparr>w_written := w_written s @ [(segment_file (output_name (arg s)) prefix n, img)]\<rparr>) = (Ret (), t)"
    unfolding range by (auto simp: save_segment_def imwrite_def segment_file_def elim!: bnd_RetE)
  from Cons.IH [OF rest] obtain files where "saved cv prefix base (Suc n) segs (output_name (arg s)) files"
    and "t = s\<lparr>w_written := w_written s @ (segment_file (output_name (arg s)) prefix n, img) # files\<rparr>" by auto
  with img show ?case unfolding saved_def range
    by (intro exI [of _ "(segment_file (output_name (arg s)) prefix n, img) # files"]) simp
qed (simp add: saved_def)

lemma do_save_Ret:
  assumes "do_save cv prefix base segs s = (Ret (), t)"
  obtains files where "saved cv prefix base 1 segs (output_name (arg s)) files"
    and "t = s\<lparr>w_written := w_written s @ files\<rparr>"
  using save_all [of 1 segs cv prefix base s t] assms that by (auto simp: do_save_def simp del: upt_Suc)

lemma saved_distinct: "saved cv prefix base n segs out files \<Longrightarrow> distinct (map fst files)"
  by (simp add: saved_def distinct_map inj_on_def segment_file_inj)

lemma saved_names:
  "saved cv prefix base n segs out files \<Longrightarrow> f \<in> fst ` set files \<Longrightarrow> \<exists>i. f = segment_file out prefix i"
proof -
  assume "saved cv prefix base n segs out files" and "f \<in> fst ` set files"
  then have "f \<in> set (map (segment_file out prefix) [n..<n + length segs])"
    unfolding saved_def by (metis set_map)
  then show ?thesis by auto
qed

text \<open>
  When \<open>save_segments\<close> returns it has written one image per segment, first those of the old
  image and then those of the new one, in order, each the part of its colour image that the
  segment covers; no two of them have the same file name.
\<close>

lemma save_segments_writes_all:
  assumes "save_segments cv s = (Ret (), t)"
  shows "\<exists>olds news. w_written t = w_written s @ olds @ news \<and> distinct (map fst (olds @ news)) \<and>
    list_all2 (\<lambda>seg f. cv_roi_color cv (old_color_mat s) (seg_area seg) = Inr (snd f)) (old_segments s) olds \<and>
    list_all2 (\<lambda>seg f. cv_roi_color cv (new_color_mat s) (seg_area seg) = Inr (snd f)) (new_segments s) news"
proof -
  let ?out = "output_name (arg s)"
  from assms obtain s1 where "do_save cv ''old'' (old_color_mat s) (old_segments s) s = (Ret (), s1)"
    and new: "do_save cv ''new'' (new_color_mat s1) (new_segments s1) s1 = (Ret (), t)"
    unfolding save_segments_def by (auto elim!: bnd_RetE)
  then obtain olds where olds: "saved cv ''old'' (old_color_mat s) 1 (old_segments s) ?out olds"
    and s1: "s1 = s\<lparr>w_written := w_written s @ olds\<rparr>" by (elim do_save_Ret)
  from new s1 obtain news where news: "saved cv ''new'' (new_color_mat s) 1 (new_segments s) ?out news"
    and t: "t = s1\<lparr>w_written := w_written s1 @ news\<rparr>" by (auto elim: do_save_Ret)
  have "fst ` set olds \<inter> fst ` set news = {}"
    using saved_names [OF olds] saved_names [OF news] by (fastforce simp: segment_file_def)
  then have "distinct (map fst (olds @ news))"
    using saved_distinct [OF olds] saved_distinct [OF news] by simp
  with olds news show ?thesis
    by (intro exI [of _ olds] exI [of _ news]) (auto simp: t s1 saved_def)
qed

section \<open>Examples\<close>

definition loaded :: state where
  "loaded = initial_state\<lparr>arg := default_options\<lparr>output_name := ''out''\<rparr>,
     old_color_mat := mat_const 2 2 (7, 7, 7), new_color_mat := mat_const 2 2 (7, 7, 7),
     old_gray_mat := mat_const 2 2 7, new_gray_mat := mat_const 2 2 7\<rparr>"

definition sample_segment :: image_segment where
  "sample_segment = image_segment_with \<lparr>rx = 0, ry = 0, rwidth = 1, rheight = 1\<rparr> (mat_const 1 1 0) (mat_const 1 1 7)"

lemma laws_sample: "size_laws sample_cv" "roi_law sample_cv"
  by (auto simp: size_laws_def roi_law_def sample_cv_def same_size_def mat_const_def mat_map_def)

lemma sample_label: "fst (label_image sample_cv (mat_const 2 2 7) c th ()) = Ret (Some (mat_const 2 2 2))"
proof -
  have "label_loop sample_cv [[\<lparr>px = 0, py = 0\<rparr>]] [(- 1, - 1, - 1, - 1)] 0 0 (mat_const 2 2 0) =
      Some (Inr (mat_const 2 2 1))"
    by (subst label_loop.simps, simp, subst label_loop.simps)
      (simp add: hier_next_def sample_cv_def mat_map_def mat_const_def)
  then show ?thesis
    by (simp add: label_image_def outcome_simps sample_cv_def mat_map_def mat_const_def)
qed

lemma sample_bfs_square:
  "fst (bfs sample_cv (mat_const 2 2 2) 0 0) = Some \<lparr>rx = 0, ry = 0, rwidth = 1, rheight = 1\<rparr>"
  "pix (snd (bfs sample_cv (mat_const 2 2 2) 0 0)) 0 1 = 0"
  "pix (snd (bfs sample_cv (mat_const 2 2 2) 0 0)) 1 0 = 0"
  "pix (snd (bfs sample_cv (mat_const 2 2 2) 0 0)) 1 1 = 0"
  by code_simp+

lemma sample_rects:
  "segment_rects sample_cv (mat_const 2 2 7) c th = Ret [\<lparr>rx = 0, ry = 0, rwidth = 1, rheight = 1\<rparr>]"
proof -
  have "raster (mat_const 2 2 (2 :: int)) = [(0, 0), (1, 0), (0, 1), (1, 1)]" by code_simp
  moreover have "1 < pix (mat_const 2 2 (2 :: int)) 0 0" by (simp add: mat_const_def)
  ultimately have "snd (group_pixels sample_cv (mat_const 2 2 2)) = [\<lparr>rx = 0, ry = 0, rwidth = 1, rheight = 1\<rparr>]"
    by (simp add: group_pixels_def group_pixel_eval sample_bfs_square)
  then show ?thesis by (simp add: segment_rects_def sample_label)
qed

lemma sample_detected: "detected sample_cv th (mat_const 2 2 7) c = Ret [sample_segment]"
proof -
  let ?r = "\<lparr>rx = 0, ry = 0, rwidth = 1, rheight = 1\<rparr>"
  have "cropped_segment sample_cv (mat_const 2 2 7) ?r = Ret (image_segment_of ?r (mat_const 1 1 7))"
    by (simp add: cropped_segment_def sample_cv_def rect_in_def sub_mat_def mat_const_def)
  moreover have "fst (compute_descriptor sample_cv (mat_const 1 1 7) ()) = Ret (Some (mat_const 1 1 0))"
    by (simp add: compute_descriptor_def outcome_simps sample_cv_def mat_empty_def mat_const_def mat_map_def)
  ultimately show ?thesis
    by (simp add: detected_def sample_rects described_segment_def sample_segment_def image_segment_of_def
        image_segment_with_def)
qed

theorem detect_segments_refines_witness:
  "fst (detect_segments sample_cv sample_os loaded) = Ret () \<and>
   same_but_timers (loaded\<lparr>old_segments := [sample_segment], new_segments := [sample_segment]\<rparr>)
     (snd (detect_segments sample_cv sample_os loaded))"
  using detect_segments_refines [of loaded sample_cv sample_os]
  by (simp add: loaded_def initial_state_def sample_detected)

theorem detected_segments_inside_witness:
  "detected sample_cv 200 (mat_const 2 2 7) (mat_const 2 2 (7, 7, 7)) = Ret [sample_segment] \<and>
   rect_in (seg_area sample_segment) (mat_const 2 2 (7 :: u8))"
  using detected_segments_inside [OF laws_sample(1) rect_law_sample laws_sample(2),
      of "mat_const 2 2 7" "mat_const 2 2 (7, 7, 7)" 200]
  by (simp add: sample_detected)

end
