(* ===== verification/Matching.thy ===== *)
theory Matching
  imports Detect
begin

text \<open>
  \<open>descriptor_match\<close> of \<open>image.cc\<close>: two sets of descriptors match when the median distance of
  their matches, sorted by distance, is at most one; with the cross check only matches count that
  hold in both directions. Distances are rational numbers; the comparison of two \<open>DMatch\<close>
  values compares their distances.
\<close>

section \<open>The operation\<close>

text \<open>
  The loop of the cross check. The subscript of \<open>match21\<close> is not checked by the code.
\<close>

primrec cross_checked :: "dmatch list \<Rightarrow> dmatch list \<Rightarrow> halt + dmatch list" where
  "cross_checked match21 [] = Inr []"
| "cross_checked match21 (forward # rest) =
     (if trainIdx forward < 0 \<or> int (length match21) \<le> trainIdx forward
      then Inl (Undefined ''match21[forward.trainIdx]'')
      else let backward = match21 ! nat (trainIdx forward) in
           case cross_checked match21 rest of
             Inl h \<Rightarrow> Inl h
           | Inr matched \<Rightarrow> Inr (if trainIdx backward = queryIdx forward then forward # matched else matched))"

definition median_close :: "dmatch list \<Rightarrow> bool" where
  "median_close matches =
     (let ms = sort_key distance matches
      in ms \<noteq> [] \<and> distance (ms ! (length ms div 2)) \<le> 1)"

definition descriptor_match :: "opencv \<Rightarrow> bool \<Rightarrow> rat mat \<Rightarrow> rat mat \<Rightarrow> ('s, bool) prog" where
  "descriptor_match cv cross d1 d2 =
     bnd (call (cv_flann_match cv d1 d2)) (\<lambda>match12.
     bnd (call (cv_flann_match cv d2 d1)) (\<lambda>match21.
     if cross then
       bnd (guarded (cross_checked match21 match12)) (\<lambda>matched.
       ret (median_close matched))
     else ret (median_close match12 \<or> median_close match21)))"

section \<open>The median\<close>

lemma sorted_nth_le_iff:
  assumes "sorted xs" and "k < length xs"
  shows "xs ! k \<le> (c :: 'a :: linorder) \<longleftrightarrow> k < length (filter (\<lambda>x. x \<le> c) xs)"
  using assms
proof (induction xs arbitrary: k)
  case (Cons x xs)
  show ?case
  proof (cases "x \<le> c")
    case True
    with Cons show ?thesis by (cases k) auto
  next
    case False
    then have "\<forall>y \<in> set (x # xs). \<not> y \<le> c" using Cons.prems(1) by auto
    moreover have "(x # xs) ! k \<in> set (x # xs)" using Cons.prems(2) by (rule nth_mem)
    ultimately have "filter (\<lambda>y. y \<le> c) (x # xs) = []" and "\<not> (x # xs) ! k \<le> c"
      by (simp_all only: filter_empty_conv) blast+
    then show ?thesis by simp
  qed
qed simp

lemma sorted_median_iff:
  assumes "sorted (map distance ys)" and "mset ys = mset matches" and "matches \<noteq> []"
  shows "distance (ys ! (length ys div 2)) \<le> 1 \<longleftrightarrow>
    length matches div 2 < length (filter (\<lambda>m. distance m \<le> 1) matches)"
proof -
  have len: "length ys = length matches" using assms(2) by (rule mset_eq_length)
  have k: "length ys div 2 < length ys" using assms(3) len by simp
  have "distance (ys ! (length ys div 2)) \<le> 1 \<longleftrightarrow> map distance ys ! (length ys div 2) \<le> 1"
    using k by simp
  also have "\<dots> \<longleftrightarrow> length ys div 2 < length (filter (\<lambda>x. x \<le> 1) (map distance ys))"
    using assms(1) k by (intro sorted_nth_le_iff) simp_all
  also have "length (filter (\<lambda>x. x \<le> 1) (map distance ys)) = size (filter_mset (\<lambda>m. distance m \<le> 1) (mset ys))"
    by (simp add: filter_map comp_def flip: mset_filter)
  also have "\<dots> = length (filter (\<lambda>m. distance m \<le> 1) matches)"
    unfolding assms(2) by (simp flip: mset_filter)
  finally show ?thesis by (simp add: len)
qed

lemma median_close_count:
  "median_close matches \<longleftrightarrow> length matches div 2 < length (filter (\<lambda>m. distance m \<le> 1) matches)"
proof (cases "matches = []")
  case False
  then have "sort_key distance matches \<noteq> []" by (metis length_0_conv length_sort)
  with False sorted_median_iff [of "sort_key distance matches" matches] show ?thesis
    by (simp add: median_close_def Let_def)
qed (simp add: median_close_def)

text \<open>
  C25. The verdict on a list of matches is a majority vote: it is positive exactly when more than
  half of the matches, rounded down, have a distance of at most one. It does not depend on how
  \<open>std::sort\<close> orders matches of equal distance: the middle element of any sorted arrangement
  gives the same answer.
\<close>

theorem median_close_majority:
  "(median_close matches \<longleftrightarrow> length matches div 2 < length (filter (\<lambda>m. distance m \<le> 1) matches)) \<and>
   (\<forall>ys. sorted (map distance ys) \<longrightarrow> mset ys = mset matches \<longrightarrow>
      (median_close matches \<longleftrightarrow> ys \<noteq> [] \<and> distance (ys ! (length ys div 2)) \<le> 1))"
  using median_close_count sorted_median_iff [of _ matches] by (cases "matches = []") auto

section \<open>The cross check\<close>

text \<open>
  What OpenCV documents of the matcher: the result holds one match for each row of the query set,
  in order, with the index of a row of the train set; and the distance is symmetric.
\<close>

definition match_law :: "opencv \<Rightarrow> bool" where
  "match_law cv \<longleftrightarrow> (\<forall>q t ms. cv_flann_match cv q t = Inr ms \<longrightarrow> int (length ms) = rows q \<and>
     (\<forall>i < length ms. queryIdx (ms ! i) = int i \<and> 0 \<le> trainIdx (ms ! i) \<and> trainIdx (ms ! i) < rows t))"

definition distance_law :: "opencv \<Rightarrow> bool" where
  "distance_law cv \<longleftrightarrow> (\<forall>q t ms ms' i j. cv_flann_match cv q t = Inr ms \<longrightarrow> cv_flann_match cv t q = Inr ms' \<longrightarrow>
     i < length ms \<longrightarrow> j < length ms' \<longrightarrow> trainIdx (ms ! i) = int j \<longrightarrow> trainIdx (ms' ! j) = int i \<longrightarrow>
     distance (ms ! i) = distance (ms' ! j))"

definition mutual :: "dmatch list \<Rightarrow> dmatch \<Rightarrow> bool" where
  "mutual match21 forward \<longleftrightarrow> trainIdx (match21 ! nat (trainIdx forward)) = queryIdx forward"

lemma cross_checked_filter:
  assumes "\<And>f. f \<in> set fs \<Longrightarrow> 0 \<le> trainIdx f \<and> trainIdx f < int (length match21)"
  shows "cross_checked match21 fs = Inr (filter (mutual match21) fs)"
  using assms
proof (induction fs)
  case (Cons f fs)
  have "0 \<le> trainIdx f \<and> trainIdx f < int (length match21)" by (rule Cons.prems) simp
  moreover have "cross_checked match21 fs = Inr (filter (mutual match21) fs)"
    by (rule Cons.IH) (simp add: Cons.prems)
  ultimately show ?case by (simp add: Let_def mutual_def [of match21 f])
qed simp

text \<open>The two directions of matching the rows of one descriptor with those of another.\<close>

lemma match_pair:
  assumes "match_law cv" and "cv_flann_match cv d1 d2 = Inr m12" and "cv_flann_match cv d2 d1 = Inr m21"
  shows "\<And>i. i < length m12 \<Longrightarrow> queryIdx (m12 ! i) = int i"
    and "\<And>i. i < length m12 \<Longrightarrow> 0 \<le> trainIdx (m12 ! i) \<and> trainIdx (m12 ! i) < int (length m21)"
  using assms by (auto simp: match_law_def)

lemma mutual_index:
  assumes "match_law cv" and "cv_flann_match cv d1 d2 = Inr m12" and "cv_flann_match cv d2 d1 = Inr m21"
    and "i < length m12" and "mutual m21 (m12 ! i)"
  defines "j \<equiv> nat (trainIdx (m12 ! i))"
  shows "j < length m21 \<and> trainIdx (m12 ! i) = int j \<and> trainIdx (m21 ! j) = int i \<and> mutual m12 (m21 ! j)"
proof -
  note q12 = match_pair(1) [OF assms(1-3)] and t12 = match_pair(2) [OF assms(1-3) assms(4)]
    and q21 = match_pair(1) [OF assms(1) assms(3,2)]
  have j: "j < length m21" "trainIdx (m12 ! i) = int j" using t12 by (simp_all add: j_def nat_less_iff)
  moreover have ret: "trainIdx (m21 ! j) = int i"
    using assms(5) q12 [OF assms(4)] by (simp add: mutual_def j_def)
  moreover have "mutual m12 (m21 ! j)" using ret j q21 [OF j(1)] by (simp add: mutual_def)
  ultimately show ?thesis by blast
qed

lemma mutual_count:
  assumes law: "match_law cv" and m: "cv_flann_match cv d1 d2 = Inr m12" "cv_flann_match cv d2 d1 = Inr m21"
    and P: "\<And>i j. i < length m12 \<Longrightarrow> j < length m21 \<Longrightarrow> trainIdx (m12 ! i) = int j \<Longrightarrow>
      trainIdx (m21 ! j) = int i \<Longrightarrow> P (m12 ! i) \<longleftrightarrow> P (m21 ! j)"
  shows "length (filter P (filter (mutual m21) m12)) = length (filter P (filter (mutual m12) m21))"
proof -
  let ?A = "{i. i < length m12 \<and> (mutual m21 (m12 ! i) \<and> P (m12 ! i))}"
  let ?B = "{j. j < length m21 \<and> (mutual m12 (m21 ! j) \<and> P (m21 ! j))}"
  have "bij_betw (\<lambda>i. nat (trainIdx (m12 ! i))) ?A ?B"
  proof (rule bij_betw_byWitness [where f' = "\<lambda>j. nat (trainIdx (m21 ! j))"])
    note fwd = mutual_index [OF law m] and bwd = mutual_index [OF law m(2,1)]
    show "\<forall>i \<in> ?A. nat (trainIdx (m21 ! nat (trainIdx (m12 ! i)))) = i"
      using fwd by auto
    show "\<forall>j \<in> ?B. nat (trainIdx (m12 ! nat (trainIdx (m21 ! j)))) = j"
      using bwd by auto
    show "(\<lambda>i. nat (trainIdx (m12 ! i))) ` ?A \<subseteq> ?B"
      using fwd P by (auto, blast)
    show "(\<lambda>j. nat (trainIdx (m21 ! j))) ` ?B \<subseteq> ?A"
      using bwd P by auto
  qed
  then have "card ?A = card ?B" by (rule bij_betw_same_card)
  then show ?thesis by (simp add: length_filter_conv_card)
qed

lemma descriptor_match_runs:
  assumes "match_law cv" and "cv_flann_match cv d1 d2 = Inr m12" and "cv_flann_match cv d2 d1 = Inr m21"
  shows "descriptor_match cv cross d1 d2 s = (Ret (if cross then median_close (filter (mutual m21) m12)
    else median_close m12 \<or> median_close m21), s)"
proof -
  have "cross_checked m21 m12 = Inr (filter (mutual m21) m12)"
    using match_pair(2) [OF assms] by (intro cross_checked_filter) (auto simp: in_set_conv_nth)
  with assms show ?thesis by (simp add: descriptor_match_def prog_simps)
qed

text \<open>
  C24. Matching is safe and symmetric: with a matcher that returns one match per query row, the
  subscript of the cross check is always in range, so matching returns a verdict; and the verdict
  for two descriptors is the same in both orders, with and without the cross check.
\<close>

theorem descriptor_match_symmetric:
  assumes "match_law cv" and "distance_law cv"
    and "cv_flann_match cv d1 d2 = Inr m12" and "cv_flann_match cv d2 d1 = Inr m21"
  shows "\<exists>b. descriptor_match cv cross d1 d2 s = (Ret b, s) \<and> descriptor_match cv cross d2 d1 s = (Ret b, s)"
proof -
  have "length (filter P (filter (mutual m21) m12)) = length (filter P (filter (mutual m12) m21))"
    if "P = (\<lambda>_. True) \<or> P = (\<lambda>m. distance m \<le> 1)" for P
  proof (rule mutual_count [OF assms(1,3,4)])
    fix i j
    assume "i < length m12" "j < length m21" "trainIdx (m12 ! i) = int j" "trainIdx (m21 ! j) = int i"
    with assms(2-4) have "distance (m12 ! i) = distance (m21 ! j)" unfolding distance_law_def by blast
    with that show "P (m12 ! i) \<longleftrightarrow> P (m21 ! j)" by auto
  qed
  from this [of "\<lambda>_. True"] this [of "\<lambda>m. distance m \<le> 1"]
  have "median_close (filter (mutual m21) m12) = median_close (filter (mutual m12) m21)"
    by (simp add: median_close_count)
  then show ?thesis
    unfolding descriptor_match_runs [OF assms(1,3,4)] descriptor_match_runs [OF assms(1) assms(4,3)] by auto
qed

text \<open>
  C26. The cross check keeps exactly the matches that hold in both directions, and they pair the
  rows of the two descriptors one to one.
\<close>

theorem cross_check_one_to_one:
  assumes "match_law cv" and "cv_flann_match cv d1 d2 = Inr m12" and "cv_flann_match cv d2 d1 = Inr m21"
  shows "\<exists>ms. cross_checked m21 m12 = Inr ms \<and> distinct (map queryIdx ms) \<and> distinct (map trainIdx ms) \<and>
    set ms = {f \<in> set m12. trainIdx (m21 ! nat (trainIdx f)) = queryIdx f}"
proof -
  let ?ms = "filter (mutual m21) m12"
  have "map queryIdx m12 = map int [0..<length m12]"
    using match_pair(1) [OF assms] by (intro nth_equalityI) simp_all
  then have "distinct (map queryIdx m12)" by (simp add: distinct_map)
  then have q: "distinct (map queryIdx ?ms)" by (rule distinct_map_filter)
  have "inj_on trainIdx (set ?ms)"
  proof (rule inj_onI)
    fix f g assume "f \<in> set ?ms" "g \<in> set ?ms" "trainIdx f = trainIdx g"
    then have "queryIdx f = queryIdx g" by (simp add: mutual_def)
    with q \<open>f \<in> set ?ms\<close> \<open>g \<in> set ?ms\<close> show "f = g" by (auto simp: distinct_map inj_on_def)
  qed
  then have t: "distinct (map trainIdx ?ms)" using q by (simp add: distinct_map)
  have "cross_checked m21 m12 = Inr ?ms"
    using match_pair(2) [OF assms] by (intro cross_checked_filter) (auto simp: in_set_conv_nth)
  moreover have "set ?ms = {f \<in> set m12. trainIdx (m21 ! nat (trainIdx f)) = queryIdx f}"
    by (auto simp: mutual_def)
  ultimately show ?thesis using q t by blast
qed

section \<open>Examples\<close>

text \<open>A matcher for examples: every row matches the row of the same number, as far as there is one.\<close>

definition row_matcher :: opencv where
  "row_matcher = sample_cv\<lparr>cv_flann_match := \<lambda>q t.
     if rows q < 0 \<or> rows t \<noteq> rows q then Inl ''sizes''
     else Inr (map (\<lambda>i. \<lparr>queryIdx = int i, trainIdx = int i, distance = rat_of_nat i\<rparr>) [0..<nat (rows q)])\<rparr>"

lemma row_matcher_laws: "match_law row_matcher" "distance_law row_matcher"
  by (auto simp: match_law_def distance_law_def row_matcher_def split: if_splits)

lemma row_matcher_match:
  "cv_flann_match row_matcher (mat_const 2 1 0) (mat_const 2 1 0) =
     Inr [\<lparr>queryIdx = 0, trainIdx = 0, distance = 0\<rparr>, \<lparr>queryIdx = 1, trainIdx = 1, distance = 1\<rparr>]"
  by (simp add: row_matcher_def mat_const_def upt_rec)

theorem descriptor_match_symmetric_witness:
  "\<exists>b. descriptor_match row_matcher True (mat_const 2 1 0) (mat_const 2 1 0) () = (Ret b, ())"
  using descriptor_match_symmetric [OF row_matcher_laws row_matcher_match row_matcher_match, of True "()"]
  by blast

theorem cross_check_one_to_one_witness:
  "\<exists>ms. cross_checked
      [\<lparr>queryIdx = 0, trainIdx = 0, distance = 0\<rparr>, \<lparr>queryIdx = 1, trainIdx = 1, distance = 1\<rparr>]
      [\<lparr>queryIdx = 0, trainIdx = 0, distance = 0\<rparr>, \<lparr>queryIdx = 1, trainIdx = 1, distance = 1\<rparr>] = Inr ms \<and>
    distinct (map trainIdx ms)"
  using cross_check_one_to_one [OF row_matcher_laws(1) row_matcher_match row_matcher_match] by blast

theorem median_close_majority_witness:
  "median_close [\<lparr>queryIdx = 0, trainIdx = 0, distance = 3\<rparr>, \<lparr>queryIdx = 1, trainIdx = 1, distance = 0\<rparr>,
     \<lparr>queryIdx = 2, trainIdx = 1, distance = 1\<rparr>]"
  using median_close_majority [of "[\<lparr>queryIdx = 0, trainIdx = 0, distance = 3\<rparr>,
      \<lparr>queryIdx = 1, trainIdx = 1, distance = 0\<rparr>, \<lparr>queryIdx = 2, trainIdx = 1, distance = 1\<rparr>]"]
  by simp

end
