(* ===== verification/Diff.thy ===== *)
theory Diff
  imports Matching
begin

text \<open>
  \<open>ImageSegment::rect_from\<close> and \<open>create_diff_image\<close> of \<open>image.cc\<close>, in the build without
  \<open>ENABLE_PARALLEL\<close>. There the bodies of the loops are not functions of their own: a \<open>return\<close>
  inside them leaves \<open>create_diff_image\<close>, and the loop variables are copies of the segments. A
  loop gives \<open>None\<close> when such a \<open>return\<close> was taken.
\<close>

section \<open>The operations\<close>

definition rect_from :: "opencv \<Rightarrow> image_segment \<Rightarrow> point \<Rightarrow> rect" where
  "rect_from cv seg upper_left = cv_Rect cv upper_left
     \<lparr>px = px upper_left + rwidth (seg_area seg), py = py upper_left + rheight (seg_area seg)\<rparr>"

text \<open>What the loops read of the context and never change.\<close>

record diff_view =
  v_old_gray :: "u8 mat"
  v_old_color :: "bgr mat"
  v_new_color :: "bgr mat"
  v_cross :: bool

definition diff_view_of :: "state \<Rightarrow> diff_view" where
  "diff_view_of s = \<lparr>v_old_gray = old_gray_mat s, v_old_color = old_color_mat s,
     v_new_color = new_color_mat s, v_cross = cross_check (arg s)\<rparr>"

text \<open>The body of the loops over \<open>i\<close> and \<open>j\<close>; \<open>at\<close> does not check its arguments.\<close>

definition paint_pixel :: "diff_view \<Rightarrow> rect \<Rightarrow> rect \<Rightarrow> int \<times> int \<Rightarrow> bgr mat \<Rightarrow> halt + bgr mat" where
  "paint_pixel v area rect p result =
     (let (i, j) = p in
      if \<not> inside (v_old_color v) (i + ry rect) (j + rx rect) then Inl (Undefined ''old_color_mat.at'')
      else if \<not> inside (v_new_color v) (i + ry area) (j + rx area) then Inl (Undefined ''new_color_mat.at'')
      else if pix (v_old_color v) (i + ry rect) (j + rx rect) \<noteq> pix (v_new_color v) (i + ry area) (j + rx area)
      then
        if \<not> inside result (i + ry rect) (j + rx rect) then Inl (Undefined ''result.at'')
        else Inr (put (i + ry rect) (j + rx rect) (0, 0, 255) result)
      else Inr result)"

primrec paint_pixels :: "diff_view \<Rightarrow> rect \<Rightarrow> rect \<Rightarrow> (int \<times> int) list \<Rightarrow> bgr mat \<Rightarrow> halt + bgr mat" where
  "paint_pixels v area rect [] result = Inr result"
| "paint_pixels v area rect (p # ps) result = (case paint_pixel v area rect p result of
       Inl h \<Rightarrow> Inl h
     | Inr result' \<Rightarrow> paint_pixels v area rect ps result')"

definition rect_offsets :: "rect \<Rightarrow> (int \<times> int) list" where
  "rect_offsets rect = [(i, j). i \<leftarrow> [0..rheight rect - 1], j \<leftarrow> [0..rwidth rect - 1]]"

text \<open>The part of the loop body after the two segments have matched.\<close>

definition highlight :: "opencv \<Rightarrow> diff_view \<Rightarrow> image_segment \<Rightarrow> bgr mat \<Rightarrow> ('s, bgr mat) prog" where
  "highlight cv v image_segment2 result =
     bnd (call (cv_matchTemplate_sqdiff cv (v_old_gray v) (seg_roi image_segment2))) (\<lambda>ret.
     bnd (call (cv_min_loc cv ret)) (\<lambda>min_point.
     let area = seg_area image_segment2; rect = rect_from cv image_segment2 min_point in
     bnd (call (cv_rectangle cv result rect (cv_RGB cv 255 0 0) 1)) (\<lambda>result.
     guarded (paint_pixels v area rect (rect_offsets rect) result))))"

primrec match_new ::
  "opencv \<Rightarrow> diff_view \<Rightarrow> image_segment \<Rightarrow> image_segment list \<Rightarrow> bgr mat \<Rightarrow> ('s, bgr mat option) prog"
where
  "match_new cv v image_segment1 [] result = ret (Some result)"
| "match_new cv v image_segment1 (image_segment2 # segments) result =
     (if mat_empty (seg_descriptor image_segment2) \<or> seg_matched image_segment2 then ret None
      else
        bnd (descriptor_match cv (v_cross v) (seg_descriptor image_segment1) (seg_descriptor image_segment2))
          (\<lambda>m.
        if \<not> m then ret None
        else
          bnd (highlight cv v (image_segment2\<lparr>seg_matched := True\<rparr>) result) (\<lambda>result.
          match_new cv v (image_segment1\<lparr>seg_matched := True\<rparr>) segments result)))"

primrec match_old ::
  "opencv \<Rightarrow> diff_view \<Rightarrow> image_segment list \<Rightarrow> image_segment list \<Rightarrow> bgr mat \<Rightarrow> ('s, bgr mat option) prog"
where
  "match_old cv v news [] result = ret (Some result)"
| "match_old cv v news (image_segment1 # segments) result =
     (if mat_empty (seg_descriptor image_segment1) \<or> seg_matched image_segment1 then ret None
      else
        bnd (match_new cv v image_segment1 news result) (\<lambda>r. case r of
          None \<Rightarrow> ret None
        | Some result \<Rightarrow> match_old cv v news segments result))"

text \<open>The drawing shares its data with the caller's matrix; the \<open>return\<close> leaves the lambda.\<close>

primrec draw_not_matched :: "opencv \<Rightarrow> image_segment list \<Rightarrow> bgr mat \<Rightarrow> ('s, bgr mat) prog" where
  "draw_not_matched cv [] ret_mat = ret ret_mat"
| "draw_not_matched cv (image_segment # segments) ret_mat =
     (if seg_matched image_segment then ret ret_mat
      else
        bnd (call (cv_rectangle cv ret_mat (seg_area image_segment) (cv_RGB cv 0 255 0) 2)) (\<lambda>ret_mat.
        draw_not_matched cv segments ret_mat))"

definition change_image ::
  "opencv \<Rightarrow> (state \<Rightarrow> mapped_file option) \<Rightarrow> (state \<Rightarrow> image_segment list) \<Rightarrow> string \<Rightarrow> unit act"
where
  "change_image cv file segments suffix =
     bnd (ask (\<lambda>s. (file s, segments s, output_name (arg s) @ suffix))) (\<lambda>(f, segs, name). case f of
       None \<Rightarrow> halt (Undefined ''dereference of an empty unique_ptr'')
     | Some mf \<Rightarrow>
         bnd (call (decode_from_mapped_file cv mf IMREAD_COLOR)) (\<lambda>image.
         bnd (draw_not_matched cv segs image) (\<lambda>image.
         imwrite cv name image)))"

definition write_images :: "opencv \<Rightarrow> os \<Rightarrow> bgr mat \<Rightarrow> unit act" where
  "write_images cv os result = with_timer os ''write'' None (\<lambda>_.
     bnd (ask (\<lambda>s. output_name (arg s) @ ''_diff.png'')) (\<lambda>name.
     bnd (imwrite cv name result) (\<lambda>_.
     bnd (ask (\<lambda>s. create_change_image (arg s))) (\<lambda>change.
     if \<not> change then ret ()
     else
       with_timer os ''create added and deleted image'' None (\<lambda>_.
       bnd (change_image cv old_file old_segments ''_delete.png'') (\<lambda>_.
       change_image cv new_file new_segments ''_add.png''))))))"

definition create_diff_image :: "opencv \<Rightarrow> os \<Rightarrow> unit act" where
  "create_diff_image cv os = with_timer os ''create diff image'' None (\<lambda>_.
     bnd (ask (\<lambda>s. (diff_view_of s, old_segments s, new_segments s))) (\<lambda>(v, olds, news).
     bnd (call (cv_merge3 cv (v_old_gray v) (v_old_gray v) (v_old_gray v))) (\<lambda>result.
     bnd (match_old cv v news olds result) (\<lambda>r. case r of
       None \<Rightarrow> ret ()
     | Some result \<Rightarrow> write_images cv os result))))"

section \<open>Painting\<close>

text \<open>Pixel \<open>(y, x)\<close> of the old image differs from the pixel of the new segment laid over it.\<close>

definition differs :: "diff_view \<Rightarrow> rect \<Rightarrow> rect \<Rightarrow> int \<Rightarrow> int \<Rightarrow> bool" where
  "differs v area rect y x \<longleftrightarrow>
     pix (v_old_color v) y x \<noteq> pix (v_new_color v) (y - ry rect + ry area) (x - rx rect + rx area)"

text \<open>
  \<open>painted base P m\<close>: \<open>m\<close> is \<open>base\<close> with the pixels of \<open>P\<close> in red. Only pixels inside the
  matrices count.
\<close>

definition painted :: "bgr mat \<Rightarrow> (int \<Rightarrow> int \<Rightarrow> bool) \<Rightarrow> bgr mat \<Rightarrow> bool" where
  "painted base P m \<longleftrightarrow> same_size m base \<and>
     (\<forall>y x. inside base y x \<longrightarrow> pix m y x = (if P y x then (0, 0, 255) else pix base y x))"

lemma painted_refl: "painted m (\<lambda>y x. False) m"
  by (simp add: painted_def same_size_def)

lemma painted_trans:
  assumes "painted base P m" and "painted m Q m'"
  shows "painted base (\<lambda>y x. P y x \<or> Q y x) m'"
  using assms by (auto simp: painted_def same_size_def inside_def)

lemma painted_cong:
  "painted base P m \<Longrightarrow> (\<And>y x. inside base y x \<Longrightarrow> P y x \<longleftrightarrow> Q y x) \<Longrightarrow> painted base Q m"
  by (simp add: painted_def)

lemma painted_put: "painted m (\<lambda>y' x'. y' = y \<and> x' = x) (put y x (0, 0, 255) m)"
  by (simp add: painted_def same_size_def)

text \<open>The bounds that the two loops over a rectangle rely on.\<close>

definition in_bounds :: "diff_view \<Rightarrow> bgr mat \<Rightarrow> rect \<Rightarrow> rect \<Rightarrow> bool" where
  "in_bounds v m area rect \<longleftrightarrow> same_size m (v_old_color v) \<and> rect_in rect (v_old_color v) \<and>
     rect_in area (v_new_color v) \<and> rwidth rect = rwidth area \<and> rheight rect = rheight area"

lemma in_bounds_same_size: "same_size m' m \<Longrightarrow> in_bounds v m area rect \<Longrightarrow> in_bounds v m' area rect"
  by (simp add: in_bounds_def same_size_def)

lemma set_rect_offsets: "(i, j) \<in> set (rect_offsets r) \<longleftrightarrow> 0 \<le> i \<and> i < rheight r \<and> 0 \<le> j \<and> j < rwidth r"
  by (auto simp: rect_offsets_def image_iff)

lemma paint_pixel_bounds:
  assumes "in_bounds v m area rect" and "(i, j) \<in> set (rect_offsets rect)"
  shows "\<exists>m'. paint_pixel v area rect (i, j) m = Inr m' \<and> same_size m' m \<and>
    painted m (\<lambda>y x. y = i + ry rect \<and> x = j + rx rect \<and> differs v area rect y x) m'"
proof -
  have i: "inside (v_old_color v) (i + ry rect) (j + rx rect)"
    "inside (v_new_color v) (i + ry area) (j + rx area)" "inside m (i + ry rect) (j + rx rect)"
    using assms by (auto simp: in_bounds_def set_rect_offsets rect_in_def inside_def same_size_def)
  show ?thesis
  proof (cases "differs v area rect (i + ry rect) (j + rx rect)")
    case True
    with i show ?thesis
      by (auto simp: paint_pixel_def differs_def same_size_def painted_def)
  next
    case False
    with i show ?thesis
      by (auto simp: paint_pixel_def differs_def same_size_def painted_def)
  qed
qed

lemma paint_pixels_bounds:
  assumes "in_bounds v m area rect" and "set ps \<subseteq> set (rect_offsets rect)"
  shows "\<exists>m'. paint_pixels v area rect ps m = Inr m' \<and> same_size m' m \<and>
    painted m (\<lambda>y x. (y - ry rect, x - rx rect) \<in> set ps \<and> differs v area rect y x) m'"
  using assms
proof (induction ps arbitrary: m)
  case Nil
  then show ?case by (simp add: painted_refl same_size_def)
next
  case (Cons p ps)
  obtain i j where p: "p = (i, j)" by (cases p)
  with Cons.prems obtain m1 where m1: "paint_pixel v area rect p m = Inr m1" "same_size m1 m"
    "painted m (\<lambda>y x. y = i + ry rect \<and> x = j + rx rect \<and> differs v area rect y x) m1"
    using paint_pixel_bounds [of v m area rect i j] by auto
  have "in_bounds v m1 area rect" by (rule in_bounds_same_size [OF m1(2) Cons.prems(1)])
  with Cons obtain m2 where m2: "paint_pixels v area rect ps m1 = Inr m2" "same_size m2 m1"
    "painted m1 (\<lambda>y x. (y - ry rect, x - rx rect) \<in> set ps \<and> differs v area rect y x) m2" by auto
  have "painted m (\<lambda>y x. (y - ry rect, x - rx rect) \<in> set (p # ps) \<and> differs v area rect y x) m2"
    using painted_trans [OF m1(3) m2(3)] by (rule painted_cong) (auto simp: p)
  moreover have "same_size m2 m" using m1(2) m2(2) by (simp add: same_size_def)
  ultimately show ?case using m1(1) m2(1) by simp
qed

lemma paint_rect:
  assumes "in_bounds v m area rect"
  shows "\<exists>m'. paint_pixels v area rect (rect_offsets rect) m = Inr m' \<and> same_size m' m \<and>
    painted m (\<lambda>y x. in_rect rect y x \<and> differs v area rect y x) m'"
proof -
  obtain m' where m': "paint_pixels v area rect (rect_offsets rect) m = Inr m'" "same_size m' m"
    "painted m (\<lambda>y x. (y - ry rect, x - rx rect) \<in> set (rect_offsets rect) \<and> differs v area rect y x) m'"
    using paint_pixels_bounds [OF assms] by blast
  have "painted m (\<lambda>y x. in_rect rect y x \<and> differs v area rect y x) m'"
    using m'(3) by (rule painted_cong) (auto simp: set_rect_offsets in_rect_def)
  with m' show ?thesis by blast
qed

text \<open>A rectangle that leaves the old image makes the loops read outside it.\<close>

lemma paint_pixel_outside:
  "\<not> inside (v_old_color v) (i + ry rect) (j + rx rect) \<Longrightarrow>
     paint_pixel v area rect (i, j) m = Inl (Undefined ''old_color_mat.at'')"
  by (simp add: paint_pixel_def)

lemma paint_pixel_halts: "paint_pixel v area rect p m = Inl h \<Longrightarrow> \<exists>what. h = Undefined what"
  by (auto simp: paint_pixel_def Let_def split: prod.splits if_splits)

lemma paint_pixels_outside:
  assumes "(i, j) \<in> set ps" and "\<not> inside (v_old_color v) (i + ry rect) (j + rx rect)"
  shows "\<exists>what. paint_pixels v area rect ps m = Inl (Undefined what)"
  using assms
proof (induction ps arbitrary: m)
  case (Cons p ps)
  show ?case
  proof (cases "paint_pixel v area rect p m")
    case (Inl h)
    then show ?thesis using paint_pixel_halts by fastforce
  next
    case (Inr m')
    with Cons have "(i, j) \<in> set ps" using paint_pixel_outside [OF Cons.prems(2)] by auto
    with Cons Inr show ?thesis by simp
  qed
qed simp

lemma rect_outside_pixel:
  assumes "0 < rwidth r" and "0 < rheight r" and "\<not> rect_in r m"
  shows "\<exists>i j. (i, j) \<in> set (rect_offsets r) \<and> \<not> inside m (i + ry r) (j + rx r)"
proof (cases "inside m (ry r) (rx r)")
  case True
  with assms have "\<not> inside m (rheight r - 1 + ry r) (rwidth r - 1 + rx r)"
    by (auto simp: rect_in_def inside_def)
  with assms show ?thesis by (intro exI [of _ "rheight r - 1"] exI [of _ "rwidth r - 1"])
    (simp add: set_rect_offsets)
next
  case False
  with assms show ?thesis by (intro exI [of _ 0]) (simp add: set_rect_offsets)
qed

section \<open>One match\<close>

text \<open>
  What OpenCV documents of drawing: \<open>CV_RGB\<close> lists the channels in the order blue, green, red;
  \<open>cv::rectangle\<close> of thickness one draws the outermost pixels of the rectangle; \<open>cv::merge\<close>
  joins matrices of one size pixel by pixel.
\<close>

definition scalar_bgr :: "scalar \<Rightarrow> bgr" where
  "scalar_bgr c = (of_int (fst c), of_int (fst (snd c)), of_int (snd (snd c)))"

definition drawing_laws :: "opencv \<Rightarrow> bool" where
  "drawing_laws cv \<longleftrightarrow> (\<forall>r g b. cv_RGB cv r g b = (b, g, r)) \<and>
     (\<forall>m r c. \<exists>m'. cv_rectangle cv m r c 1 = Inr m' \<and> same_size m' m \<and>
        (\<forall>y x. inside m y x \<longrightarrow> pix m' y x = (if on_border r y x then scalar_bgr c else pix m y x))) \<and>
     (\<forall>a b c. same_size b a \<longrightarrow> same_size c a \<longrightarrow> (\<exists>m. cv_merge3 cv a b c = Inr m \<and> same_size m a \<and>
        (\<forall>y x. inside m y x \<longrightarrow> pix m y x = (pix a y x, pix b y x, pix c y x))))"

text \<open>
  And of template matching: a template that is not larger than the image gives one value per
  position, and the position of the minimum is one of them.
\<close>

definition template_law :: "opencv \<Rightarrow> bool" where
  "template_law cv \<longleftrightarrow>
     (\<forall>m t r. cv_matchTemplate_sqdiff cv m t = Inr r \<longrightarrow> rows t \<le> rows m \<longrightarrow> cols t \<le> cols m \<longrightarrow>
        rows r = rows m - rows t + 1 \<and> cols r = cols m - cols t + 1) \<and>
     (\<forall>r p. cv_min_loc cv r = Inr p \<longrightarrow> 0 < rows r \<longrightarrow> 0 < cols r \<longrightarrow>
        0 \<le> px p \<and> px p < cols r \<and> 0 \<le> py p \<and> py p < rows r)"

text \<open>Where a segment of the new image is found in the old one, and the pixels it turns red.\<close>

definition target :: "opencv \<Rightarrow> diff_view \<Rightarrow> image_segment \<Rightarrow> rect option" where
  "target cv v seg = (case cv_matchTemplate_sqdiff cv (v_old_gray v) (seg_roi seg) of
       Inl e \<Rightarrow> None
     | Inr r \<Rightarrow> (case cv_min_loc cv r of Inl e \<Rightarrow> None | Inr p \<Rightarrow> Some (rect_from cv seg p)))"

definition marks :: "opencv \<Rightarrow> diff_view \<Rightarrow> image_segment \<Rightarrow> int \<Rightarrow> int \<Rightarrow> bool" where
  "marks cv v seg y x = (case target cv v seg of
       None \<Rightarrow> False
     | Some rect \<Rightarrow> on_border rect y x \<or> in_rect rect y x \<and> differs v (seg_area seg) rect y x)"

text \<open>A segment that is cut from the new image and is not larger than the old one.\<close>

definition fits :: "diff_view \<Rightarrow> image_segment \<Rightarrow> bool" where
  "fits v seg \<longleftrightarrow> same_size (v_old_color v) (v_old_gray v) \<and> rect_in (seg_area seg) (v_new_color v) \<and>
     rows (seg_roi seg) = rheight (seg_area seg) \<and> cols (seg_roi seg) = rwidth (seg_area seg) \<and>
     rheight (seg_area seg) \<le> rows (v_old_gray v) \<and> rwidth (seg_area seg) \<le> cols (v_old_gray v)"

lemma target_in_bounds:
  assumes "rect_law cv" and "template_law cv" and "fits v seg" and "target cv v seg = Some rect"
    and "same_size m (v_old_gray v)"
  shows "in_bounds v m (seg_area seg) rect"
proof -
  from assms(4) obtain r p where r: "cv_matchTemplate_sqdiff cv (v_old_gray v) (seg_roi seg) = Inr r"
    and p: "cv_min_loc cv r = Inr p" and rect: "rect = rect_from cv seg p"
    by (auto simp: target_def split: sum.splits)
  from assms(2,3) r have rc: "rows r = rows (v_old_gray v) - rheight (seg_area seg) + 1"
    "cols r = cols (v_old_gray v) - rwidth (seg_area seg) + 1"
    by (auto simp: template_law_def fits_def)
  then have "0 < rows r" "0 < cols r" using assms(3) by (simp_all add: fits_def)
  with assms(2) p have "0 \<le> px p" "px p < cols r" "0 \<le> py p" "py p < rows r"
    by (auto simp: template_law_def)
  moreover have "rect = \<lparr>rx = px p, ry = py p, rwidth = rwidth (seg_area seg), rheight = rheight (seg_area seg)\<rparr>"
    using assms(1,3) by (simp add: rect rect_from_def rect_law_def fits_def rect_in_def)
  ultimately show ?thesis using assms(3,5) rc by (simp add: in_bounds_def fits_def rect_in_def same_size_def)
qed

lemma red: "drawing_laws cv \<Longrightarrow> scalar_bgr (cv_RGB cv 255 0 0) = (0, 0, 255)"
  by (simp add: drawing_laws_def scalar_bgr_def)

lemma rectangle_painted:
  assumes "drawing_laws cv"
  shows "\<exists>m'. cv_rectangle cv m r (cv_RGB cv 255 0 0) 1 = Inr m' \<and> same_size m' m \<and> painted m (on_border r) m'"
proof -
  from assms obtain m' where "cv_rectangle cv m r (cv_RGB cv 255 0 0) 1 = Inr m'" "same_size m' m"
    "\<forall>y x. inside m y x \<longrightarrow> pix m' y x =
      (if on_border r y x then scalar_bgr (cv_RGB cv 255 0 0) else pix m y x)"
    unfolding drawing_laws_def by blast
  then show ?thesis by (auto simp: painted_def red [OF assms])
qed

lemma highlight_painted:
  assumes laws: "drawing_laws cv" "rect_law cv" "template_law cv"
    and seg: "fits v seg" "target cv v seg = Some rect" and m: "same_size m (v_old_gray v)"
  shows "\<exists>m'. highlight cv v seg m s = (Ret m', s) \<and> same_size m' m \<and> painted m (marks cv v seg) m'"
proof -
  from seg(2) obtain r p where r: "cv_matchTemplate_sqdiff cv (v_old_gray v) (seg_roi seg) = Inr r"
    and p: "cv_min_loc cv r = Inr p" and rect: "rect = rect_from cv seg p"
    by (auto simp: target_def split: sum.splits)
  obtain m1 where m1: "cv_rectangle cv m rect (cv_RGB cv 255 0 0) 1 = Inr m1" "same_size m1 m"
    "painted m (on_border rect) m1" using rectangle_painted [OF laws(1)] by blast
  have "in_bounds v m1 (seg_area seg) rect"
    using target_in_bounds [OF laws(2,3) seg m] by (rule in_bounds_same_size [OF m1(2)])
  then obtain m2 where m2: "paint_pixels v (seg_area seg) rect (rect_offsets rect) m1 = Inr m2" "same_size m2 m1"
    "painted m1 (\<lambda>y x. in_rect rect y x \<and> differs v (seg_area seg) rect y x) m2" using paint_rect by blast
  have "painted m (marks cv v seg) m2"
    using painted_trans [OF m1(3) m2(3)] by (rule painted_cong) (simp add: marks_def seg(2))
  moreover have "highlight cv v seg m s = (Ret m2, s)"
    using r p m1(1) m2(1) by (simp add: highlight_def Let_def prog_simps flip: rect)
  moreover have "same_size m2 m" using m1(2) m2(2) by (simp add: same_size_def)
  ultimately show ?thesis by blast
qed

section \<open>The loops\<close>

definition matches :: "opencv \<Rightarrow> diff_view \<Rightarrow> image_segment \<Rightarrow> image_segment \<Rightarrow> bool" where
  "matches cv v seg1 seg2 \<longleftrightarrow>
     fst (descriptor_match cv (v_cross v) (seg_descriptor seg1) (seg_descriptor seg2) ()) = Ret True"

definition usable :: "image_segment \<Rightarrow> bool" where
  "usable seg \<longleftrightarrow> \<not> mat_empty (seg_descriptor seg) \<and> \<not> seg_matched seg"

text \<open>Every segment of the old image matches every segment of the new one.\<close>

definition all_match :: "opencv \<Rightarrow> diff_view \<Rightarrow> image_segment list \<Rightarrow> image_segment list \<Rightarrow> bool" where
  "all_match cv v olds news \<longleftrightarrow>
     (\<forall>seg1 \<in> set olds. usable seg1 \<and> (\<forall>seg2 \<in> set news. usable seg2 \<and> matches cv v seg1 seg2))"

lemma descriptor_match_stateless:
  "descriptor_match cv cross d1 d2 s = (fst (descriptor_match cv cross d1 d2 ()), s)"
  by (auto simp: descriptor_match_def bnd_def prog_simps split: sum.splits)

lemma matches_matched [simp]:
  "matches cv v (seg1\<lparr>seg_matched := b\<rparr>) seg2 = matches cv v seg1 seg2"
  by (simp add: matches_def)

lemma highlight_matched [simp]: "highlight cv v (seg\<lparr>seg_matched := b\<rparr>) = highlight cv v seg"
  by (rule ext) (simp add: highlight_def rect_from_def)

lemma descriptor_match_Ret:
  "descriptor_match cv (v_cross v) (seg_descriptor seg1) (seg_descriptor seg2) s = (Ret b, t) \<longleftrightarrow>
     fst (descriptor_match cv (v_cross v) (seg_descriptor seg1) (seg_descriptor seg2) ()) = Ret b \<and> t = s"
  by (subst descriptor_match_stateless) auto

lemma highlight_state: "highlight cv v seg m s = (Ret m', t) \<Longrightarrow> t = s"
  by (auto simp: highlight_def Let_def elim!: bnd_RetE)

lemma match_new_Ret:
  assumes "match_new cv v seg1 news m s = (Ret r, t)"
  shows "t = s \<and> (r \<noteq> None \<longleftrightarrow> (\<forall>seg2 \<in> set news. usable seg2 \<and> matches cv v seg1 seg2))"
  using assms
proof (induction news arbitrary: seg1 m)
  case (Cons seg2 news)
  show ?case
  proof (cases "usable seg2")
    case False
    with Cons.prems show ?thesis by (auto simp: usable_def)
  next
    case True
    then obtain b where b: "fst (descriptor_match cv (v_cross v) (seg_descriptor seg1) (seg_descriptor seg2) ()) = Ret b"
      using Cons.prems by (auto simp: usable_def descriptor_match_Ret elim!: bnd_RetE)
    show ?thesis
    proof (cases b)
      case False
      with b True Cons.prems show ?thesis
        by (auto simp: usable_def matches_def descriptor_match_Ret elim!: bnd_RetE)
    next
      case True
      with b \<open>usable seg2\<close> Cons.prems obtain m1 where "highlight cv v seg2 m s = (Ret m1, s)"
        and "match_new cv v (seg1\<lparr>seg_matched := True\<rparr>) news m1 s = (Ret r, t)"
        by (auto simp: usable_def descriptor_match_Ret dest: highlight_state elim!: bnd_RetE)
      with Cons.IH [of "seg1\<lparr>seg_matched := True\<rparr>" m1] b True \<open>usable seg2\<close> show ?thesis
        by (simp add: matches_def)
    qed
  qed
qed auto

lemma match_old_Ret:
  assumes "match_old cv v news olds m s = (Ret r, t)"
  shows "t = s \<and> (r \<noteq> None \<longleftrightarrow> all_match cv v olds news)"
  using assms
proof (induction olds arbitrary: m)
  case (Cons seg1 olds)
  show ?case
  proof (cases "usable seg1")
    case False
    with Cons.prems show ?thesis by (auto simp: usable_def all_match_def)
  next
    case True
    with Cons.prems obtain r1 s1 where r1: "match_new cv v seg1 news m s = (Ret r1, s1)"
      and rest: "(case r1 of None \<Rightarrow> ret None | Some m \<Rightarrow> match_old cv v news olds m) s1 = (Ret r, t)"
      by (auto simp: usable_def elim!: bnd_RetE)
    with True Cons.IH match_new_Ret [OF r1] show ?thesis
      by (cases r1) (auto simp: all_match_def)
  qed
qed (auto simp: all_match_def)

lemma match_new_painted:
  assumes laws: "drawing_laws cv" "rect_law cv" "template_law cv"
    and "\<forall>seg2 \<in> set news. usable seg2 \<and> matches cv v seg1 seg2"
    and "\<forall>seg2 \<in> set news. fits v seg2 \<and> target cv v seg2 \<noteq> None"
    and "same_size m (v_old_gray v)"
  shows "\<exists>m'. match_new cv v seg1 news m s = (Ret (Some m'), s) \<and> same_size m' m \<and>
    painted m (\<lambda>y x. \<exists>seg2 \<in> set news. marks cv v seg2 y x) m'"
  using assms(4-)
proof (induction news arbitrary: seg1 m)
  case Nil
  show ?case by (simp add: painted_refl same_size_def)
next
  case (Cons seg2 news)
  then obtain m1 where m1: "highlight cv v seg2 m s = (Ret m1, s)" "same_size m1 m" "painted m (marks cv v seg2) m1"
    using highlight_painted [OF laws, of v seg2 _ m s] by auto
  then have "same_size m1 (v_old_gray v)" using Cons.prems(3) by (simp add: same_size_def)
  with Cons.IH [of "seg1\<lparr>seg_matched := True\<rparr>" m1] Cons.prems obtain m2 where
    m2: "match_new cv v (seg1\<lparr>seg_matched := True\<rparr>) news m1 s = (Ret (Some m2), s)" "same_size m2 m1"
    "painted m1 (\<lambda>y x. \<exists>seg2 \<in> set news. marks cv v seg2 y x) m2" by auto
  have "descriptor_match cv (v_cross v) (seg_descriptor seg1) (seg_descriptor seg2) s = (Ret True, s)"
    using Cons.prems(1) by (simp add: descriptor_match_Ret matches_def)
  then have "match_new cv v seg1 (seg2 # news) m s = (Ret (Some m2), s)"
    using Cons.prems(1) m1(1) m2(1) by (simp add: usable_def)
  moreover have "painted m (\<lambda>y x. \<exists>seg2 \<in> set (seg2 # news). marks cv v seg2 y x) m2"
    using painted_trans [OF m1(3) m2(3)] by (rule painted_cong) auto
  moreover have "same_size m2 m" using m1(2) m2(2) by (simp add: same_size_def)
  ultimately show ?case by blast
qed

lemma match_old_painted:
  assumes laws: "drawing_laws cv" "rect_law cv" "template_law cv"
    and "all_match cv v olds news"
    and news: "\<forall>seg2 \<in> set news. fits v seg2 \<and> target cv v seg2 \<noteq> None"
    and "same_size m (v_old_gray v)"
  shows "\<exists>m'. match_old cv v news olds m s = (Ret (Some m'), s) \<and> same_size m' m \<and>
    painted m (\<lambda>y x. olds \<noteq> [] \<and> (\<exists>seg2 \<in> set news. marks cv v seg2 y x)) m'"
  using assms(4,6)
proof (induction olds arbitrary: m)
  case Nil
  show ?case by (simp add: painted_refl same_size_def)
next
  case (Cons seg1 olds)
  then have one: "usable seg1" "\<forall>seg2 \<in> set news. usable seg2 \<and> matches cv v seg1 seg2"
    and rest: "all_match cv v olds news" by (simp_all add: all_match_def)
  from match_new_painted [OF laws one(2) news Cons.prems(2), of s]
  obtain m1 where m1: "match_new cv v seg1 news m s = (Ret (Some m1), s)" "same_size m1 m"
    "painted m (\<lambda>y x. \<exists>seg2 \<in> set news. marks cv v seg2 y x) m1" by (elim exE conjE)
  then have "same_size m1 (v_old_gray v)" using Cons.prems(2) by (simp add: same_size_def)
  from Cons.IH [OF rest this] obtain m2 where
    m2: "match_old cv v news olds m1 s = (Ret (Some m2), s)" "same_size m2 m1"
    "painted m1 (\<lambda>y x. olds \<noteq> [] \<and> (\<exists>seg2 \<in> set news. marks cv v seg2 y x)) m2" by blast
  have "match_old cv v news (seg1 # olds) m s = (Ret (Some m2), s)"
    using one(1) m1(1) m2(1) by (simp add: usable_def)
  moreover have "painted m (\<lambda>y x. seg1 # olds \<noteq> [] \<and> (\<exists>seg2 \<in> set news. marks cv v seg2 y x)) m2"
    using painted_trans [OF m1(3) m2(3)] by (rule painted_cong) auto
  moreover have "same_size m2 m" using m1(2) m2(2) by (simp add: same_size_def)
  ultimately show ?case by blast
qed

section \<open>The images of added and deleted parts\<close>

text \<open>Rectangles drawn one after the other.\<close>

primrec outline_all :: "opencv \<Rightarrow> rect list \<Rightarrow> bgr mat \<Rightarrow> string + bgr mat" where
  "outline_all cv [] m = Inr m"
| "outline_all cv (r # rs) m = (case cv_rectangle cv m r (cv_RGB cv 0 255 0) 2 of
       Inl e \<Rightarrow> Inl e
     | Inr m' \<Rightarrow> outline_all cv rs m')"

lemma draw_not_matched_outline:
  assumes "\<forall>seg \<in> set segs. \<not> seg_matched seg"
  shows "draw_not_matched cv segs m = call (outline_all cv (map seg_area segs) m)"
  using assms by (induction segs arbitrary: m) (auto simp: call_def split: sum.splits)

lemma imwrite_Ret:
  "imwrite cv name m s = (Ret u, t) \<longleftrightarrow>
     (\<exists>b. cv_imwrite cv name m = Inr b) \<and> t = s\<lparr>w_written := w_written s @ [(name, m)]\<rparr>"
  by (cases "cv_imwrite cv name m") (auto simp: imwrite_def)

lemma draw_not_matched_state: "draw_not_matched cv segs m s = (Ret m', t) \<Longrightarrow> t = s"
  by (induction segs arbitrary: m) (auto elim!: bnd_RetE split: if_splits)

lemma draw_not_matched_fst: "fst (draw_not_matched cv segs m s) = fst (draw_not_matched cv segs m ())"
  by (induction segs arbitrary: m)
    (simp_all add: outcome_bnd outcome_rules call_def split: outcome.split sum.split)

lemma draw_not_matched_Ret:
  "draw_not_matched cv segs m s = (Ret m', t) \<Longrightarrow> fst (draw_not_matched cv segs m ()) = Ret m' \<and> t = s"
  using draw_not_matched_fst [of cv segs m s] draw_not_matched_state by fastforce

lemma change_image_Ret:
  assumes "change_image cv file segments suffix s = (Ret u, t)"
  shows "\<exists>mf image result. file s = Some mf \<and> decode_from_mapped_file cv mf IMREAD_COLOR = Inr image \<and>
    fst (draw_not_matched cv (segments s) image ()) = Ret result \<and>
    t = s\<lparr>w_written := w_written s @ [(output_name (arg s) @ suffix, result)]\<rparr>"
  using assms
  by (fastforce simp: change_image_def imwrite_Ret dest: draw_not_matched_Ret elim!: bnd_RetE split: option.splits)

section \<open>The segments stay as they are\<close>

definition segments_are :: "image_segment list \<Rightarrow> image_segment list \<Rightarrow> state \<Rightarrow> bool" where
  "segments_are olds news s \<longleftrightarrow> old_segments s = olds \<and> new_segments s = news"

interpretation frozen: timer_blind "segments_are olds news" for olds news
  by unfold_locales (simp add: segments_are_def)

lemma descriptor_match_snd [simp]: "snd (descriptor_match cv cross d1 d2 s) = s"
  by (subst descriptor_match_stateless) simp

lemma highlight_snd [simp]: "snd (highlight cv v seg m s) = s"
  by (simp add: highlight_def Let_def outcome_bnd call_def guarded_def outcome_rules split: sum.split outcome.split)

lemma match_new_snd [simp]: "snd (match_new cv v seg1 news m s) = s"
  by (induction news arbitrary: seg1 m) (simp_all add: outcome_bnd outcome_rules split: outcome.split)

lemma match_old_snd [simp]: "snd (match_old cv v news olds m s) = s"
  by (induction olds arbitrary: m) (simp_all add: outcome_bnd outcome_rules split: outcome.split option.split)

lemma draw_not_matched_snd [simp]: "snd (draw_not_matched cv segs m s) = s"
  by (induction segs arbitrary: m)
    (simp_all add: outcome_bnd outcome_rules call_def split: outcome.split sum.split)

lemma keeps_imwrite:
  "(\<And>s ws. I s \<Longrightarrow> I (s\<lparr>w_written := ws\<rparr>)) \<Longrightarrow> keeps I (imwrite cv name m)"
  by (simp add: imwrite_def keeps_intros)

lemma keeps_change_image:
  "(\<And>s ws. I s \<Longrightarrow> I (s\<lparr>w_written := ws\<rparr>)) \<Longrightarrow> keeps I (change_image cv file segments suffix)"
  unfolding change_image_def
  by (intro keeps_intros keeps_imwrite) (simp_all add: keeps_stateless)

lemma keeps_create_diff_image: "keeps (segments_are olds news) (create_diff_image cv os)"
  unfolding create_diff_image_def write_images_def
  by (intro frozen.keeps_scope keeps_intros keeps_imwrite keeps_change_image keeps_stateless)
    (simp_all add: segments_are_def)

section \<open>The whole of create_diff_image\<close>

lemma highlight_fst: "fst (highlight cv v seg m s) = fst (highlight cv v seg m ())"
  by (simp add: highlight_def Let_def outcome_bnd call_def guarded_def outcome_rules split: sum.split outcome.split)

lemma match_new_fst: "fst (match_new cv v seg1 news m s) = fst (match_new cv v seg1 news m ())"
proof (induction news arbitrary: seg1 m)
  case (Cons seg2 news)
  have "fst (descriptor_match cv (v_cross v) (seg_descriptor seg1) (seg_descriptor seg2) s) =
      fst (descriptor_match cv (v_cross v) (seg_descriptor seg1) (seg_descriptor seg2) ())"
    by (subst descriptor_match_stateless) simp
  with Cons highlight_fst [of cv v seg2 m s] show ?case
    by (simp add: outcome_bnd outcome_rules split: outcome.split)
qed (simp add: outcome_rules)

lemma match_old_fst: "fst (match_old cv v news olds m s) = fst (match_old cv v news olds m ())"
proof (induction olds arbitrary: m)
  case (Cons seg1 olds)
  with match_new_fst [of cv v seg1 news m s] show ?case
    by (simp add: outcome_bnd outcome_rules split: outcome.split option.split)
qed (simp add: outcome_rules)

lemma match_old_Ret_iff:
  "match_old cv v news olds m s = (Ret r, t) \<longleftrightarrow> fst (match_old cv v news olds m ()) = Ret r \<and> t = s"
  using match_old_fst [of cv v news olds m s] match_old_snd [of cv v news olds m s] by (auto simp: prod_eq_iff)

definition changed_images :: "opencv \<Rightarrow> state \<Rightarrow> (string \<times> bgr mat) list \<Rightarrow> bool" where
  "changed_images cv s files \<longleftrightarrow>
     (if create_change_image (arg s)
      then \<exists>fo fn io inw deleted added. old_file s = Some fo \<and> new_file s = Some fn \<and>
        decode_from_mapped_file cv fo IMREAD_COLOR = Inr io \<and>
        decode_from_mapped_file cv fn IMREAD_COLOR = Inr inw \<and>
        fst (draw_not_matched cv (old_segments s) io ()) = Ret deleted \<and>
        fst (draw_not_matched cv (new_segments s) inw ()) = Ret added \<and>
        files = [(output_name (arg s) @ ''_delete.png'', deleted), (output_name (arg s) @ ''_add.png'', added)]
      else files = [])"

lemma write_images_Ret:
  assumes "write_images cv os m s = (Ret u, t)"
  shows "\<exists>files. changed_images cv s files \<and>
    w_written t = w_written s @ (output_name (arg s) @ ''_diff.png'', m) # files"
proof -
  define s1 where "s1 = (snd (timer_new os ''write'' None s))
    \<lparr>w_written := w_written s @ [(output_name (arg s) @ ''_diff.png'', m)]\<rparr>"
  from assms obtain s2 where t: "w_written t = w_written s2"
    and rest: "(if \<not> create_change_image (arg s1) then ret ()
      else with_timer os ''create added and deleted image'' None (\<lambda>_.
        bnd (change_image cv old_file old_segments ''_delete.png'') (\<lambda>_.
        change_image cv new_file new_segments ''_add.png''))) s1 = (Ret u, s2)"
    unfolding write_images_def by (elim with_timer_Ret bnd_RetE) (auto simp: imwrite_Ret s1_def)
  show ?thesis
  proof (cases "create_change_image (arg s)")
    case False
    with rest t show ?thesis by (auto simp: changed_images_def s1_def)
  next
    case True
    with rest obtain s3 s4 where "change_image cv old_file old_segments ''_delete.png''
        (snd (timer_new os ''create added and deleted image'' None s1)) = (Ret (), s3)"
      and "change_image cv new_file new_segments ''_add.png'' s3 = (Ret u, s4)" and "w_written s2 = w_written s4"
      by (auto simp: s1_def elim!: with_timer_Ret bnd_RetE)
    with True t show ?thesis
      by (auto simp: changed_images_def s1_def dest!: change_image_Ret)
  qed
qed

lemma create_diff_image_Ret:
  assumes "create_diff_image cv os s = (Ret u, t)"
  obtains base r where "cv_merge3 cv (old_gray_mat s) (old_gray_mat s) (old_gray_mat s) = Inr base"
    and "fst (match_old cv (diff_view_of s) (new_segments s) (old_segments s) base ()) = Ret r"
    and "case r of
        None \<Rightarrow> w_written t = w_written s
      | Some m \<Rightarrow> \<exists>files. changed_images cv s files \<and>
          w_written t = w_written s @ (output_name (arg s) @ ''_diff.png'', m) # files"
proof -
  define s1 where "s1 = snd (timer_new os ''create diff image'' None s)"
  from assms obtain base r s2 where base: "cv_merge3 cv (old_gray_mat s) (old_gray_mat s) (old_gray_mat s) = Inr base"
    and r: "fst (match_old cv (diff_view_of s) (new_segments s) (old_segments s) base ()) = Ret r"
    and rest: "(case r of None \<Rightarrow> ret () | Some result \<Rightarrow> write_images cv os result) s1 = (Ret (), s2)"
    and t: "t = timer_stop os (length (timer_records s)) s2"
    unfolding create_diff_image_def s1_def
    by (elim with_timer_Ret bnd_RetE) (auto simp: match_old_Ret_iff diff_view_of_def elim!: bnd_RetE)
  have files: "changed_images cv s1 files = changed_images cv s files" for files
    by (simp add: changed_images_def s1_def)
  show thesis
  proof (rule that [OF base r])
    show "case r of None \<Rightarrow> w_written t = w_written s
      | Some m \<Rightarrow> \<exists>files. changed_images cv s files \<and>
          w_written t = w_written s @ (output_name (arg s) @ ''_diff.png'', m) # files"
      using rest write_images_Ret [of cv os _ s1 "()" s2]
      by (cases r) (auto simp: t files, auto simp: s1_def)
  qed
qed

section \<open>Properties of the difference image\<close>

lemma diff_written:
  assumes "create_diff_image cv os s = (Ret u, t)"
  shows "if all_match cv (diff_view_of s) (old_segments s) (new_segments s)
    then \<exists>m files. w_written t = w_written s @ (output_name (arg s) @ ''_diff.png'', m) # files
    else w_written t = w_written s"
proof -
  from assms obtain base r where r: "fst (match_old cv (diff_view_of s) (new_segments s) (old_segments s) base ()) = Ret r"
    and w: "case r of None \<Rightarrow> w_written t = w_written s
      | Some m \<Rightarrow> \<exists>files. changed_images cv s files \<and>
          w_written t = w_written s @ (output_name (arg s) @ ''_diff.png'', m) # files"
    by (rule create_diff_image_Ret)
  have "match_old cv (diff_view_of s) (new_segments s) (old_segments s) base () = (Ret r, ())"
    using r by (simp add: match_old_Ret_iff)
  from match_old_Ret [OF this] w show ?thesis by (cases r) auto
qed

text \<open>
  C9. In the build without \<open>ENABLE_PARALLEL\<close>, \<open>create_diff_image\<close> writes a difference image only
  when every segment of the old image has a descriptor and matches every segment of the new
  image. As soon as one pair does not match it returns to \<open>main\<close> as if it were done, and no image
  is written.
\<close>

theorem diff_needs_every_pair:
  assumes "create_diff_image cv os s = (Ret u, t)"
  shows "if all_match cv (diff_view_of s) (old_segments s) (new_segments s)
    then \<exists>m files. w_written t = w_written s @ (output_name (arg s) @ ''_diff.png'', m) # files
    else w_written t = w_written s"
  using assms by (rule diff_written)

lemma create_diff_image_returns:
  assumes "cv_merge3 cv (old_gray_mat s) (old_gray_mat s) (old_gray_mat s) = Inr base"
    and "fst (match_old cv (diff_view_of s) (new_segments s) (old_segments s) base ()) = Ret (Some m)"
    and "\<exists>b. cv_imwrite cv (output_name (arg s) @ ''_diff.png'') m = Inr b" and "\<not> create_change_image (arg s)"
  shows "fst (create_diff_image cv os s) = Ret ()"
proof -
  from assms(3) obtain b where "cv_imwrite cv (output_name (arg s) @ ''_diff.png'') m = Inr b" ..
  with assms show ?thesis
    by (simp add: create_diff_image_def write_images_def imwrite_def outcome_simps diff_view_of_def
        match_old_fst [of _ _ _ _ _ "_ :: state"])
qed

lemma diff_image_exact:
  fixes cv :: opencv and s :: state
  defines "v \<equiv> diff_view_of s" and "name \<equiv> output_name (arg s) @ ''_diff.png''"
  assumes "drawing_laws cv" and "rect_law cv" and "template_law cv"
    and "all_match cv v (old_segments s) (new_segments s)"
    and "\<forall>seg \<in> set (new_segments s). fits v seg \<and> target cv v seg \<noteq> None"
    and "\<And>m. \<exists>b. cv_imwrite cv name m = Inr b" and "\<not> create_change_image (arg s)"
  shows "\<exists>t m. create_diff_image cv os s = (Ret (), t) \<and> w_written t = w_written s @ [(name, m)] \<and>
    same_size m (old_gray_mat s) \<and> (\<forall>y x. inside m y x \<longrightarrow> pix m y x =
      (if old_segments s \<noteq> [] \<and> (\<exists>seg \<in> set (new_segments s). marks cv v seg y x) then (0, 0, 255)
       else let g = pix (old_gray_mat s) y x in (g, g, g)))"
proof -
  let ?g = "old_gray_mat s"
  have g: "v_old_gray v = ?g" by (simp add: v_def diff_view_of_def)
  obtain base where base: "cv_merge3 cv ?g ?g ?g = Inr base" "same_size base ?g"
    "\<forall>y x. inside base y x \<longrightarrow> pix base y x = (pix ?g y x, pix ?g y x, pix ?g y x)"
    using assms(3) unfolding drawing_laws_def same_size_def by blast
  from match_old_painted [OF assms(3-7), of base "()"] base(2) g
  obtain m where m: "fst (match_old cv v (new_segments s) (old_segments s) base ()) = Ret (Some m)"
    "same_size m base"
    "painted base (\<lambda>y x. old_segments s \<noteq> [] \<and> (\<exists>seg \<in> set (new_segments s). marks cv v seg y x)) m"
    by auto
  have "fst (create_diff_image cv os s) = Ret ()"
    using create_diff_image_returns [OF base(1)] m(1) assms(8) [unfolded name_def] assms(9)
    unfolding v_def by blast
  then obtain t where t: "create_diff_image cv os s = (Ret (), t)" by (metis prod.collapse)
  have "w_written t = w_written s @ [(name, m)]"
    by (rule create_diff_image_Ret [OF t])
      (use base(1) m(1) assms(9) in \<open>auto simp: changed_images_def name_def v_def\<close>)
  moreover have "same_size m ?g" using m(2) base(2) by (simp add: same_size_def)
  moreover have "inside m = inside base" using m(2) by (intro ext) (simp add: inside_def same_size_def)
  ultimately show ?thesis using t m(3) base(3) by (auto simp: painted_def Let_def)
qed

text \<open>
  C3. When every pair matches, the difference image is written and it is exact: a pixel is red if
  it lies on the outline of the place where some segment of the new image was found in the old
  one, or inside it where the colours of the two images differ; every other pixel shows the gray
  value of the old image. All accesses are inside the images.
\<close>

theorem diff_image_pixels:
  fixes cv :: opencv and s :: state
  defines "v \<equiv> diff_view_of s" and "name \<equiv> output_name (arg s) @ ''_diff.png''"
  assumes "drawing_laws cv" and "rect_law cv" and "template_law cv"
    and "all_match cv v (old_segments s) (new_segments s)"
    and "\<forall>seg \<in> set (new_segments s). fits v seg \<and> target cv v seg \<noteq> None"
    and "\<And>m. \<exists>b. cv_imwrite cv name m = Inr b" and "\<not> create_change_image (arg s)"
  shows "\<exists>t m. create_diff_image cv os s = (Ret (), t) \<and> w_written t = w_written s @ [(name, m)] \<and>
    same_size m (old_gray_mat s) \<and> (\<forall>y x. inside m y x \<longrightarrow> pix m y x =
      (if old_segments s \<noteq> [] \<and> (\<exists>seg \<in> set (new_segments s). marks cv v seg y x) then (0, 0, 255)
       else let g = pix (old_gray_mat s) y x in (g, g, g)))"
  unfolding v_def name_def
  by (rule diff_image_exact) (use assms in simp_all)

text \<open>
  In the build without \<open>ENABLE_PARALLEL\<close> no segment of the context is ever marked as matched:
  however \<open>create_diff_image\<close> ends, both lists of segments are what they were.
\<close>

lemma create_diff_image_marks_nothing:
  "old_segments (snd (create_diff_image cv os s)) = old_segments s \<and>
   new_segments (snd (create_diff_image cv os s)) = new_segments s"
  using keepsD [OF keeps_create_diff_image, of "old_segments s" "new_segments s" s cv os]
  by (simp add: segments_are_def)

text \<open>
  C36. Hence, when the images of the deleted and the added parts are asked for, they are written
  after the difference image, and although every segment has found its partner every segment of
  the old image is outlined as deleted and every segment of the new image as added.
\<close>

theorem matched_segments_drawn_as_changed:
  assumes "create_diff_image cv os s = (Ret u, t)" and "create_change_image (arg s)"
    and "all_match cv (diff_view_of s) (old_segments s) (new_segments s)"
    and "\<forall>seg \<in> set (old_segments s @ new_segments s). \<not> seg_matched seg"
  shows "\<exists>m fo fn io inw deleted added. old_file s = Some fo \<and> new_file s = Some fn \<and>
    decode_from_mapped_file cv fo IMREAD_COLOR = Inr io \<and> decode_from_mapped_file cv fn IMREAD_COLOR = Inr inw \<and>
    outline_all cv (map seg_area (old_segments s)) io = Inr deleted \<and>
    outline_all cv (map seg_area (new_segments s)) inw = Inr added \<and>
    w_written t = w_written s @ [(output_name (arg s) @ ''_diff.png'', m),
      (output_name (arg s) @ ''_delete.png'', deleted), (output_name (arg s) @ ''_add.png'', added)]"
proof -
  from assms(1) obtain base r where r: "fst (match_old cv (diff_view_of s) (new_segments s) (old_segments s) base ()) = Ret r"
    and w: "case r of None \<Rightarrow> w_written t = w_written s
      | Some m \<Rightarrow> \<exists>files. changed_images cv s files \<and>
          w_written t = w_written s @ (output_name (arg s) @ ''_diff.png'', m) # files"
    by (rule create_diff_image_Ret)
  have "match_old cv (diff_view_of s) (new_segments s) (old_segments s) base () = (Ret r, ())"
    using r by (simp add: match_old_Ret_iff)
  from match_old_Ret [OF this] assms(3) obtain m where m: "r = Some m" by auto
  have call: "fst (call x ()) = Ret y \<longleftrightarrow> x = Inr y" for x and y :: "bgr mat"
    by (cases x) (simp_all add: prog_simps)
  have drawn: "draw_not_matched cv (old_segments s) io = call (outline_all cv (map seg_area (old_segments s)) io)"
    "draw_not_matched cv (new_segments s) io = call (outline_all cv (map seg_area (new_segments s)) io)" for io
    using assms(4) by (simp_all add: draw_not_matched_outline)
  show ?thesis using w m assms(2) by (auto simp: changed_images_def drawn call)
qed

text \<open>
  C37. Nothing in the code keeps the place of a segment inside the old image: if the rectangle that
  template matching suggests is not empty and leaves it, for example because the new image is
  larger than the old one, the loops read outside the old image, which is undefined behaviour.
\<close>

theorem highlight_outside_undefined:
  assumes "target cv v seg = Some rect" and "0 < rwidth rect" and "0 < rheight rect"
    and "\<not> rect_in rect (v_old_color v)" and "cv_rectangle cv m rect (cv_RGB cv 255 0 0) 1 = Inr m'"
  shows "\<exists>what. highlight cv v seg m s = (Halt (Undefined what), s)"
proof -
  from assms(1) obtain r p where r: "cv_matchTemplate_sqdiff cv (v_old_gray v) (seg_roi seg) = Inr r"
    and p: "cv_min_loc cv r = Inr p" and rect: "rect = rect_from cv seg p"
    by (auto simp: target_def split: sum.splits)
  obtain i j where "(i, j) \<in> set (rect_offsets rect)" "\<not> inside (v_old_color v) (i + ry rect) (j + rx rect)"
    using rect_outside_pixel [OF assms(2-4)] by blast
  then obtain what where "paint_pixels v (seg_area seg) rect (rect_offsets rect) m' = Inl (Undefined what)"
    using paint_pixels_outside by blast
  with r p assms(5) show ?thesis by (simp add: highlight_def Let_def prog_simps flip: rect)
qed

section \<open>Examples\<close>

definition paired :: state where
  "paired = loaded\<lparr>old_segments := [sample_segment], new_segments := [sample_segment]\<rparr>"

lemma drawing_laws_sample: "drawing_laws sample_cv"
  by (simp add: drawing_laws_def sample_cv_def same_size_def scalar_bgr_def)

lemma template_law_sample: "template_law sample_cv"
  by (auto simp: template_law_def sample_cv_def mat_const_def)

lemma sample_matches: "matches sample_cv v sample_segment sample_segment"
  by (simp add: matches_def descriptor_match_def sample_cv_def median_close_count prog_simps)

lemma sample_usable: "usable sample_segment"
  by (simp add: usable_def sample_segment_def image_segment_with_def mat_empty_def mat_const_def)

lemma paired_all_match: "all_match sample_cv v (old_segments paired) (new_segments paired)"
  by (simp add: all_match_def paired_def sample_usable sample_matches)

lemma paired_fits: "\<forall>seg \<in> set (new_segments paired). fits (diff_view_of paired) seg"
  by (simp add: paired_def fits_def diff_view_of_def loaded_def sample_segment_def image_segment_with_def
      same_size_def mat_const_def rect_in_def)

lemma paired_target: "target sample_cv v sample_segment = Some \<lparr>rx = 0, ry = 0, rwidth = 1, rheight = 1\<rparr>"
  by (simp add: target_def sample_cv_def rect_from_def sample_segment_def image_segment_with_def)

lemma paired_fields [simp]: "new_segments paired = [sample_segment]" "old_segments paired = [sample_segment]"
  "w_written paired = []" "output_name (arg paired) = ''out''" "\<not> create_change_image (arg paired)"
  by (simp_all add: paired_def loaded_def initial_state_def default_options_def)

theorem diff_image_pixels_witness:
  "\<exists>t m. create_diff_image sample_cv sample_os paired = (Ret (), t) \<and> w_written t = [(''out_diff.png'', m)] \<and>
     pix m 0 0 = (0, 0, 255) \<and> pix m 1 1 = (7, 7, 7)"
proof -
  have "\<forall>seg \<in> set (new_segments paired). fits (diff_view_of paired) seg \<and>
      target sample_cv (diff_view_of paired) seg \<noteq> None"
    using paired_fits by (simp add: paired_target)
  moreover have "\<And>m. \<exists>b. cv_imwrite sample_cv (output_name (arg paired) @ ''_diff.png'') m = Inr b"
    by (auto simp: sample_cv_def)
  ultimately obtain t m where "create_diff_image sample_cv sample_os paired = (Ret (), t)"
    and "w_written t = [(''out_diff.png'', m)]" and size: "same_size m (old_gray_mat paired)"
    and pix: "\<forall>y x. inside m y x \<longrightarrow> pix m y x =
      (if marks sample_cv (diff_view_of paired) sample_segment y x then (0, 0, 255)
       else let g = pix (old_gray_mat paired) y x in (g, g, g))"
    using diff_image_pixels [OF drawing_laws_sample rect_law_sample template_law_sample paired_all_match,
        where os = sample_os] by auto
  moreover have "inside m 0 0" "inside m 1 1"
    using size by (simp_all add: same_size_def inside_def paired_def loaded_def mat_const_def)
  ultimately show ?thesis
    by (auto simp: marks_def paired_target on_border_def in_rect_def paired_def loaded_def mat_const_def)
qed

definition unpaired :: state where
  "unpaired = loaded\<lparr>old_segments := [sample_segment\<lparr>seg_descriptor := no_mat 0\<rparr>], new_segments := [sample_segment]\<rparr>"

theorem diff_needs_every_pair_witness:
  "\<exists>t. create_diff_image sample_cv sample_os unpaired = (Ret (), t) \<and> w_written t = []"
proof -
  have "fst (create_diff_image sample_cv sample_os unpaired) = Ret ()"
    by (simp add: create_diff_image_def outcome_simps unpaired_def no_mat_def mat_empty_def sample_cv_def)
  then obtain t where t: "create_diff_image sample_cv sample_os unpaired = (Ret (), t)" by (metis prod.collapse)
  have "\<not> all_match sample_cv (diff_view_of unpaired) (old_segments unpaired) (new_segments unpaired)"
    by (simp add: all_match_def unpaired_def usable_def no_mat_def mat_empty_def)
  with diff_needs_every_pair [OF t] t show ?thesis
    by (auto simp: unpaired_def loaded_def initial_state_def)
qed

definition with_changes :: state where
  "with_changes = paired\<lparr>arg := (arg paired)\<lparr>create_change_image := True\<rparr>,
     old_file := Some \<lparr>mf_name = ''o'', mf_data = Some [1], mf_size = 1, mf_mtime = 0\<rparr>,
     new_file := Some \<lparr>mf_name = ''n'', mf_data = Some [1], mf_size = 1, mf_mtime = 0\<rparr>\<rparr>"

theorem matched_segments_drawn_as_changed_witness:
  "\<exists>t d. create_diff_image sample_cv sample_os with_changes = (Ret (), t) \<and>
     map fst (w_written t) = [''out_diff.png'', ''out_delete.png'', ''out_add.png''] \<and>
     outline_all sample_cv [seg_area sample_segment] (mat_const 2 2 (7, 7, 7)) = Inr d"
proof -
  have "fst (create_diff_image sample_cv sample_os with_changes) = Ret ()" by code_simp
  then obtain t where t: "create_diff_image sample_cv sample_os with_changes = (Ret (), t)" by (metis prod.collapse)
  have segs: "old_segments with_changes = [sample_segment]" "new_segments with_changes = [sample_segment]"
    by (simp_all add: with_changes_def)
  have "all_match sample_cv (diff_view_of with_changes) (old_segments with_changes) (new_segments with_changes)"
    by (simp add: segs all_match_def sample_usable sample_matches)
  moreover have "\<forall>seg \<in> set (old_segments with_changes @ new_segments with_changes). \<not> seg_matched seg"
    using sample_usable by (simp add: segs usable_def)
  ultimately show ?thesis
    using matched_segments_drawn_as_changed [OF t] t
    by (auto simp: segs with_changes_def decode_from_mapped_file_def sample_cv_def)
qed

text \<open>A new segment that is wider than the old image.\<close>

theorem highlight_outside_undefined_witness:
  "\<exists>what. highlight sample_cv (diff_view_of paired)
     (sample_segment\<lparr>seg_area := \<lparr>rx = 0, ry = 0, rwidth = 3, rheight = 1\<rparr>\<rparr>) (mat_const 2 2 (7, 7, 7)) () =
     (Halt (Undefined what), ())"
proof (rule highlight_outside_undefined)
  show "target sample_cv (diff_view_of paired) (sample_segment\<lparr>seg_area := \<lparr>rx = 0, ry = 0, rwidth = 3, rheight = 1\<rparr>\<rparr>) =
      Some \<lparr>rx = 0, ry = 0, rwidth = 3, rheight = 1\<rparr>"
    by (simp add: target_def sample_cv_def rect_from_def)
  show "cv_rectangle sample_cv (mat_const 2 2 (7, 7, 7)) \<lparr>rx = 0, ry = 0, rwidth = 3, rheight = 1\<rparr>
      (cv_RGB sample_cv 255 0 0) 1 = Inr (projr (cv_rectangle sample_cv (mat_const 2 2 (7, 7, 7))
      \<lparr>rx = 0, ry = 0, rwidth = 3, rheight = 1\<rparr> (cv_RGB sample_cv 255 0 0) 1))"
    by (simp add: sample_cv_def)
qed (simp_all add: rect_in_def diff_view_of_def paired_def loaded_def mat_const_def)

end
