(* ===== verification/Main_Program.thy ===== *)
theory Main_Program
  imports Diff
begin

text \<open>
  \<open>main\<close> of \<open>main.cc\<close> in the build without \<open>ENABLE_PARALLEL\<close>: the stages in their order, the exit
  status, the report, and the destruction of the context. The theorem here is that the stages
  alone decide how the process ends and that the timer records are a forest whenever they are
  reported; the lemmas on resources and on runs that end well are used for the whole run.
\<close>

section \<open>The program\<close>

text \<open>The members of the context are destroyed in the opposite order of their declaration.\<close>

definition context_dtor :: "state \<Rightarrow> state" where
  "context_dtor s =
     (delete_file (new_file s) (delete_file (old_file s) s))\<lparr>old_file := None, new_file := None\<rparr>"

definition stages :: "opencv \<Rightarrow> os \<Rightarrow> string list \<Rightarrow> unit act" where
  "stages cv os argv =
     bnd (upd (\<lambda>s. s\<lparr>cmdline_args := cmdline_args s @ argv\<rparr>)) (\<lambda>_.
     bnd (parse_args Serial os) (\<lambda>_.
     bnd (load_image cv os) (\<lambda>_.
     bnd (check_histogram_differential cv os) (\<lambda>diff_check. case diff_check of
       Inr err \<Rightarrow> fatal err
     | Inl same \<Rightarrow>
         if same then fatal ''two images are same''
         else
           bnd (detect_segments cv os) (\<lambda>_.
           create_diff_image cv os)))))"

definition main :: "opencv \<Rightarrow> os \<Rightarrow> string list \<Rightarrow> int act" where
  "main cv os argv =
     bnd (with_timer os ''all'' None (\<lambda>t_all.
       bnd (stages cv os argv) (\<lambda>_.
       bnd (upd (timer_stop os t_all)) (\<lambda>_.
       bnd (ask (\<lambda>s. perf (arg s))) (\<lambda>p.
       bnd (if p then print_timer_records os else ret ()) (\<lambda>_.
       ret 0)))))) (\<lambda>status.
     bnd (upd context_dtor) (\<lambda>_. ret status))"

section \<open>The timer records are a forest at every moment\<close>

text \<open>A program that leaves the records alone keeps every invariant that only looks at them.\<close>

definition quiet :: "'a act \<Rightarrow> bool" where
  "quiet p \<longleftrightarrow> (\<forall>s. timer_records (snd (p s)) = timer_records s)"

lemma quiet_keeps: "quiet p \<Longrightarrow> keeps (timers_from n) p"
  by (simp add: quiet_def keeps_def timers_from_def)

lemma quiet_upd: "(\<And>s. timer_records (f s) = timer_records s) \<Longrightarrow> keeps (timers_from n) (upd f)"
  by (intro quiet_keeps) (simp add: quiet_def upd_def)

lemma quiet_fatal: "quiet (fatal msg)"
  by (simp add: quiet_def fatal_def sync_out_err_def)

lemma quiet_fatal_errno [simp]: "timer_records (snd (fatal_errno os msg s)) = timer_records s"
  by (simp add: fatal_errno_def errno_string_def fatal_def sync_out_err_def Let_def)

lemma quiet_must_open: "quiet (must_open os path)"
proof -
  have "quiet (mapped_file_open os path)"
    by (auto simp: quiet_def mapped_file_open_def Let_def split: sum.split)
  then show ?thesis
    by (auto simp: quiet_def must_open_def outcome_bnd outcome_rules split: outcome.split option.split)
qed

lemma quiet_delete_file: "timer_records (delete_file f s) = timer_records s"
  by (simp add: delete_file_def mapped_file_dtor_def split: option.split)

lemma forest_scope:
  assumes "parent_below n parent" and "\<And>k m. n \<le> m \<Longrightarrow> k < m \<Longrightarrow> keeps (timers_from m) (body k)"
  shows "keeps (timers_from n) (with_timer os name parent body)"
  using assms by (intro forest.keeps_with_timer) auto

lemma parent_none [simp]: "parent_below n None"
  by (simp add: parent_below_def)

lemma parent_some [simp]: "parent_below n (Some p) \<longleftrightarrow> p < n"
  by (simp add: parent_below_def)

lemma forest_parse_args: "keeps (timers_from n) (parse_args b os)"
  unfolding parse_args_def
proof (rule forest_scope)
  fix m :: nat
  show "keeps (timers_from m) (\<lambda>s. let (ar, stop) = parse_loop (arg s) (tl (cmdline_args s)); s1 = s\<lparr>arg := ar\<rparr>
     in case stop of Some st \<Rightarrow> stop_parsing (hd (cmdline_args s)) st s1
      | None \<Rightarrow> if arg_new_file ar = [] then fatal (quote ''-new'' @ '' option is required'') s1
        else if arg_old_file ar = [] then fatal (quote ''-old'' @ '' option is required'') s1
        else (Ret (), s1\<lparr>arg := fill_defaults b ar\<rparr>))"
    by (rule quiet_keeps)
      (auto simp: quiet_def stop_parsing_def usage_def fatal_def sync_out_err_def halt_def Let_def
        split: prod.split option.split parse_stop.split)
qed simp

lemma forest_load_both: "keeps (timers_from n) (bnd (load_new cv os) (\<lambda>_. load_old cv os))"
  unfolding load_new_def load_old_def reset_new_file_def reset_old_file_def
  by (intro keeps_intros quiet_upd quiet_keeps [OF quiet_must_open]) (simp_all add: quiet_delete_file)

lemma forest_load_image: "keeps (timers_from n) (load_image cv os)"
  unfolding load_image_def by (intro forest_scope forest_load_both) simp

lemma forest_check: "keeps (timers_from n) (check_histogram_differential cv os)"
  unfolding check_histogram_differential_def preprocess_image_def
  by (intro forest_scope keeps_intros) simp_all

lemma forest_split: "keeps (timers_from n) (split_segments cv os g c th)"
  unfolding split_segments_def
  by (intro forest_scope keeps_intros forest.keeps_timer_stop keeps_stateless)
    (simp_all add: label_image_stateless [of _ _ _ _ "_ :: state"])

lemma forest_do_detect:
  assumes "t < n" and "\<And>f s. timer_records (upd_res f s) = timer_records s"
  shows "keeps (timers_from n) (do_detect cv os t g c res upd_res)"
  unfolding do_detect_def emplace_segment_def describe_segment_def
  using assms
  by (intro forest_scope keeps_intros quiet_upd forest_split keeps_stateless)
    (simp_all add: compute_descriptor_stateless [of _ _ "_ :: state"])

lemma forest_detect: "keeps (timers_from n) (detect_segments cv os)"
  unfolding detect_segments_def
  by (intro forest_scope keeps_intros forest_do_detect) simp_all

lemma forest_diff: "keeps (timers_from n) (create_diff_image cv os)"
  unfolding create_diff_image_def write_images_def
  by (intro forest_scope keeps_intros keeps_stateless [OF match_old_snd] keeps_imwrite keeps_change_image)
    (simp_all add: timers_from_def)

lemma forest_stages: "keeps (timers_from n) (stages cv os argv)"
  unfolding stages_def
  by (intro keeps_intros quiet_upd forest_parse_args forest_load_image forest_check forest_detect forest_diff
      quiet_keeps [OF quiet_fatal]) simp_all

section \<open>The report has no influence\<close>

lemma wf_after_stages:
  "wf_timers (timer_records (snd (stages cv os argv (snd (timer_new os ''all'' None initial_state)))))"
proof -
  have "timers_from 0 (snd (timer_new os ''all'' None initial_state))"
    using forest.J_new [of 0 initial_state None os "''all''"]
    by (auto simp: timers_from_def initial_state_def)
  then have "timers_from 0 (snd (stages cv os argv (snd (timer_new os ''all'' None initial_state))))"
    by (rule keepsD [OF forest_stages])
  then show ?thesis by (simp add: timers_from_def)
qed

lemma report_outcome:
  assumes "wf_timers (timer_records s)"
  shows "fst (print_timer_records os s) = Ret ()"
  using report_complete [OF assms, of os] by force

lemma wf_timers_stop: "wf_timers (timer_records s) \<Longrightarrow> wf_timers (timer_records (timer_stop os k s))"
  using forest.J_stop [of 0 s os k] by (simp add: timers_from_def)

lemma main_result:
  fixes cv :: opencv and os :: os and argv :: "string list"
  defines "s \<equiv> snd (timer_new os ''all'' None initial_state)"
  shows "fst (main cv os argv initial_state) = then_outcome (fst (stages cv os argv s)) (\<lambda>_. Ret 0) \<and>
    wf_timers (timer_records (snd (stages cv os argv s)))"
proof -
  have "wf_timers (timer_records (snd (stages cv os argv s)))"
    unfolding s_def by (rule wf_after_stages)
  moreover from this have "fst (print_timer_records os (timer_stop os k (snd (stages cv os argv s)))) = Ret ()" for k
    by (intro report_outcome wf_timers_stop)
  ultimately show ?thesis
    by (cases "fst (stages cv os argv s)") (simp_all add: main_def outcome_simps s_def [symmetric])
qed

section \<open>Resources\<close>

definition resources :: "state \<Rightarrow> int \<times> int \<times> mapped_file option \<times> mapped_file option" where
  "resources s = (w_fds s, w_maps s, new_file s, old_file s)"

definition holds :: "int \<times> int \<times> mapped_file option \<times> mapped_file option \<Rightarrow> state \<Rightarrow> bool" where
  "holds r s \<longleftrightarrow> resources s = r"

interpretation held: timer_blind "holds r" for r
  by unfold_locales (simp add: holds_def resources_def)

lemma holds_upd: "(\<And>s. resources (f s) = resources s) \<Longrightarrow> keeps (holds r) (upd f)"
  by (rule keeps_upd) (simp add: holds_def)

lemma holds_parse: "keeps (holds r) (parse_args b os)"
  unfolding parse_args_def
  by (rule held.keeps_scope, rule keepsI)
    (auto simp: holds_def resources_def stop_parsing_def usage_def fatal_def sync_out_err_def halt_def Let_def
      split: prod.split option.split parse_stop.split)

lemma holds_check: "keeps (holds r) (check_histogram_differential cv os)"
  unfolding check_histogram_differential_def preprocess_image_def
  by (intro held.keeps_scope keeps_intros)

lemma holds_stop: "keeps (holds r) (upd (timer_stop os k))"
  by (rule held.scopes.keeps_timer_stop)

lemma holds_split: "keeps (holds r) (split_segments cv os g c th)"
  unfolding split_segments_def
  by (intro held.keeps_scope keeps_intros holds_stop keeps_stateless)
    (simp_all add: label_image_stateless [of _ _ _ _ "_ :: state"])

lemma holds_do_detect:
  assumes "\<And>f s. resources (upd_res f s) = resources s"
  shows "keeps (holds r) (do_detect cv os t g c res upd_res)"
proof -
  have "keeps (holds r) (compute_descriptor cv img)" for img
    by (rule keeps_stateless) (simp add: compute_descriptor_stateless [of _ _ "_ :: state"])
  then show ?thesis unfolding do_detect_def emplace_segment_def describe_segment_def
    by (intro held.keeps_scope keeps_call keeps_ask keeps_ret keeps_bnd keeps_option keeps_for_each holds_upd
        holds_split assms)
qed

lemma holds_detect: "keeps (holds r) (detect_segments cv os)"
  unfolding detect_segments_def
  by (intro held.keeps_scope keeps_intros holds_do_detect) (simp_all add: resources_def)

lemma holds_diff: "keeps (holds r) (create_diff_image cv os)"
  unfolding create_diff_image_def write_images_def
  by (intro held.keeps_scope keeps_intros keeps_stateless [OF match_old_snd] keeps_imwrite keeps_change_image)
    (simp_all add: holds_def resources_def)

section \<open>A run that ends well\<close>

lemma stages_Ret:
  assumes "stages cv os argv s = (Ret u, t)"
  obtains s1 s2 s3 s4 where "parse_args Serial os (s\<lparr>cmdline_args := cmdline_args s @ argv\<rparr>) = (Ret (), s1)"
    and "load_image cv os s1 = (Ret (), s2)" and "check_histogram_differential cv os s2 = (Ret (Inl False), s3)"
    and "detect_segments cv os s3 = (Ret (), s4)" and "create_diff_image cv os s4 = (Ret (), t)"
  using assms unfolding stages_def by (auto elim!: bnd_RetE split: sum.splits if_splits)

text \<open>The report changes the timers and the standard output only.\<close>

lemma report_frame:
  obtains c r out where "snd (print_timer_records os s) = s\<lparr>w_clock := c, timer_records := r, w_out := out\<rparr>"
proof -
  let ?s1 = "fold (timer_stop os) [0..<length (timer_records s)] s"
  obtain c where c: "?s1 = s\<lparr>w_clock := c, timer_records := timer_records ?s1\<rparr>" by (rule stop_all_frame)
  have "\<exists>r out. snd (print_timer_records os s) = ?s1\<lparr>timer_records := r, w_out := out\<rparr>"
    unfolding print_timer_records_def Let_def
    by (auto split: option.split intro!: exI [of _ "w_out ?s1"]) (metis state.surjective ctx.surjective)
  then obtain r out where "snd (print_timer_records os s) = ?s1\<lparr>timer_records := r, w_out := out\<rparr>" by blast
  then have "snd (print_timer_records os s) = s\<lparr>w_clock := c, timer_records := r, w_out := out\<rparr>"
    by (subst (asm) c) simp
  then show thesis by (rule that)
qed

lemma main_Ret:
  assumes "main cv os argv initial_state = (Ret status, t)"
  obtains t1 where "stages cv os argv (snd (timer_new os ''all'' None initial_state)) = (Ret (), t1)"
    and "status = 0" and "resources t = resources (context_dtor t1)"
    and "w_written t = w_written t1" and "w_err t = w_err t1"
proof -
  from assms obtain t1 t2 k where t1: "stages cv os argv (snd (timer_new os ''all'' None initial_state)) = (Ret (), t1)"
    and t2: "(if perf (arg t1) then print_timer_records os else ret ()) (timer_stop os k t1) = (Ret (), t2)"
    and t: "t = context_dtor (timer_stop os k t2)" and st: "status = 0"
    unfolding main_def by (auto elim!: bnd_RetE with_timer_Ret)
  obtain c r out where fr: "t2 = (timer_stop os k t1)\<lparr>w_clock := c, timer_records := r, w_out := out\<rparr>"
  proof (cases "perf (arg t1)")
    case True
    with t2 that show thesis by (auto intro: report_frame [of os "timer_stop os k t1"])
  next
    case False
    with t2 have "t2 = (timer_stop os k t1)\<lparr>w_clock := w_clock t2, timer_records := timer_records t2, w_out := w_out t2\<rparr>"
      by simp
    then show thesis by (rule that)
  qed
  have dtor: "w_written (context_dtor x) = w_written x" "w_err (context_dtor x) = w_err x" for x
    by (simp_all add: context_dtor_def delete_file_def mapped_file_dtor_def split: option.split)
  have "resources t = resources (context_dtor t1)"
    by (simp add: t fr resources_def context_dtor_def delete_file_effect)
  with t1 st show thesis by (intro that) (simp_all add: t fr dtor)
qed

text \<open>After loading, the files and the resources stay as they are until the context is destroyed.\<close>

lemma stages_resources:
  assumes "stages cv os argv s = (Ret u, t)" and "resources s = (0, 0, None, None)" and "sizes_ok os"
  shows "resources_ok t"
proof -
  from assms(1) obtain s1 s2 s3 s4 where
    s1: "parse_args Serial os (s\<lparr>cmdline_args := cmdline_args s @ argv\<rparr>) = (Ret (), s1)"
    and s2: "load_image cv os s1 = (Ret (), s2)" and s3: "check_histogram_differential cv os s2 = (Ret (Inl False), s3)"
    and s4: "detect_segments cv os s3 = (Ret (), s4)" and t: "create_diff_image cv os s4 = (Ret (), t)"
    by (rule stages_Ret)
  have "holds (0, 0, None, None) (s\<lparr>cmdline_args := cmdline_args s @ argv\<rparr>)"
    using assms(2) by (simp add: holds_def resources_def)
  from keepsD [OF holds_parse this, of Serial os] have "resources_ok s1"
    by (simp add: s1 holds_def resources_def resources_ok_def maps_of_def)
  moreover have "arg_new_file (arg s1) \<noteq> []" "arg_old_file (arg s1) \<noteq> []"
    using s1 by (auto elim!: parse_args_Ret simp: fill_defaults_simps)
  ultimately have "resources_ok s2" using load_image_result [OF s2 assms(3)] by blast
  moreover have "resources t = resources s2"
    using keepsD [OF holds_check, of "resources s2" s2 cv os] keepsD [OF holds_detect, of "resources s2" s3 cv os]
      keepsD [OF holds_diff, of "resources s2" s4 cv os] s3 s4 t by (simp add: holds_def)
  ultimately show ?thesis by (simp add: resources_ok_def resources_def)
qed

end
