(* ===== verification/Timing.thy ===== *)
theory Timing
  imports Main_Program
begin

text \<open>
  The timers measure and do nothing else: two runs of the program on systems that differ only in
  the clock and in the resource usage end the same way, write the same images and print the same
  diagnostics. The rules follow the program text stage by stage.
\<close>

section \<open>Agreement up to the timers\<close>

text \<open>
  Two programs agree when, started in states that differ only in the timers, they end the same
  way in states that differ only in the timers.
\<close>

definition agree :: "'a act \<Rightarrow> 'a act \<Rightarrow> bool" where
  "agree p q \<longleftrightarrow> (\<forall>s s'. same_but_timers s s' \<longrightarrow>
     fst (p s) = fst (q s') \<and> same_but_timers (snd (p s)) (snd (q s')))"

named_theorems agree_intros \<open>programs that agree up to the timers\<close>

lemma agreeI:
  assumes "\<And>s c r. p (s\<lparr>w_clock := c, timer_records := r\<rparr>) =
    (fst (p s), (snd (p s))\<lparr>w_clock := c, timer_records := r\<rparr>)"
  shows "agree p p"
  unfolding agree_def
proof (intro allI impI)
  fix s s' assume "same_but_timers s s'"
  then obtain c r where "s' = s\<lparr>w_clock := c, timer_records := r\<rparr>" by (auto simp: same_but_timers_def)
  then show "fst (p s) = fst (p s') \<and> same_but_timers (snd (p s)) (snd (p s'))"
    by (simp add: assms same_but_timersI)
qed

lemma agree_stateless: "(\<And>s. p s = (r, s)) \<Longrightarrow> agree p p"
  by (simp add: agree_def)

lemma agree_ret [agree_intros]: "agree (ret x) (ret x)"
  by (rule agree_stateless) (simp add: ret_def)

lemma agree_halt [agree_intros]: "agree (halt h) (halt h)"
  by (rule agree_stateless) (simp add: halt_def)

lemma agree_call [agree_intros]: "agree (call r) (call r)"
  by (cases r) (simp_all add: agree_intros)

lemma agree_ask [agree_intros]:
  "(\<And>s c r. f (s\<lparr>w_clock := c, timer_records := r\<rparr>) = f s) \<Longrightarrow> agree (ask f) (ask f)"
  by (rule agreeI) (simp add: ask_def)

lemma agree_upd [agree_intros]:
  "(\<And>s c r. f (s\<lparr>w_clock := c, timer_records := r\<rparr>) = (f s)\<lparr>w_clock := c, timer_records := r\<rparr>) \<Longrightarrow>
   agree (upd f) (upd f)"
  by (rule agreeI) (simp add: upd_def)

lemma agree_stop: "agree (upd (timer_stop os k)) (upd (timer_stop os' k'))"
  unfolding agree_def upd_def
  using same_but_timers_stop same_but_timers_sym same_but_timers_trans by (metis fst_conv snd_conv)

lemma agree_bnd [agree_intros]:
  assumes "agree p q" and "\<And>x. agree (f x) (g x)"
  shows "agree (bnd p f) (bnd q g)"
  unfolding agree_def
proof (intro allI impI)
  fix s s' assume "same_but_timers s s'"
  with assms(1) have "fst (p s) = fst (q s')" "same_but_timers (snd (p s)) (snd (q s'))"
    by (auto simp: agree_def)
  with assms(2) show "fst (bnd p f s) = fst (bnd q g s') \<and> same_but_timers (snd (bnd p f s)) (snd (bnd q g s'))"
    by (auto simp: outcome_bnd agree_def split: outcome.split)
qed

lemma agree_if [agree_intros]: "agree p q \<Longrightarrow> agree p' q' \<Longrightarrow> agree (if b then p else p') (if b then q else q')"
  by simp

lemma agree_option [agree_intros]:
  "agree p q \<Longrightarrow> (\<And>x. agree (f x) (g x)) \<Longrightarrow>
   agree (case r of None \<Rightarrow> p | Some x \<Rightarrow> f x) (case r of None \<Rightarrow> q | Some x \<Rightarrow> g x)"
  by (cases r) simp_all

lemma agree_prod [agree_intros]:
  "(\<And>x y. agree (f x y) (g x y)) \<Longrightarrow> agree (case r of (x, y) \<Rightarrow> f x y) (case r of (x, y) \<Rightarrow> g x y)"
  by (cases r) simp

lemma agree_sum [agree_intros]:
  "(\<And>x. agree (f x) (f' x)) \<Longrightarrow> (\<And>x. agree (g x) (g' x)) \<Longrightarrow>
   agree (case r of Inl x \<Rightarrow> f x | Inr x \<Rightarrow> g x) (case r of Inl x \<Rightarrow> f' x | Inr x \<Rightarrow> g' x)"
  by (cases r) simp_all

lemma agree_for_each [agree_intros]:
  "(\<And>x. agree (f x) (g x)) \<Longrightarrow> agree (for_each xs f) (for_each xs g)"
  by (induction xs) (simp_all add: agree_intros)

lemma agree_with_timer [agree_intros]:
  assumes "\<And>k k'. agree (f k) (g k')"
  shows "agree (with_timer os name parent f) (with_timer os' name parent' g)"
  unfolding agree_def
proof (intro allI impI)
  fix s s' assume ss: "same_but_timers s s'"
  let ?k = "length (timer_records s)" and ?k' = "length (timer_records s')"
  obtain s1 s1' where new: "timer_new os name parent s = (?k, s1)" "timer_new os' name parent' s' = (?k', s1')"
    by (metis timer_new_frame)
  then have "same_but_timers s1 s1'"
    using ss same_but_timers_new same_but_timers_sym same_but_timers_trans by (metis snd_conv)
  with assms have "fst (f ?k s1) = fst (g ?k' s1')" "same_but_timers (snd (f ?k s1)) (snd (g ?k' s1'))"
    by (auto simp: agree_def)
  then show "fst (with_timer os name parent f s) = fst (with_timer os' name parent' g s') \<and>
      same_but_timers (snd (with_timer os name parent f s)) (snd (with_timer os' name parent' g s'))"
    using agree_stop [of os ?k os' ?k']
    by (auto simp: with_timer_body [OF new(1)] with_timer_body [OF new(2)] agree_def upd_def
        split: prod.splits outcome.splits)
qed

lemma agree_fatal [agree_intros]: "agree (fatal msg) (fatal msg)"
  by (rule agreeI) (simp add: fatal_def sync_out_err_def)

section \<open>The stages\<close>

text \<open>The same system with another clock and other resource usage.\<close>

definition other_times :: "os \<Rightarrow> (nat \<Rightarrow> int \<times> int) \<Rightarrow> (nat \<Rightarrow> (int \<times> int) \<times> (int \<times> int)) \<Rightarrow> os" where
  "other_times os clock rusage = os\<lparr>os_clock := clock, os_rusage := rusage\<rparr>"

lemma other_times_fields [simp]:
  "os_open (other_times os clock rusage) = os_open os" "os_fstat (other_times os clock rusage) = os_fstat os"
  "os_mmap (other_times os clock rusage) = os_mmap os"
  "os_strerror_r (other_times os clock rusage) = os_strerror_r os"
  by (simp_all add: other_times_def)

lemma other_times_errno [simp]: "fatal_errno (other_times os clock rusage) msg = fatal_errno os msg"
  by (rule ext) (simp add: fatal_errno_def errno_string_def)

lemma other_times_open: "must_open (other_times os clock rusage) path = must_open os path"
proof -
  have "mapped_file_open (other_times os clock rusage) path = mapped_file_open os path"
    by (rule ext) (simp add: mapped_file_open_def Let_def split: sum.split)
  then show ?thesis by (simp add: must_open_def cong: option.case_cong)
qed

lemma agree_fatal_errno: "agree (fatal_errno os msg) (fatal_errno os msg)"
  by (rule agreeI) (simp add: fatal_errno_def errno_string_def fatal_def sync_out_err_def Let_def)

lemma agree_open: "agree (mapped_file_open os path) (mapped_file_open os path)"
  by (rule agreeI) (auto simp: mapped_file_open_def Let_def fatal_errno_def errno_string_def fatal_def
      sync_out_err_def split: sum.split)

lemma agree_must_open [agree_intros]: "agree (must_open os path) (must_open (other_times os clock rusage) path)"
  unfolding other_times_open unfolding must_open_def
  by (intro agree_intros agree_open agree_fatal_errno)

lemma agree_parse: "agree (parse_args b os) (parse_args b os')"
  unfolding parse_args_def
  by (intro agree_with_timer agreeI)
    (auto simp: stop_parsing_def usage_def fatal_def sync_out_err_def halt_def Let_def
      split: prod.split option.split parse_stop.split)

lemma agree_load: "agree (load_image cv os) (load_image cv (other_times os clock rusage))"
proof -
  have "agree (upd (reset_new_file mf)) (upd (reset_new_file mf))"
    "agree (upd (reset_old_file mf)) (upd (reset_old_file mf))" for mf
    by (intro agree_upd, simp add: reset_new_file_def reset_old_file_def delete_file_def mapped_file_dtor_def
        split: option.split)+
  then show ?thesis unfolding load_image_def load_new_def load_old_def
    by (intro agree_with_timer agree_bnd agree_if agree_ret agree_must_open agree_call) (simp_all add: agree_intros)
qed

lemma agree_check: "agree (check_histogram_differential cv os) (check_histogram_differential cv os')"
  unfolding check_histogram_differential_def preprocess_image_def
  by (intro agree_intros) simp

lemma agree_split: "agree (split_segments cv os g c th) (split_segments cv os' g c th)"
proof -
  have "agree (label_image cv g c th) (label_image cv g c th)"
    by (rule agree_stateless) (rule label_image_stateless)
  then show ?thesis unfolding split_segments_def
    by (intro agree_with_timer agree_bnd agree_option agree_ret agree_stop)
qed

lemma agree_detect: "agree (detect_segments cv os) (detect_segments cv os')"
proof -
  have "agree (compute_descriptor cv img) (compute_descriptor cv img)" for img
    by (rule agree_stateless) (rule compute_descriptor_stateless)
  then show ?thesis
    unfolding detect_segments_def do_detect_def emplace_segment_def describe_segment_def
    by (intro agree_with_timer agree_bnd agree_prod agree_ask agree_split agree_for_each agree_call agree_upd
        agree_option agree_ret) simp_all
qed

lemma agree_imwrite: "agree (imwrite cv name m) (imwrite cv name m)"
  unfolding imwrite_def by (intro agree_intros) simp

lemma agree_diff: "agree (create_diff_image cv os) (create_diff_image cv os')"
proof -
  have match: "agree (match_old cv v news olds m) (match_old cv v news olds m)" for v news olds m
    by (rule agree_stateless) (simp add: prod_eq_iff, rule match_old_fst)
  have draw: "agree (draw_not_matched cv segs m) (draw_not_matched cv segs m)" for segs m
    by (rule agree_stateless) (simp add: prod_eq_iff, rule draw_not_matched_fst)
  have change: "agree (change_image cv f segs suffix) (change_image cv f segs suffix)"
    if "\<And>s c r. f (s\<lparr>w_clock := c, timer_records := r\<rparr>) = f s"
      "\<And>s c r. segs (s\<lparr>w_clock := c, timer_records := r\<rparr>) = segs s" for f segs suffix
    unfolding change_image_def
    by (intro agree_bnd agree_prod agree_ask agree_option agree_halt agree_call draw agree_imwrite) (simp add: that)
  show ?thesis unfolding create_diff_image_def write_images_def
    by (intro agree_with_timer agree_bnd agree_prod agree_ask agree_call agree_option agree_ret agree_if
        match agree_imwrite change) (simp_all add: diff_view_of_def)
qed

lemma agree_stages: "agree (stages cv os argv) (stages cv (other_times os clock rusage) argv)"
  unfolding stages_def
  by (intro agree_bnd agree_upd agree_parse agree_load agree_check agree_sum agree_if agree_fatal
      agree_detect agree_diff) simp_all

section \<open>The whole run\<close>

lemma main_end:
  fixes cv :: opencv and os :: os and argv :: "string list"
  defines "s \<equiv> snd (stages cv os argv (snd (timer_new os ''all'' None initial_state)))"
  shows "w_written (snd (main cv os argv initial_state)) = w_written s \<and>
    w_err (snd (main cv os argv initial_state)) = w_err s"
proof (cases "fst (stages cv os argv (snd (timer_new os ''all'' None initial_state)))")
  case (Halt h)
  obtain k s1 where new: "timer_new os ''all'' None initial_state = (k, s1)" by (metis surj_pair)
  then have "stages cv os argv s1 = (Halt h, s)" using Halt by (simp add: s_def prod_eq_iff)
  then have "main cv os argv initial_state = (Halt h, s)"
    by (simp add: main_def bnd_Halt with_timer_body [OF new])
  then show ?thesis by simp
next
  case (Ret u)
  then have "fst (main cv os argv initial_state) = Ret 0" using main_result [of cv os argv] by simp
  then obtain t where t: "main cv os argv initial_state = (Ret 0, t)" by (metis prod.collapse)
  show ?thesis by (rule main_Ret [OF t]) (simp add: s_def t)
qed

text \<open>
  C18. The clock and the resource usage have no influence on what the program does: on two systems
  that differ in nothing else, a run ends the same way, writes the same images in the same order
  and prints the same diagnostics.
\<close>

theorem time_has_no_influence:
  fixes cv :: opencv and os :: os and clock :: "nat \<Rightarrow> int \<times> int"
    and rusage :: "nat \<Rightarrow> (int \<times> int) \<times> (int \<times> int)"
  defines "os' \<equiv> other_times os clock rusage"
  shows "fst (main cv os' argv initial_state) = fst (main cv os argv initial_state) \<and>
    w_written (snd (main cv os' argv initial_state)) = w_written (snd (main cv os argv initial_state)) \<and>
    w_err (snd (main cv os' argv initial_state)) = w_err (snd (main cv os argv initial_state))"
proof -
  let ?s = "snd (timer_new os ''all'' None initial_state)" and ?s' = "snd (timer_new os' ''all'' None initial_state)"
  have "same_but_timers ?s ?s'"
    using same_but_timers_new same_but_timers_sym same_but_timers_trans by blast
  then have "fst (stages cv os argv ?s) = fst (stages cv os' argv ?s')"
    "same_but_timers (snd (stages cv os argv ?s)) (snd (stages cv os' argv ?s'))"
    using agree_stages [of cv os argv clock rusage] by (simp_all add: agree_def os'_def)
  then show ?thesis
    using main_result [of cv os argv] main_result [of cv os' argv] main_end [of cv os argv] main_end [of cv os' argv]
    by (auto simp: same_but_timers_def)
qed

end
