(* ===== verification/Whole_Run.thy ===== *)
theory Whole_Run
  imports Timing
begin

text \<open>
  Runs of the whole program, from the command line to the written images: what each stage does
  up to the timers, composed into the theorems on complete runs.
\<close>

section \<open>The stages up to the timers\<close>

lemma runs_direct:
  assumes "\<And>c tr. p (s\<lparr>w_clock := c, timer_records := tr\<rparr>) = (r, t\<lparr>w_clock := c, timer_records := tr\<rparr>)"
  shows "runs p s r t"
proof -
  have "fst (p s') = r \<and> same_but_timers t (snd (p s'))" if ss: "same_but_timers s s'" for s'
  proof -
    from ss obtain c tr where "s' = s\<lparr>w_clock := c, timer_records := tr\<rparr>" by (auto simp: same_but_timers_def)
    then show ?thesis by (simp add: assms same_but_timersI)
  qed
  then show ?thesis by (simp add: runs_def)
qed

lemma runs_parse:
  assumes "parse_loop (arg s) (tl (cmdline_args s)) = (ar, None)"
    and "arg_new_file ar \<noteq> []" and "arg_old_file ar \<noteq> []"
  shows "runs (parse_args b os) s (Ret ()) (s\<lparr>arg := fill_defaults b ar\<rparr>)"
  unfolding parse_args_def
proof (rule runs_with_timer)
  show "runs (\<lambda>s. let (ar, stop) = parse_loop (arg s) (tl (cmdline_args s)); s1 = s\<lparr>arg := ar\<rparr>
     in case stop of Some st \<Rightarrow> stop_parsing (hd (cmdline_args s)) st s1
      | None \<Rightarrow> if arg_new_file ar = [] then fatal (quote ''-new'' @ '' option is required'') s1
        else if arg_old_file ar = [] then fatal (quote ''-old'' @ '' option is required'') s1
        else (Ret (), s1\<lparr>arg := fill_defaults b ar\<rparr>)) s (Ret ()) (s\<lparr>arg := fill_defaults b ar\<rparr>)"
    by (rule runs_direct) (simp add: assms)
qed

text \<open>The mapped file that opening a path gives, when every call succeeds.\<close>

definition mapped :: "os \<Rightarrow> string \<Rightarrow> mapped_file option" where
  "mapped os path = (case os_open os path of
       Inl e \<Rightarrow> None
     | Inr fd \<Rightarrow> (case os_fstat os fd of
           Inl e \<Rightarrow> None
         | Inr st \<Rightarrow>
             (let mf = \<lparr>mf_name = path, mf_data = None, mf_size = st_size st, mf_mtime = mtime_nsec st\<rparr> in
              if 0 < st_size st
              then (case os_mmap os fd (st_size st) of
                      Inl e \<Rightarrow> None
                    | Inr bytes \<Rightarrow> Some (mf\<lparr>mf_data := Some bytes\<rparr>))
              else Some mf)))"

lemma must_open_mapped:
  assumes "mapped os path = Some mf"
  shows "must_open os path s = (Ret mf, s\<lparr>w_maps := w_maps s + (if 0 < mf_size mf then 1 else 0)\<rparr>)"
  using assms
  by (auto simp: mapped_def must_open_def mapped_file_open_def Let_def bnd_def ret_def
      split: sum.splits if_splits)

lemma runs_must_open:
  assumes "mapped os path = Some mf"
  shows "runs (must_open os path) s (Ret mf) (s\<lparr>w_maps := w_maps s + (if 0 < mf_size mf then 1 else 0)\<rparr>)"
  by (rule runs_direct) (simp add: must_open_mapped [OF assms])

text \<open>Both images as the program sees them after loading.\<close>

definition loads :: "opencv \<Rightarrow> os \<Rightarrow> string \<Rightarrow> mapped_file \<Rightarrow> bgr mat \<Rightarrow> u8 mat \<Rightarrow> bool" where
  "loads cv os path mf color gray \<longleftrightarrow> path \<noteq> [] \<and> mapped os path = Some mf \<and>
     decode_from_mapped_file cv mf IMREAD_COLOR = Inr color \<and> cv_bgr2gray cv color = Inr gray"

definition size_maps :: "mapped_file \<Rightarrow> int" where
  "size_maps mf = (if 0 < mf_size mf then 1 else 0)"

lemma runs_load_new:
  assumes "loads cv os (arg_new_file (arg s)) mf color gray" and "new_file s = None"
  shows "runs (load_new cv os) s (Ret ()) (s\<lparr>new_file := Some mf, new_color_mat := color, new_gray_mat := gray,
    w_maps := w_maps s + size_maps mf\<rparr>)"
  by (rule runs_direct)
    (use assms in \<open>simp add: load_new_def loads_def must_open_mapped reset_new_file_def delete_file_def
      size_maps_def upd_def\<close>)

lemma runs_load_old:
  assumes "loads cv os (arg_old_file (arg s)) mf color gray" and "old_file s = None"
  shows "runs (load_old cv os) s (Ret ()) (s\<lparr>old_file := Some mf, old_color_mat := color, old_gray_mat := gray,
    w_maps := w_maps s + size_maps mf\<rparr>)"
  by (rule runs_direct)
    (use assms in \<open>simp add: load_old_def loads_def must_open_mapped reset_old_file_def delete_file_def
      size_maps_def upd_def\<close>)

definition after_load :: "mapped_file \<Rightarrow> bgr mat \<Rightarrow> u8 mat \<Rightarrow> mapped_file \<Rightarrow> bgr mat \<Rightarrow> u8 mat \<Rightarrow> state \<Rightarrow> state" where
  "after_load nf nc ng mo oc og s = s\<lparr>new_file := Some nf, new_color_mat := nc, new_gray_mat := ng,
     old_file := Some mo, old_color_mat := oc, old_gray_mat := og,
     w_maps := w_maps s + size_maps nf + size_maps mo\<rparr>"

lemma runs_load_both:
  assumes "loads cv os (arg_new_file (arg s)) nf nc ng" and "loads cv os (arg_old_file (arg s)) mo oc og"
    and "new_file s = None" and "old_file s = None"
  shows "runs (bnd (load_new cv os) (\<lambda>_. load_old cv os)) s (Ret ()) (after_load nf nc ng mo oc og s)"
proof (rule runs_bnd)
  show "runs (load_new cv os) s (Ret ()) (s\<lparr>new_file := Some nf, new_color_mat := nc, new_gray_mat := ng,
      w_maps := w_maps s + size_maps nf\<rparr>)"
    using assms(1,3) by (rule runs_load_new)
  show "runs (load_old cv os) (s\<lparr>new_file := Some nf, new_color_mat := nc, new_gray_mat := ng,
      w_maps := w_maps s + size_maps nf\<rparr>) (Ret ()) (after_load nf nc ng mo oc og s)"
    using runs_load_old [of cv os "s\<lparr>new_file := Some nf, new_color_mat := nc, new_gray_mat := ng,
        w_maps := w_maps s + size_maps nf\<rparr>" mo oc og] assms(2,4) by (simp add: after_load_def)
qed

lemma runs_load:
  assumes "loads cv os (arg_new_file (arg s)) nf nc ng" and "loads cv os (arg_old_file (arg s)) mo oc og"
    and "new_file s = None" and "old_file s = None"
  shows "runs (load_image cv os) s (Ret ()) (after_load nf nc ng mo oc og s)"
  unfolding load_image_def by (intro runs_with_timer runs_load_both assms)

text \<open>The normalised histogram of an image, when every call succeeds.\<close>

definition histogram :: "opencv \<Rightarrow> bgr mat \<Rightarrow> rat mat \<Rightarrow> bool" where
  "histogram cv m n \<longleftrightarrow> (\<exists>hsv h. cv_bgr2hsv cv m = Inr hsv \<and>
     cv_calcHist cv hsv [0, 1] [256, 256] [(0, 180), (0, 256)] True False = Inr h \<and>
     cv_normalize_minmax cv h 0 1 = Inr n)"

lemma runs_preprocess: "histogram cv m n \<Longrightarrow> runs (preprocess_image cv os m) s (Ret n) s"
  unfolding preprocess_image_def histogram_def by (auto intro!: runs_with_timer simp: runs_ret)

lemma runs_check:
  assumes "\<not> mat_empty (old_color_mat s)" and "\<not> mat_empty (new_color_mat s)"
    and "histogram cv (old_color_mat s) n1" and "histogram cv (new_color_mat s) n2"
    and "cv_compareHist cv n1 n2 1 = Inr d"
  shows "runs (check_histogram_differential cv os) s (Ret (Inl (histograms_same d))) s"
  unfolding check_histogram_differential_def
proof (intro runs_with_timer runs_bnd [OF runs_ask], simp)
  show "runs (case (old_color_mat s, new_color_mat s) of (old, new) \<Rightarrow>
      if mat_empty old \<or> mat_empty new then ret (Inr ''failed to decode image file'')
      else bnd (preprocess_image cv os old) (\<lambda>hist_old_mat.
        bnd (preprocess_image cv os new) (\<lambda>hist_new_mat.
        bnd (call (cv_compareHist cv hist_old_mat hist_new_mat 1)) (\<lambda>d. ret (Inl (histograms_same d)))))) s
      (Ret (Inl (histograms_same d))) s"
    using assms
    by (auto intro!: runs_bnd [OF runs_preprocess [OF assms(3)]] runs_bnd [OF runs_preprocess [OF assms(4)]]
        simp: runs_ret)
qed

section \<open>After the command line\<close>

definition parsed_state :: "string list \<Rightarrow> options \<Rightarrow> state" where
  "parsed_state argv ar = initial_state\<lparr>cmdline_args := argv, arg := fill_defaults Serial ar\<rparr>"

lemma parsed_state_fields [simp]:
  "arg (parsed_state argv ar) = fill_defaults Serial ar" "w_err (parsed_state argv ar) = []"
  "w_written (parsed_state argv ar) = []" "new_file (parsed_state argv ar) = None"
  "old_file (parsed_state argv ar) = None" "old_segments (parsed_state argv ar) = []"
  "new_segments (parsed_state argv ar) = []"
  by (simp_all add: parsed_state_def initial_state_def)

lemma add_color_defaults [simp]: "add_color (fill_defaults b ar) msg = add_color ar msg"
  by (simp add: add_color_def fill_defaults_def Let_def)

lemma runs_after_parse:
  assumes "parse_loop default_options (tl argv) = (ar, None)"
    and "arg_new_file ar \<noteq> []" and "arg_old_file ar \<noteq> []"
    and "runs (bnd (load_image cv os) (\<lambda>_. bnd (check_histogram_differential cv os) (\<lambda>diff_check. case diff_check of
      Inr err \<Rightarrow> fatal err | Inl same \<Rightarrow> if same then fatal ''two images are same''
        else bnd (detect_segments cv os) (\<lambda>_. create_diff_image cv os)))) (parsed_state argv ar) r t"
  shows "runs (stages cv os argv) initial_state r t"
proof -
  let ?s = "initial_state\<lparr>cmdline_args := cmdline_args initial_state @ argv\<rparr>"
  have "runs (parse_args Serial os) ?s (Ret ()) (?s\<lparr>arg := fill_defaults Serial ar\<rparr>)"
    by (rule runs_parse) (use assms(1-3) in \<open>simp_all add: initial_state_def\<close>)
  also have "?s\<lparr>arg := fill_defaults Serial ar\<rparr> = parsed_state argv ar"
    by (simp add: parsed_state_def initial_state_def)
  finally have parse: "runs (parse_args Serial os) ?s (Ret ()) (parsed_state argv ar)" .
  have "runs (upd (\<lambda>s. s\<lparr>cmdline_args := cmdline_args s @ argv\<rparr>)) initial_state (Ret ()) ?s"
    by (rule runs_upd) simp
  then show ?thesis unfolding stages_def
    by (rule runs_bnd) (rule runs_bnd [OF parse], rule assms(4))
qed

section \<open>A run up to the difference image\<close>

text \<open>
  A run that reaches the last stage: the command line is complete, both files load, their
  histograms tell them apart, and the segments of both images are detected.
\<close>

definition good_run :: "opencv \<Rightarrow> os \<Rightarrow> string list \<Rightarrow> options \<Rightarrow> mapped_file \<Rightarrow> bgr mat \<Rightarrow> u8 mat \<Rightarrow>
    mapped_file \<Rightarrow> bgr mat \<Rightarrow> u8 mat \<Rightarrow> image_segment list \<Rightarrow> image_segment list \<Rightarrow> bool" where
  "good_run cv os argv ar nf nc ng mo oc og olds news \<longleftrightarrow>
     parse_loop default_options (tl argv) = (ar, None) \<and>
     loads cv os (arg_new_file ar) nf nc ng \<and> loads cv os (arg_old_file ar) mo oc og \<and>
     \<not> mat_empty nc \<and> \<not> mat_empty oc \<and>
     (\<exists>n1 n2 d. histogram cv oc n1 \<and> histogram cv nc n2 \<and> cv_compareHist cv n1 n2 1 = Inr d \<and>
        \<not> histograms_same d) \<and>
     detected cv (bin_threshold (fill_defaults Serial ar)) og oc = Ret olds \<and>
     detected cv (bin_threshold (fill_defaults Serial ar)) ng nc = Ret news"

definition diff_state :: "string list \<Rightarrow> options \<Rightarrow> mapped_file \<Rightarrow> bgr mat \<Rightarrow> u8 mat \<Rightarrow>
    mapped_file \<Rightarrow> bgr mat \<Rightarrow> u8 mat \<Rightarrow> image_segment list \<Rightarrow> image_segment list \<Rightarrow> state" where
  "diff_state argv ar nf nc ng mo oc og olds news =
     (after_load nf nc ng mo oc og (parsed_state argv ar))\<lparr>old_segments := olds, new_segments := news\<rparr>"

lemma diff_state_fields [simp]:
  "arg (diff_state argv ar nf nc ng mo oc og olds news) = fill_defaults Serial ar"
  "old_gray_mat (diff_state argv ar nf nc ng mo oc og olds news) = og"
  "old_color_mat (diff_state argv ar nf nc ng mo oc og olds news) = oc"
  "new_color_mat (diff_state argv ar nf nc ng mo oc og olds news) = nc"
  "old_segments (diff_state argv ar nf nc ng mo oc og olds news) = olds"
  "new_segments (diff_state argv ar nf nc ng mo oc og olds news) = news"
  "w_written (diff_state argv ar nf nc ng mo oc og olds news) = []"
  by (simp_all add: diff_state_def after_load_def parsed_state_def initial_state_def)

lemma agree_runs: "agree p p \<Longrightarrow> runs p s (fst (p s)) (snd (p s))"
  by (auto simp: agree_def runs_def)

lemma runs_stages:
  assumes good: "good_run cv os argv ar nf nc ng mo oc og olds news"
    and diff: "runs (create_diff_image cv os) (diff_state argv ar nf nc ng mo oc og olds news) r t"
  shows "runs (stages cv os argv) initial_state r t"
proof (rule runs_after_parse)
  let ?t = "parsed_state argv ar" and ?u = "after_load nf nc ng mo oc og (parsed_state argv ar)"
  from good show "parse_loop default_options (tl argv) = (ar, None)" "arg_new_file ar \<noteq> []" "arg_old_file ar \<noteq> []"
    by (simp_all add: good_run_def loads_def)
  have load: "runs (load_image cv os) ?t (Ret ()) ?u"
    by (rule runs_load)
      (use good in \<open>simp_all add: good_run_def fill_defaults_simps\<close>)
  from good obtain n1 n2 d where "histogram cv oc n1" "histogram cv nc n2" "cv_compareHist cv n1 n2 1 = Inr d"
    and d: "\<not> histograms_same d" by (auto simp: good_run_def)
  with good have check: "runs (check_histogram_differential cv os) ?u (Ret (Inl (histograms_same d))) ?u"
    by (intro runs_check [of _ _ n1 n2]) (simp_all add: good_run_def after_load_def)
  have "ends (detect_segments cv os) ?u (Ret (olds, news))
      (\<lambda>(olds, news). ?u\<lparr>old_segments := olds, new_segments := news\<rparr>)"
    using detect_segments_ends [of ?u cv os] good
    by (simp add: good_run_def after_load_def)
  then have detect: "runs (detect_segments cv os) ?u (Ret ()) (diff_state argv ar nf nc ng mo oc og olds news)"
    by (simp add: ends_runs diff_state_def)
  show "runs (bnd (load_image cv os) (\<lambda>_. bnd (check_histogram_differential cv os) (\<lambda>diff_check. case diff_check of
      Inr err \<Rightarrow> fatal err | Inl same \<Rightarrow> if same then fatal ''two images are same''
        else bnd (detect_segments cv os) (\<lambda>_. create_diff_image cv os)))) ?t r t"
    by (rule runs_bnd [OF load], rule runs_bnd [OF check]) (simp add: d runs_bnd [OF detect diff])
qed

lemma main_good_run:
  assumes good: "good_run cv os argv ar nf nc ng mo oc og olds news"
  defines "d \<equiv> create_diff_image cv os (diff_state argv ar nf nc ng mo oc og olds news)"
  shows "fst (main cv os argv initial_state) = then_outcome (fst d) (\<lambda>_. Ret 0) \<and>
    w_written (snd (main cv os argv initial_state)) = w_written (snd d)"
proof -
  let ?s = "snd (timer_new os ''all'' None initial_state)"
  have "runs (stages cv os argv) initial_state (fst d) (snd d)"
    unfolding d_def by (rule runs_stages [OF good], rule agree_runs [OF agree_diff])
  then have "fst (stages cv os argv ?s) = fst d" "same_but_timers (snd d) (snd (stages cv os argv ?s))"
    using same_but_timers_new unfolding runs_def by blast+
  then show ?thesis using main_result [of cv os argv] main_end [of cv os argv]
    by (auto simp: same_but_timers_def)
qed

section \<open>Complete runs\<close>

text \<open>What OpenCV documents of the conversion to gray: it keeps the size and refuses an empty image.\<close>

definition gray_law :: "opencv \<Rightarrow> bool" where
  "gray_law cv \<longleftrightarrow> (\<forall>m g. cv_bgr2gray cv m = Inr g \<longrightarrow> same_size g m \<and> \<not> mat_empty m)"

definition run_view :: "options \<Rightarrow> u8 mat \<Rightarrow> bgr mat \<Rightarrow> bgr mat \<Rightarrow> diff_view" where
  "run_view ar og oc nc = \<lparr>v_old_gray = og, v_old_color = oc, v_new_color = nc, v_cross = cross_check ar\<rparr>"

lemma diff_view_run: "diff_view_of (diff_state argv ar nf nc ng mo oc og olds news) = run_view ar og oc nc"
  by (simp add: diff_view_of_def run_view_def fill_defaults_def Let_def)

lemma placed_fits:
  assumes "placed ng seg" and "same_size ng nc" and "same_size nc oc" and "same_size og oc"
  shows "fits (run_view ar og oc nc) seg"
  using assms by (auto simp: fits_def placed_def run_view_def same_size_def rect_in_def sub_mat_def)

text \<open>
  C1. Two images of the same size whose segments all match: the run ends with status 0 and writes
  exactly one image, the difference image, which is exact pixel by pixel, and every access of the
  run to the images is in bounds.
\<close>

theorem run_writes_exact_difference:
  fixes cv :: opencv and os :: os and ar :: options and og :: "u8 mat" and oc nc :: "bgr mat"
  defines "v \<equiv> run_view ar og oc nc" and "name \<equiv> output_name (fill_defaults Serial ar) @ ''_diff.png''"
  assumes laws: "drawing_laws cv" "rect_law cv" "template_law cv" "size_laws cv" "roi_law cv" "gray_law cv"
    and good: "good_run cv os argv ar nf nc ng mo oc og olds news"
    and "same_size nc oc" and "all_match cv v olds news"
    and "\<forall>seg \<in> set news. target cv v seg \<noteq> None"
    and "\<And>m. \<exists>b. cv_imwrite cv name m = Inr b" and "\<not> create_change_image ar"
  shows "\<exists>t m. main cv os argv initial_state = (Ret 0, t) \<and> w_written t = [(name, m)] \<and> same_size m og \<and>
    (\<forall>y x. inside m y x \<longrightarrow> pix m y x =
      (if olds \<noteq> [] \<and> (\<exists>seg \<in> set news. marks cv v seg y x) then (0, 0, 255)
       else let g = pix og y x in (g, g, g)))"
proof -
  let ?d = "diff_state argv ar nf nc ng mo oc og olds news"
  have "same_size ng nc" "same_size og oc" and news: "detected cv (bin_threshold (fill_defaults Serial ar)) ng nc = Ret news"
    using good laws(6) by (auto simp: good_run_def loads_def gray_law_def)
  then have fits: "\<forall>seg \<in> set news. fits v seg \<and> target cv v seg \<noteq> None"
    using detected_placed [OF laws(4,2,5) news] placed_fits assms(10,12) unfolding v_def by blast
  have "\<exists>t m. create_diff_image cv os ?d = (Ret (), t) \<and> w_written t = w_written ?d @ [(name, m)] \<and>
      same_size m (old_gray_mat ?d) \<and> (\<forall>y x. inside m y x \<longrightarrow> pix m y x =
      (if old_segments ?d \<noteq> [] \<and> (\<exists>seg \<in> set (new_segments ?d). marks cv (diff_view_of ?d) seg y x) then (0, 0, 255)
       else let g = pix (old_gray_mat ?d) y x in (g, g, g)))"
    unfolding name_def diff_state_fields(1) [symmetric, of ar argv nf nc ng mo oc og olds news]
  proof (rule diff_image_exact [OF laws(1-3)])
    show "all_match cv (diff_view_of ?d) (old_segments ?d) (new_segments ?d)"
      using assms(11) by (simp add: diff_view_run v_def)
    show "\<forall>seg \<in> set (new_segments ?d). fits (diff_view_of ?d) seg \<and> target cv (diff_view_of ?d) seg \<noteq> None"
      using fits by (simp add: diff_view_run v_def)
    show "\<exists>b. cv_imwrite cv (output_name (arg ?d) @ ''_diff.png'') m = Inr b" for m
      using assms(13) [of m] by (simp add: name_def)
    show "\<not> create_change_image (arg ?d)" using assms(14) by (simp add: fill_defaults_def Let_def)
  qed
  then obtain t m where t: "create_diff_image cv os ?d = (Ret (), t)" "w_written t = [(name, m)]" "same_size m og"
    "\<forall>y x. inside m y x \<longrightarrow> pix m y x = (if olds \<noteq> [] \<and> (\<exists>seg \<in> set news. marks cv v seg y x)
       then (0, 0, 255) else let g = pix og y x in (g, g, g))"
    by (auto simp: diff_view_run v_def)
  with main_good_run [OF good] have "main cv os argv initial_state = (Ret 0, snd (main cv os argv initial_state))"
    "w_written (snd (main cv os argv initial_state)) = [(name, m)]" by (simp_all add: prod_eq_iff)
  with t(3,4) show ?thesis by blast
qed

text \<open>
  C19. Two images with segments of which one pair does not match, which is what a difference
  between the images normally means: if the run returns, it returns status 0 without having
  written any image.
\<close>

theorem run_silent_on_a_mismatch:
  assumes "good_run cv os argv ar nf nc ng mo oc og olds news"
    and "\<not> all_match cv (run_view ar og oc nc) olds news"
    and "main cv os argv initial_state = (Ret status, t)"
  shows "status = 0 \<and> w_written t = []"
proof -
  let ?d = "diff_state argv ar nf nc ng mo oc og olds news"
  from main_good_run [OF assms(1)] assms(3)
  have d: "then_outcome (fst (create_diff_image cv os ?d)) (\<lambda>_. Ret 0) = Ret status"
    "w_written t = w_written (snd (create_diff_image cv os ?d))" by simp_all
  then obtain u where "create_diff_image cv os ?d = (Ret u, snd (create_diff_image cv os ?d))"
    by (auto simp: then_outcome_Ret prod_eq_iff)
  from diff_written [OF this] d assms(2) show ?thesis by (auto simp: diff_view_run then_outcome_Ret)
qed

lemma runs_fatal:
  "runs (fatal msg) s (Halt (Exited 1)) (s\<lparr>w_err := w_err s @ add_color (arg s) ''fatal'' @ msg @ newline\<rparr>)"
  by (rule runs_direct) (simp add: fatal_def sync_out_err_def)

text \<open>A run of the stages from the start, and what \<open>main\<close> makes of it when the process ends early.\<close>

lemma main_early:
  assumes "runs (stages cv os argv) initial_state (Halt h) t"
  shows "fst (main cv os argv initial_state) = Halt h \<and>
    w_written (snd (main cv os argv initial_state)) = w_written t \<and>
    w_err (snd (main cv os argv initial_state)) = w_err t"
proof -
  let ?s = "snd (timer_new os ''all'' None initial_state)"
  from assms have "fst (stages cv os argv ?s) = Halt h" "same_but_timers t (snd (stages cv os argv ?s))"
    using same_but_timers_new unfolding runs_def by blast+
  then show ?thesis using main_result [of cv os argv] main_end [of cv os argv]
    by (auto simp: same_but_timers_def)
qed

lemma main_same:
  assumes "parse_loop default_options (tl argv) = (ar, None)"
    and "loads cv os (arg_new_file ar) nf nc ng" and "loads cv os (arg_old_file ar) mo oc og"
    and "\<not> mat_empty nc" and "\<not> mat_empty oc" and "histogram cv nc n" and "histogram cv oc n"
    and "cv_compareHist cv n n 1 = Inr (Fin 0)"
  shows "fst (main cv os argv initial_state) = Halt (Exited 1) \<and>
    w_written (snd (main cv os argv initial_state)) = [] \<and>
    w_err (snd (main cv os argv initial_state)) = add_color ar ''fatal'' @ ''two images are same'' @ newline"
proof -
  let ?u = "after_load nf nc ng mo oc og (parsed_state argv ar)"
  have load: "runs (load_image cv os) (parsed_state argv ar) (Ret ()) ?u"
    by (rule runs_load) (use assms in \<open>simp_all add: fill_defaults_simps\<close>)
  have check: "runs (check_histogram_differential cv os) ?u (Ret (Inl (histograms_same (Fin 0)))) ?u"
    by (rule runs_check [of _ _ n n]) (use assms in \<open>simp_all add: after_load_def\<close>)
  have run: "runs (stages cv os argv) initial_state (Halt (Exited 1))
      (?u\<lparr>w_err := w_err ?u @ add_color (arg ?u) ''fatal'' @ ''two images are same'' @ newline\<rparr>)"
  proof (rule runs_after_parse [OF assms(1)])
    show "arg_new_file ar \<noteq> []" "arg_old_file ar \<noteq> []" using assms(2,3) by (simp_all add: loads_def)
  qed (rule runs_bnd [OF load], rule runs_bnd [OF check], simp only: sum.case histograms_same_zero if_True, rule runs_fatal)
  show ?thesis using main_early [OF run] by (simp add: after_load_def)
qed

text \<open>
  C30. Two files that decode to the same image: the run ends with status 1, writes no image and
  says on the standard error that the images are the same. The chi-square distance of a histogram
  to itself is zero.
\<close>

theorem same_images_end_with_status_1:
  assumes "parse_loop default_options (tl argv) = (ar, None)"
    and "loads cv os (arg_new_file ar) nf img ng" and "loads cv os (arg_old_file ar) mo img og"
    and "\<not> mat_empty img" and "histogram cv img n" and "cv_compareHist cv n n 1 = Inr (Fin 0)"
  shows "fst (main cv os argv initial_state) = Halt (Exited 1) \<and>
    w_written (snd (main cv os argv initial_state)) = [] \<and>
    w_err (snd (main cv os argv initial_state)) = add_color ar ''fatal'' @ ''two images are same'' @ newline"
  using main_same [OF assms(1-4,4,5,5,6)] .

text \<open>\<open>cv::cvtColor\<close> refuses an empty image.\<close>

definition empty_law :: "opencv \<Rightarrow> bool" where
  "empty_law cv \<longleftrightarrow> (\<forall>m. mat_empty m \<longrightarrow> (\<exists>e. cv_bgr2gray cv m = Inl e))"

text \<open>Loading one file whose image cannot be converted to gray ends with the exception of the conversion.\<close>

lemma runs_load_new_throws:
  assumes "arg_new_file (arg s) \<noteq> []" and "mapped os (arg_new_file (arg s)) = Some mf" and "new_file s = None"
    and "decode_from_mapped_file cv mf IMREAD_COLOR = Inr img" and "cv_bgr2gray cv img = Inl e"
  shows "runs (load_new cv os) s (Halt (Uncaught e))
    (s\<lparr>w_maps := w_maps s + size_maps mf, new_file := Some mf, new_color_mat := img\<rparr>)"
  by (rule runs_direct)
    (use assms in \<open>simp add: load_new_def must_open_mapped reset_new_file_def delete_file_def size_maps_def halt_def\<close>)

lemma runs_load_old_throws:
  assumes "arg_old_file (arg s) \<noteq> []" and "mapped os (arg_old_file (arg s)) = Some mf" and "old_file s = None"
    and "decode_from_mapped_file cv mf IMREAD_COLOR = Inr img" and "cv_bgr2gray cv img = Inl e"
  shows "runs (load_old cv os) s (Halt (Uncaught e))
    (s\<lparr>w_maps := w_maps s + size_maps mf, old_file := Some mf, old_color_mat := img\<rparr>)"
  by (rule runs_direct)
    (use assms in \<open>simp add: load_old_def must_open_mapped reset_old_file_def delete_file_def size_maps_def halt_def\<close>)

lemma load_undecodable:
  assumes "empty_law cv" and "arg_new_file (arg s) \<noteq> []" and "arg_old_file (arg s) \<noteq> []"
    and "mapped os (arg_new_file (arg s)) = Some nf" and "decode_from_mapped_file cv nf IMREAD_COLOR = Inr nc"
    and "mapped os (arg_old_file (arg s)) = Some mo" and "decode_from_mapped_file cv mo IMREAD_COLOR = Inr oc"
    and "mat_empty nc \<or> mat_empty oc" and "new_file s = None" and "old_file s = None"
  obtains e t where "runs (load_image cv os) s (Halt (Uncaught e)) t" and "w_err t = w_err s" and "w_written t = w_written s"
proof (cases "cv_bgr2gray cv nc")
  case (Inl e)
  from runs_load_new_throws [OF assms(2,4,9,5) this] show thesis
    by (intro that [of e]) (unfold load_image_def, intro runs_with_timer runs_bnd_Halt, assumption, simp_all)
next
  case (Inr ng)
  then have "\<not> mat_empty nc" using assms(1) unfolding empty_law_def by fastforce
  with assms(1,8) obtain e where e: "cv_bgr2gray cv oc = Inl e" unfolding empty_law_def by blast
  let ?s = "s\<lparr>new_file := Some nf, new_color_mat := nc, new_gray_mat := ng, w_maps := w_maps s + size_maps nf\<rparr>"
  have new: "runs (load_new cv os) s (Ret ()) ?s"
    by (rule runs_load_new) (use Inr assms in \<open>simp_all add: loads_def\<close>)
  have "runs (load_old cv os) ?s (Halt (Uncaught e))
      (?s\<lparr>w_maps := w_maps ?s + size_maps mo, old_file := Some mo, old_color_mat := oc\<rparr>)"
    by (rule runs_load_old_throws [OF _ _ _ assms(7) e]) (use assms in simp_all)
  from runs_bnd [OF new this] show thesis
    by (intro that [of e]) (unfold load_image_def, intro runs_with_timer, assumption, simp_all)
qed

text \<open>
  C33. When either file does not decode, so that \<open>cv::imdecode\<close> gives an empty image, the run ends with
  an exception that nobody catches: nothing is printed on the standard error, although
  \<open>check_histogram_differential\<close> has a message for this case, and no image is written.
\<close>

theorem undecodable_image_is_not_reported:
  assumes "empty_law cv" and "parse_loop default_options (tl argv) = (ar, None)"
    and "arg_new_file ar \<noteq> []" and "arg_old_file ar \<noteq> []"
    and "mapped os (arg_new_file ar) = Some nf" and "decode_from_mapped_file cv nf IMREAD_COLOR = Inr nc"
    and "mapped os (arg_old_file ar) = Some mo" and "decode_from_mapped_file cv mo IMREAD_COLOR = Inr oc"
    and "mat_empty nc \<or> mat_empty oc"
  shows "(\<exists>e. fst (main cv os argv initial_state) = Halt (Uncaught e)) \<and>
    w_err (snd (main cv os argv initial_state)) = [] \<and> w_written (snd (main cv os argv initial_state)) = []"
proof -
  let ?s = "parsed_state argv ar"
  obtain e t where load: "runs (load_image cv os) ?s (Halt (Uncaught e)) t"
    and t: "w_err t = w_err ?s" "w_written t = w_written ?s"
    by (rule load_undecodable [OF assms(1), of ?s os nf nc mo oc])
      (use assms in \<open>simp_all add: fill_defaults_simps\<close>)
  have run: "runs (stages cv os argv) initial_state (Halt (Uncaught e)) t"
    by (rule runs_after_parse [OF assms(2-4)]) (rule runs_bnd_Halt [OF load])
  show ?thesis using main_early [OF run] t by simp
qed

text \<open>
  C10. A run whose \<open>main\<close> returns has exit status 0 and has given everything back: no file
  descriptor is open, and both files are unmapped.
\<close>

theorem main_releases_everything:
  assumes "main cv os argv initial_state = (Ret status, t)" and "sizes_ok os"
  shows "status = 0 \<and> w_fds t = 0 \<and> w_maps t = 0 \<and> new_file t = None \<and> old_file t = None"
proof -
  from assms(1) obtain t1 where t1: "stages cv os argv (snd (timer_new os ''all'' None initial_state)) = (Ret (), t1)"
    and status: "status = 0" and t: "resources t = resources (context_dtor t1)"
    by (rule main_Ret)
  have "resources (snd (timer_new os ''all'' None initial_state)) = (0, 0, None, None)"
    by (simp add: resources_def) (simp add: initial_state_def)
  with t1 assms(2) have "resources_ok t1" by (intro stages_resources)
  with t status show ?thesis
    by (simp add: resources_def resources_ok_def context_dtor_def delete_file_effect)
qed

section \<open>Examples\<close>

definition sample_options :: options where
  "sample_options = default_options\<lparr>arg_new_file := ''a.png'', arg_old_file := ''b.png'', bin_threshold := 0\<rparr>"

definition sample_file :: "string \<Rightarrow> mapped_file" where
  "sample_file path = \<lparr>mf_name = path, mf_data = Some [1, 2, 3, 4], mf_size = 4, mf_mtime = 1000000005\<rparr>"

lemma sample_options_parse: "parse_loop default_options (tl sample_args) = (sample_options, None)"
  using sample_loop by (simp add: sample_options_def)

lemma sample_mapped: "path \<noteq> ''missing'' \<Longrightarrow> mapped sample_os path = Some (sample_file path)"
proof -
  assume "path \<noteq> ''missing''"
  moreover have "mtime_nsec \<lparr>st_size = 4, st_mtim_sec = 1, st_mtim_nsec = 5\<rparr> = 1000000005" by code_simp
  ultimately show ?thesis by (simp add: mapped_def sample_os_def sample_file_def)
qed

lemma sample_loads:
  "path \<noteq> [] \<Longrightarrow> path \<noteq> ''missing'' \<Longrightarrow>
   loads sample_cv sample_os path (sample_file path) (mat_const 2 2 (7, 7, 7)) (mat_const 2 2 7)"
  by (simp add: loads_def sample_mapped decode_from_mapped_file_def sample_cv_def mat_const_def mat_map_def
      mat_empty_def)

lemma sample_histogram: "histogram sample_cv (mat_const 2 2 (7, 7, 7)) (mat_const 1 1 0)"
  by (simp add: histogram_def sample_cv_def mat_const_def mat_empty_def)

lemma sample_good_run:
  "good_run sample_cv sample_os sample_args sample_options (sample_file ''a.png'') (mat_const 2 2 (7, 7, 7))
     (mat_const 2 2 7) (sample_file ''b.png'') (mat_const 2 2 (7, 7, 7)) (mat_const 2 2 7)
     [sample_segment] [sample_segment]"
proof -
  have "\<exists>n1 n2 d. histogram sample_cv (mat_const 2 2 (7, 7, 7)) n1 \<and> histogram sample_cv (mat_const 2 2 (7, 7, 7)) n2 \<and>
      cv_compareHist sample_cv n1 n2 1 = Inr d \<and> \<not> histograms_same d"
    using sample_histogram by (intro exI conjI) (auto simp: sample_cv_def histograms_same_def)
  moreover have "\<not> mat_empty (mat_const 2 2 x)" for x :: bgr by (simp add: mat_empty_def mat_const_def)
  moreover have "arg_new_file sample_options = ''a.png''" "arg_old_file sample_options = ''b.png''"
    by (simp_all add: sample_options_def)
  ultimately show ?thesis
    by (simp add: good_run_def sample_options_parse sample_detected sample_loads)
qed

lemma gray_law_sample: "gray_law sample_cv"
  by (simp add: gray_law_def sample_cv_def same_size_def mat_map_def)

lemma sample_all_match: "all_match sample_cv v [sample_segment] [sample_segment]"
  by (simp add: all_match_def sample_usable sample_matches)

lemma sample_imwrite: "\<exists>b. cv_imwrite sample_cv name m = Inr b"
  by (auto simp: sample_cv_def)

theorem run_writes_exact_difference_witness:
  "\<exists>t m. main sample_cv sample_os sample_args initial_state = (Ret 0, t) \<and>
     w_written t = [(''image_difference_diff.png'', m)]"
proof -
  have "\<not> create_change_image sample_options" "output_name sample_options = []"
    by (simp_all add: sample_options_def default_options_def)
  then show ?thesis
    using run_writes_exact_difference [OF drawing_laws_sample rect_law_sample template_law_sample laws_sample
        gray_law_sample sample_good_run _ sample_all_match _ sample_imwrite]
    by (auto simp: same_size_def paired_target fill_defaults_simps)
qed

text \<open>The run of the example returns; shared by the examples below.\<close>

lemma sample_run: "\<exists>t. main sample_cv sample_os sample_args initial_state = (Ret 0, t)"
proof -
  let ?d = "diff_state sample_args sample_options (sample_file ''a.png'') (mat_const 2 2 (7, 7, 7)) (mat_const 2 2 7)
    (sample_file ''b.png'') (mat_const 2 2 (7, 7, 7)) (mat_const 2 2 7) [sample_segment] [sample_segment]"
  have "\<exists>t. create_diff_image sample_cv sample_os ?d = (Ret (), t)"
  proof -
    have "fits (diff_view_of ?d) sample_segment"
      by (simp add: diff_view_run fits_def run_view_def sample_segment_def image_segment_with_def same_size_def
          mat_const_def rect_in_def)
    moreover have "\<not> create_change_image (arg ?d)"
      by (simp add: fill_defaults_def sample_options_def default_options_def Let_def)
    ultimately show ?thesis
      using diff_image_exact [OF drawing_laws_sample rect_law_sample template_law_sample, of ?d sample_os]
      by (auto simp: sample_all_match paired_target sample_imwrite)
  qed
  then show ?thesis using main_good_run [OF sample_good_run] by (auto simp: prod_eq_iff)
qed

theorem main_releases_everything_witness:
  "\<exists>t. main sample_cv sample_os sample_args initial_state = (Ret 0, t) \<and> w_maps t = 0 \<and> w_fds t = 0"
proof -
  obtain t where t: "main sample_cv sample_os sample_args initial_state = (Ret 0, t)" using sample_run by blast
  have "sizes_ok sample_os" by (auto simp: sizes_ok_def sample_os_def)
  from main_releases_everything [OF t this] t show ?thesis by blast
qed

text \<open>Here the bytes of the old file do not decode.\<close>

theorem undecodable_image_is_not_reported_witness:
  "\<exists>e. fst (main (sample_cv\<lparr>cv_imdecode := \<lambda>d n fl. Inr (if d = Some [9] then no_mat (0, 0, 0) else mat_const 2 2 (7, 7, 7))\<rparr>)
     (sample_os\<lparr>os_open := \<lambda>path. Inr (if path = ''b.png'' then 4 else 3),
        os_mmap := \<lambda>fd n. Inr (if fd = 4 then [9] else [1])\<rparr>) sample_args initial_state) = Halt (Uncaught e)"
proof -
  let ?cv = "sample_cv\<lparr>cv_imdecode := \<lambda>d n fl. Inr (if d = Some [9] then no_mat (0, 0, 0) else mat_const 2 2 (7, 7, 7))\<rparr>"
  let ?os = "sample_os\<lparr>os_open := \<lambda>path. Inr (if path = ''b.png'' then 4 else 3),
    os_mmap := \<lambda>fd n. Inr (if fd = 4 then [9] else [1])\<rparr>"
  let ?f = "\<lambda>path data. \<lparr>mf_name = path, mf_data = Some data, mf_size = 4,
    mf_mtime = mtime_nsec \<lparr>st_size = 4, st_mtim_sec = 1, st_mtim_nsec = 5\<rparr>\<rparr>"
  have law: "empty_law ?cv" by (simp add: empty_law_def sample_cv_def)
  have files: "arg_new_file sample_options = ''a.png''" "arg_old_file sample_options = ''b.png''"
    by (simp_all add: sample_options_def)
  have "mapped ?os ''a.png'' = Some (?f ''a.png'' [1])" "mapped ?os ''b.png'' = Some (?f ''b.png'' [9])"
    by (simp_all add: mapped_def sample_os_def)
  moreover have "decode_from_mapped_file ?cv (?f ''a.png'' [1]) IMREAD_COLOR = Inr (mat_const 2 2 (7, 7, 7))"
    "decode_from_mapped_file ?cv (?f ''b.png'' [9]) IMREAD_COLOR = Inr (no_mat (0, 0, 0))"
    by (simp_all add: decode_from_mapped_file_def)
  ultimately show ?thesis
    using undecodable_image_is_not_reported [OF law sample_options_parse, unfolded files, of ?os "?f ''a.png'' [1]"
        "mat_const 2 2 (7, 7, 7)" "?f ''b.png'' [9]" "no_mat (0, 0, 0)"]
    by (simp add: mat_empty_def no_mat_def)
qed

theorem same_images_end_with_status_1_witness:
  "w_err (snd (main (sample_cv\<lparr>cv_compareHist := \<lambda>h1 h2 k. Inr (Fin 0)\<rparr>) sample_os sample_args initial_state)) =
     ''gazo-san: fatal: two images are same'' @ newline"
proof -
  let ?cv = "sample_cv\<lparr>cv_compareHist := \<lambda>h1 h2 k. Inr (Fin 0)\<rparr>"
  have files: "arg_new_file sample_options = ''a.png''" "arg_old_file sample_options = ''b.png''"
    and color: "add_color sample_options ''fatal'' = ''gazo-san: fatal: ''"
    by (simp_all add: sample_options_def default_options_def add_color_def)
  have loads: "loads ?cv sample_os path (sample_file path) (mat_const 2 2 (7, 7, 7)) (mat_const 2 2 7)"
    if "path \<noteq> []" "path \<noteq> ''missing''" for path
    using sample_loads [OF that] by (simp add: loads_def decode_from_mapped_file_def)
  have new: "loads ?cv sample_os (arg_new_file sample_options) (sample_file ''a.png'') (mat_const 2 2 (7, 7, 7)) (mat_const 2 2 7)"
    and old: "loads ?cv sample_os (arg_old_file sample_options) (sample_file ''b.png'') (mat_const 2 2 (7, 7, 7)) (mat_const 2 2 7)"
    by (simp_all add: files loads)
  have hist: "histogram ?cv (mat_const 2 2 (7, 7, 7)) (mat_const 1 1 0)"
    using sample_histogram by (simp add: histogram_def)
  have "\<not> mat_empty (mat_const 2 2 (7 :: u8, 7 :: u8, 7 :: u8))" by (simp add: mat_empty_def mat_const_def)
  from same_images_end_with_status_1 [OF sample_options_parse new old this hist] color show ?thesis by simp
qed

text \<open>The same example with descriptors that are too far apart to match.\<close>

definition far_cv :: opencv where
  "far_cv = sample_cv\<lparr>cv_flann_match := \<lambda>d1 d2. Inr [\<lparr>queryIdx = 0, trainIdx = 0, distance = 9\<rparr>]\<rparr>"

lemma far_fields:
  "cv_Rect far_cv = cv_Rect sample_cv" "cv_roi far_cv = cv_roi sample_cv"
  "cv_akaze_detect far_cv = cv_akaze_detect sample_cv" "cv_akaze_compute far_cv = cv_akaze_compute sample_cv"
  "cv_convert_32F far_cv = cv_convert_32F sample_cv"
  by (simp_all add: far_cv_def)

lemma far_label: "fst (label_image far_cv (mat_const 2 2 7) c th ()) = Ret (Some (mat_const 2 2 2))"
proof -
  have "label_loop far_cv [[\<lparr>px = 0, py = 0\<rparr>]] [(- 1, - 1, - 1, - 1)] 0 0 (mat_const 2 2 0) =
      Some (Inr (mat_const 2 2 1))"
    by (subst label_loop.simps, simp, subst label_loop.simps)
      (simp add: hier_next_def far_cv_def sample_cv_def mat_map_def mat_const_def)
  then show ?thesis
    by (simp add: label_image_def outcome_simps far_cv_def sample_cv_def mat_map_def mat_const_def)
qed

lemma far_rects: "segment_rects far_cv (mat_const 2 2 7) c th = segment_rects sample_cv (mat_const 2 2 7) c th"
proof -
  have "bfs far_cv = bfs sample_cv" unfolding bfs_def far_fields by (rule refl)
  then have "group_pixel far_cv = group_pixel sample_cv" unfolding group_pixel_def by (simp only:)
  then show ?thesis by (simp add: segment_rects_def far_label sample_label group_pixels_def)
qed

lemma far_detected: "detected far_cv th (mat_const 2 2 7) c = Ret [sample_segment]"
proof -
  have "cropped_segment far_cv = cropped_segment sample_cv" unfolding cropped_segment_def far_fields by (rule refl)
  moreover have "(compute_descriptor far_cv :: _ \<Rightarrow> (unit, _) prog) = compute_descriptor sample_cv"
    unfolding compute_descriptor_def far_fields by (rule refl)
  then have "described_segment far_cv = described_segment sample_cv"
    unfolding described_segment_def by (simp only:)
  ultimately show ?thesis using sample_detected [of th c] by (simp add: detected_def far_rects)
qed

theorem run_silent_on_a_mismatch_witness:
  "\<exists>t. main far_cv sample_os sample_args initial_state = (Ret 0, t) \<and> w_written t = []"
proof -
  let ?m = "mat_const 2 2 (7, 7, 7)" and ?g = "mat_const 2 2 7"
  let ?d = "diff_state sample_args sample_options (sample_file ''a.png'') ?m ?g (sample_file ''b.png'') ?m ?g
    [sample_segment] [sample_segment]"
  have good: "good_run far_cv sample_os sample_args sample_options (sample_file ''a.png'') ?m ?g
      (sample_file ''b.png'') ?m ?g [sample_segment] [sample_segment]"
    using sample_good_run unfolding good_run_def far_detected sample_detected
    by (simp add: loads_def decode_from_mapped_file_def histogram_def far_cv_def)
  have no: "\<not> matches far_cv v sample_segment sample_segment" for v
    by (simp add: matches_def descriptor_match_def far_cv_def median_close_count prog_simps)
  have "fst (create_diff_image far_cv sample_os ?d) = Ret ()"
    using sample_usable
    by (simp add: create_diff_image_def outcome_simps usable_def descriptor_match_def far_cv_def sample_cv_def
        diff_view_of_def median_close_count prog_simps bnd_def)
  then obtain t where "main far_cv sample_os sample_args initial_state = (Ret 0, t)"
    using main_good_run [OF good] by (metis prod.collapse then_outcome_simps(1))
  with run_silent_on_a_mismatch [OF good] no show ?thesis by (auto simp: all_match_def)
qed

end
