(* ===== verification/Parallel_Diff.thy ===== *)
theory Parallel_Diff
  imports Whole_Run
begin

text \<open>
  The two loops of \<open>create_diff_image\<close> in the build with \<open>ENABLE_PARALLEL\<close>, where they are
  \<open>tbb::parallel_for_each\<close>: one task per segment of the old image, and inside it one task per
  segment of the new image. The bodies are functions of their own there, so a \<open>return\<close> ends one
  task, and the segments are passed by reference, so \<open>matched\<close> is shared. The tasks run in any
  interleaving; a step is one access to shared data. \<open>cv::rectangle\<close> counts as one step: all
  tasks write the same colour.
\<close>

section \<open>The tasks\<close>

datatype outer_pc = Waiting | Spawned | Skipped

datatype task_pc =
    Check                              \<comment> \<open>before the test of the descriptor and of \<open>matched\<close>\<close>
  | Compare                            \<comment> \<open>before \<open>descriptor_match\<close>\<close>
  | Mark_old                           \<comment> \<open>before \<open>image_segment1.matched = true\<close>\<close>
  | Mark_new                           \<comment> \<open>before \<open>image_segment2.matched = true\<close>\<close>
  | Locate                             \<comment> \<open>before \<open>matchTemplate\<close> and \<open>minMaxLoc\<close>\<close>
  | Outline rect                       \<comment> \<open>before \<open>cv::rectangle\<close>\<close>
  | Paint rect "(int \<times> int) list"      \<comment> \<open>in the pixel loops, with the offsets still to visit\<close>
  | Finished
  | Returned                           \<comment> \<open>ended by the \<open>return\<close>\<close>
  | Failed halt                        \<comment> \<open>ended by an exception or by undefined behaviour\<close>

text \<open>
  The shared state: what the tasks have come to, the members \<open>matched\<close> of the segments, which are
  all of them that changes, and the image.
\<close>

record par =
  p_outer :: "nat \<Rightarrow> outer_pc"
  p_task :: "nat \<times> nat \<Rightarrow> task_pc"
  p_old_matched :: "nat \<Rightarrow> bool"
  p_new_matched :: "nat \<Rightarrow> bool"
  p_result :: "bgr mat"

definition par_start :: "image_segment list \<Rightarrow> image_segment list \<Rightarrow> bgr mat \<Rightarrow> par" where
  "par_start olds news result =
     \<lparr>p_outer = (\<lambda>_. Waiting), p_task = (\<lambda>_. Check), p_old_matched = (\<lambda>i. seg_matched (olds ! i)),
      p_new_matched = (\<lambda>j. seg_matched (news ! j)), p_result = result\<rparr>"

definition start_outer :: "image_segment list \<Rightarrow> nat \<Rightarrow> par \<Rightarrow> par" where
  "start_outer olds i s = s\<lparr>p_outer := (p_outer s)(i :=
     if mat_empty (seg_descriptor (olds ! i)) \<or> p_old_matched s i then Skipped else Spawned)\<rparr>"

definition goto :: "nat \<times> nat \<Rightarrow> task_pc \<Rightarrow> par \<Rightarrow> par" where
  "goto ij pc s = s\<lparr>p_task := (p_task s)(ij := pc)\<rparr>"

definition advance ::
  "opencv \<Rightarrow> diff_view \<Rightarrow> image_segment list \<Rightarrow> image_segment list \<Rightarrow> nat \<Rightarrow> nat \<Rightarrow> par \<Rightarrow> par"
where
  "advance cv v olds news i j s = (case p_task s (i, j) of
       Check \<Rightarrow>
         if mat_empty (seg_descriptor (news ! j)) \<or> p_new_matched s j then goto (i, j) Returned s
         else goto (i, j) Compare s
     | Compare \<Rightarrow>
         (case fst (descriptor_match cv (v_cross v) (seg_descriptor (olds ! i)) (seg_descriptor (news ! j)) ()) of
            Halt h \<Rightarrow> goto (i, j) (Failed h) s
          | Ret m \<Rightarrow> if m then goto (i, j) Mark_old s else goto (i, j) Returned s)
     | Mark_old \<Rightarrow> (goto (i, j) Mark_new s)\<lparr>p_old_matched := (p_old_matched s)(i := True)\<rparr>
     | Mark_new \<Rightarrow> (goto (i, j) Locate s)\<lparr>p_new_matched := (p_new_matched s)(j := True)\<rparr>
     | Locate \<Rightarrow>
         (case cv_matchTemplate_sqdiff cv (v_old_gray v) (seg_roi (news ! j)) of
            Inl e \<Rightarrow> goto (i, j) (Failed (Uncaught e)) s
          | Inr r \<Rightarrow> (case cv_min_loc cv r of
                Inl e \<Rightarrow> goto (i, j) (Failed (Uncaught e)) s
              | Inr p \<Rightarrow> goto (i, j) (Outline (rect_from cv (news ! j) p)) s))
     | Outline rect \<Rightarrow>
         (case cv_rectangle cv (p_result s) rect (cv_RGB cv 255 0 0) 1 of
            Inl e \<Rightarrow> goto (i, j) (Failed (Uncaught e)) s
          | Inr m \<Rightarrow> (goto (i, j) (Paint rect (rect_offsets rect)) s)\<lparr>p_result := m\<rparr>)
     | Paint rect ps \<Rightarrow>
         (case ps of
            [] \<Rightarrow> goto (i, j) Finished s
          | p # ps' \<Rightarrow>
              (case paint_pixel v (seg_area (news ! j)) rect p (p_result s) of
                 Inl h \<Rightarrow> goto (i, j) (Failed h) s
               | Inr m \<Rightarrow> (goto (i, j) (Paint rect ps') s)\<lparr>p_result := m\<rparr>))
     | Finished \<Rightarrow> s
     | Returned \<Rightarrow> s
     | Failed h \<Rightarrow> s)"

definition running :: "task_pc \<Rightarrow> bool" where
  "running pc = (case pc of Finished \<Rightarrow> False | Returned \<Rightarrow> False | Failed h \<Rightarrow> False | _ \<Rightarrow> True)"

text \<open>
  An exception in a task cancels the tasks of its loop that have not started; when the others have
  ended it leaves the body of the outer loop, and cancels what has not started there and in the
  loops inside (task_dispatcher.h and task_group_context.cpp of the vendored TBB).
\<close>

definition threw :: "image_segment list \<Rightarrow> par \<Rightarrow> nat \<Rightarrow> bool" where
  "threw news s i \<longleftrightarrow> p_outer s i = Spawned \<and> (\<exists>j < length news. \<exists>e. p_task s (i, j) = Failed (Uncaught e))"

definition stopped :: "image_segment list \<Rightarrow> image_segment list \<Rightarrow> par \<Rightarrow> bool" where
  "stopped olds news s \<longleftrightarrow>
     (\<exists>i < length olds. threw news s i \<and> (\<forall>j < length news. \<not> running (p_task s (i, j))))"

inductive par_step ::
  "opencv \<Rightarrow> diff_view \<Rightarrow> image_segment list \<Rightarrow> image_segment list \<Rightarrow> par \<Rightarrow> par \<Rightarrow> bool"
  for cv v olds news
where
  outer: "i < length olds \<Longrightarrow> p_outer s i = Waiting \<Longrightarrow> par_step cv v olds news s (start_outer olds i s)"
| inner: "i < length olds \<Longrightarrow> j < length news \<Longrightarrow> p_outer s i = Spawned \<Longrightarrow> running (p_task s (i, j)) \<Longrightarrow>
    par_step cv v olds news s (advance cv v olds news i j s)"
| drop_outer: "i < length olds \<Longrightarrow> p_outer s i = Waiting \<Longrightarrow> stopped olds news s \<Longrightarrow>
    par_step cv v olds news s (s\<lparr>p_outer := (p_outer s)(i := Skipped)\<rparr>)"
| drop_inner: "i < length olds \<Longrightarrow> j < length news \<Longrightarrow> p_outer s i = Spawned \<Longrightarrow> p_task s (i, j) = Check \<Longrightarrow>
    threw news s i \<or> stopped olds news s \<Longrightarrow> par_step cv v olds news s (goto (i, j) Returned s)"

inductive_cases par_stepE: "par_step cv v olds news s t"

lemma not_running: "\<not> running pc \<longleftrightarrow> pc = Finished \<or> pc = Returned \<or> (\<exists>h. pc = Failed h)"
  by (simp add: running_def split: task_pc.split)

text \<open>All tasks have ended.\<close>

definition quiescent :: "image_segment list \<Rightarrow> image_segment list \<Rightarrow> par \<Rightarrow> bool" where
  "quiescent olds news s \<longleftrightarrow> (\<forall>i < length olds. p_outer s i \<noteq> Waiting \<and>
     (p_outer s i = Spawned \<longrightarrow> (\<forall>j < length news. \<not> running (p_task s (i, j)))))"

lemma goto_simps [simp]:
  "p_outer (goto ij pc s) = p_outer s" "p_old_matched (goto ij pc s) = p_old_matched s"
  "p_new_matched (goto ij pc s) = p_new_matched s" "p_result (goto ij pc s) = p_result s"
  "p_task (goto ij pc s) = (p_task s)(ij := pc)"
  by (simp_all add: goto_def)

section \<open>Every schedule ends\<close>

text \<open>How many steps a task can still take.\<close>

definition paint_length :: "opencv \<Rightarrow> diff_view \<Rightarrow> image_segment \<Rightarrow> nat" where
  "paint_length cv v seg = (case target cv v seg of None \<Rightarrow> 0 | Some rect \<Rightarrow> length (rect_offsets rect))"

fun rank :: "nat \<Rightarrow> task_pc \<Rightarrow> nat" where
  "rank n Check = n + 8"
| "rank n Compare = n + 7"
| "rank n Mark_old = n + 6"
| "rank n Mark_new = n + 5"
| "rank n Locate = n + 4"
| "rank n (Outline rect) = length (rect_offsets rect) + 2"
| "rank n (Paint rect ps) = length ps + 1"
| "rank n Finished = 0"
| "rank n Returned = 0"
| "rank n (Failed h) = 0"

definition remaining ::
  "opencv \<Rightarrow> diff_view \<Rightarrow> image_segment list \<Rightarrow> image_segment list \<Rightarrow> par \<Rightarrow> nat"
where
  "remaining cv v olds news s =
     (\<Sum>i < length olds. if p_outer s i = Waiting then 1 else 0) +
     (\<Sum>(i, j) \<in> {..<length olds} \<times> {..<length news}. rank (paint_length cv v (news ! j)) (p_task s (i, j)))"

lemma advance_frame: "p_outer (advance cv v olds news i j s) = p_outer s"
  "ij \<noteq> (i, j) \<Longrightarrow> p_task (advance cv v olds news i j s) ij = p_task s ij"
  by (auto simp: advance_def split: task_pc.split list.split sum.split outcome.split)

lemma advance_rank:
  assumes "running (p_task s (i, j))"
  shows "rank (paint_length cv v (news ! j)) (p_task (advance cv v olds news i j s) (i, j)) <
    rank (paint_length cv v (news ! j)) (p_task s (i, j))"
  using assms
  by (auto simp: advance_def running_def paint_length_def target_def split: task_pc.split list.split sum.split outcome.split)

lemma outer_less:
  assumes "i < length olds" and "p_outer s i = Waiting" and "pc \<noteq> Waiting"
  shows "remaining cv v olds news (s\<lparr>p_outer := (p_outer s)(i := pc)\<rparr>) < remaining cv v olds news s"
proof -
  have "(\<Sum>k < length olds. if ((p_outer s)(i := pc)) k = Waiting then 1 else 0 :: nat) <
      (\<Sum>k < length olds. if p_outer s k = Waiting then 1 else 0)"
    by (rule sum_strict_mono_ex1) (use assms in auto)
  then show ?thesis by (simp add: remaining_def)
qed

lemma task_less:
  assumes "i < length olds" and "j < length news" and "p_outer t = p_outer s"
    and less: "rank (paint_length cv v (news ! j)) (p_task t (i, j)) < rank (paint_length cv v (news ! j)) (p_task s (i, j))"
    and same: "\<And>ij. ij \<noteq> (i, j) \<Longrightarrow> p_task t ij = p_task s ij"
  shows "remaining cv v olds news t < remaining cv v olds news s"
proof -
  let ?r = "\<lambda>s (k, l). rank (paint_length cv v (news ! l)) (p_task s (k, l))"
  have "sum (?r t) ({..<length olds} \<times> {..<length news}) < sum (?r s) ({..<length olds} \<times> {..<length news})"
  proof (rule sum_strict_mono_ex1)
    show "\<forall>x \<in> {..<length olds} \<times> {..<length news}. ?r t x \<le> ?r s x"
    proof
      fix x
      show "?r t x \<le> ?r s x"
        using less same [of x] by (cases "x = (i, j)") (simp, cases x, simp)
    qed
    show "\<exists>x \<in> {..<length olds} \<times> {..<length news}. ?r t x < ?r s x"
      using less assms(1,2) by (intro bexI [of _ "(i, j)"]) auto
  qed simp
  with assms(3) show ?thesis by (simp add: remaining_def)
qed

lemma step_remaining: "par_step cv v olds news s t \<Longrightarrow> remaining cv v olds news t < remaining cv v olds news s"
proof (induction rule: par_step.induct)
  case (outer i s)
  then show ?case unfolding start_outer_def by (intro outer_less) simp_all
next
  case (inner i j s)
  then show ?case using advance_rank [OF inner(4)] by (intro task_less [of i _ j]) (simp_all add: advance_frame)
next
  case (drop_outer i s)
  then show ?case by (intro outer_less) simp_all
next
  case (drop_inner i j s)
  then show ?case by (intro task_less [of i _ j]) simp_all
qed

lemma not_quiescent_steps:
  assumes "\<not> quiescent olds news s"
  shows "\<exists>t. par_step cv v olds news s t"
  using assms unfolding quiescent_def by (blast intro: par_step.intros)

interpretation tasks: bounded_system "par_step cv v olds news" "remaining cv v olds news" "quiescent olds news"
  for cv v olds news
  by unfold_locales (simp_all add: step_remaining not_quiescent_steps)

section \<open>What holds in every schedule\<close>

text \<open>
  The conditions: the documented behaviour of OpenCV, images and segments that fit, matching and
  template matching that do not throw, and segments that start unmatched.
\<close>

definition par_ok :: "opencv \<Rightarrow> diff_view \<Rightarrow> image_segment list \<Rightarrow> image_segment list \<Rightarrow> bgr mat \<Rightarrow> bool" where
  "par_ok cv v olds news base \<longleftrightarrow> drawing_laws cv \<and> rect_law cv \<and> template_law cv \<and>
     same_size base (v_old_gray v) \<and>
     (\<forall>seg \<in> set news. fits v seg \<and> target cv v seg \<noteq> None \<and> \<not> seg_matched seg) \<and>
     (\<forall>seg \<in> set olds. \<not> seg_matched seg) \<and>
     (\<forall>seg1 \<in> set olds. \<forall>seg2 \<in> set news. \<exists>b.
        fst (descriptor_match cv (v_cross v) (seg_descriptor seg1) (seg_descriptor seg2) ()) = Ret b)"

text \<open>A segment of the new image that some segment of the old image matches.\<close>

definition hit :: "opencv \<Rightarrow> diff_view \<Rightarrow> image_segment list \<Rightarrow> image_segment \<Rightarrow> bool" where
  "hit cv v olds seg2 \<longleftrightarrow> usable seg2 \<and> (\<exists>seg1 \<in> set olds. usable seg1 \<and> matches cv v seg1 seg2)"

definition pair_ok :: "opencv \<Rightarrow> diff_view \<Rightarrow> image_segment \<Rightarrow> image_segment \<Rightarrow> bool" where
  "pair_ok cv v seg1 seg2 \<longleftrightarrow> usable seg2 \<and> matches cv v seg1 seg2"

text \<open>
  What a task knows at each point, where \<open>nm\<close> says that the segment of the new image is marked.
\<close>

definition task_inv :: "opencv \<Rightarrow> diff_view \<Rightarrow> image_segment \<Rightarrow> image_segment \<Rightarrow> bool \<Rightarrow> task_pc \<Rightarrow> bool" where
  "task_inv cv v seg1 seg2 nm pc = (case pc of
       Check \<Rightarrow> True
     | Compare \<Rightarrow> usable seg2
     | Mark_old \<Rightarrow> pair_ok cv v seg1 seg2
     | Mark_new \<Rightarrow> pair_ok cv v seg1 seg2
     | Locate \<Rightarrow> pair_ok cv v seg1 seg2 \<and> nm
     | Outline rect \<Rightarrow> pair_ok cv v seg1 seg2 \<and> nm \<and> target cv v seg2 = Some rect
     | Paint rect ps \<Rightarrow> pair_ok cv v seg1 seg2 \<and> nm \<and> target cv v seg2 = Some rect \<and>
         set ps \<subseteq> set (rect_offsets rect)
     | Finished \<Rightarrow> pair_ok cv v seg1 seg2 \<and> nm
     | Returned \<Rightarrow> pair_ok cv v seg1 seg2 \<longrightarrow> nm
     | Failed h \<Rightarrow> False)"

text \<open>The task has marked its segment of the new image; the task has marked its segment of the old one.\<close>

definition passed :: "task_pc \<Rightarrow> bool" where
  "passed pc = (case pc of Locate \<Rightarrow> True | Outline _ \<Rightarrow> True | Paint _ _ \<Rightarrow> True | Finished \<Rightarrow> True | _ \<Rightarrow> False)"

definition marked_old :: "task_pc \<Rightarrow> bool" where
  "marked_old pc \<longleftrightarrow> pc = Mark_new \<or> passed pc"

text \<open>The pixels that a task has made sure of.\<close>

definition covers :: "opencv \<Rightarrow> diff_view \<Rightarrow> image_segment \<Rightarrow> task_pc \<Rightarrow> int \<Rightarrow> int \<Rightarrow> bool" where
  "covers cv v seg2 pc y x = (case pc of
       Paint rect ps \<Rightarrow> marks cv v seg2 y x \<and> (on_border rect y x \<or> (y - ry rect, x - rx rect) \<notin> set ps)
     | Finished \<Rightarrow> marks cv v seg2 y x
     | _ \<Rightarrow> False)"

definition flags_inv :: "opencv \<Rightarrow> diff_view \<Rightarrow> image_segment list \<Rightarrow> image_segment list \<Rightarrow> par \<Rightarrow> bool" where
  "flags_inv cv v olds news s \<longleftrightarrow>
     (\<forall>i < length olds. (p_outer s i = Spawned \<longrightarrow> usable (olds ! i)) \<and>
        (p_outer s i = Skipped \<longrightarrow> \<not> usable (olds ! i)) \<and>
        (p_outer s i \<noteq> Spawned \<longrightarrow> (\<forall>j < length news. p_task s (i, j) = Check))) \<and>
     (\<forall>i < length olds. \<forall>j < length news. task_inv cv v (olds ! i) (news ! j) (p_new_matched s j) (p_task s (i, j))) \<and>
     (\<forall>j < length news. p_new_matched s j \<longrightarrow> (\<exists>i < length olds. passed (p_task s (i, j)))) \<and>
     (\<forall>i < length olds. p_old_matched s i \<longleftrightarrow> (\<exists>j < length news. marked_old (p_task s (i, j))))"

definition image_inv :: "opencv \<Rightarrow> diff_view \<Rightarrow> image_segment list \<Rightarrow> image_segment list \<Rightarrow> bgr mat \<Rightarrow> par \<Rightarrow> bool" where
  "image_inv cv v olds news base s \<longleftrightarrow> (\<exists>P. painted base P (p_result s) \<and>
     (\<forall>y x. P y x \<longrightarrow> (\<exists>seg2 \<in> set news. hit cv v olds seg2 \<and> marks cv v seg2 y x)) \<and>
     (\<forall>i < length olds. \<forall>j < length news. \<forall>y x. covers cv v (news ! j) (p_task s (i, j)) y x \<longrightarrow> P y x))"

definition par_inv :: "opencv \<Rightarrow> diff_view \<Rightarrow> image_segment list \<Rightarrow> image_segment list \<Rightarrow> bgr mat \<Rightarrow> par \<Rightarrow> bool" where
  "par_inv cv v olds news base s \<longleftrightarrow> flags_inv cv v olds news s \<and> image_inv cv v olds news base s"

lemma par_inv_start:
  assumes "par_ok cv v olds news base"
  shows "par_inv cv v olds news base (par_start olds news base)"
proof -
  have "flags_inv cv v olds news (par_start olds news base)"
    using assms by (auto simp: flags_inv_def par_start_def task_inv_def marked_old_def passed_def par_ok_def)
  moreover have "image_inv cv v olds news base (par_start olds news base)"
    unfolding image_inv_def
    by (rule exI [of _ "\<lambda>y x. False"]) (simp add: painted_refl par_start_def covers_def)
  ultimately show ?thesis by (simp add: par_inv_def)
qed

lemma task_inv_mono: "task_inv cv v seg1 seg2 nm pc \<Longrightarrow> (nm \<Longrightarrow> nm') \<Longrightarrow> task_inv cv v seg1 seg2 nm' pc"
  by (auto simp: task_inv_def split: task_pc.splits)

text \<open>The steps that a task can take when nothing throws.\<close>

lemma advance_cases [consumes 7]:
  assumes ok: "par_ok cv v olds news base" and ij: "i < length olds" "j < length news"
    and inv: "task_inv cv v (olds ! i) (news ! j) (p_new_matched s j) (p_task s (i, j))"
    and nm: "\<not> seg_matched (news ! j)"
    and size: "same_size (p_result s) (v_old_gray v)" and run: "running (p_task s (i, j))"
  obtains
    (left) "p_task s (i, j) = Check \<or> p_task s (i, j) = Compare"
      "advance cv v olds news i j s = goto (i, j) Returned s"
      "pair_ok cv v (olds ! i) (news ! j) \<longrightarrow> p_new_matched s j"
  | (compare) "p_task s (i, j) = Check" "advance cv v olds news i j s = goto (i, j) Compare s" "usable (news ! j)"
  | (matching) "p_task s (i, j) = Compare" "advance cv v olds news i j s = goto (i, j) Mark_old s"
      "pair_ok cv v (olds ! i) (news ! j)"
  | (mark_old) "p_task s (i, j) = Mark_old"
      "advance cv v olds news i j s = (goto (i, j) Mark_new s)\<lparr>p_old_matched := (p_old_matched s)(i := True)\<rparr>"
  | (mark_new) "p_task s (i, j) = Mark_new"
      "advance cv v olds news i j s = (goto (i, j) Locate s)\<lparr>p_new_matched := (p_new_matched s)(j := True)\<rparr>"
  | (locate) rect where "p_task s (i, j) = Locate" "advance cv v olds news i j s = goto (i, j) (Outline rect) s"
      "target cv v (news ! j) = Some rect"
  | (outline) rect m where "p_task s (i, j) = Outline rect"
      "advance cv v olds news i j s = (goto (i, j) (Paint rect (rect_offsets rect)) s)\<lparr>p_result := m\<rparr>"
      "painted (p_result s) (on_border rect) m"
  | (paint) rect k l ps m where "p_task s (i, j) = Paint rect ((k, l) # ps)"
      "advance cv v olds news i j s = (goto (i, j) (Paint rect ps) s)\<lparr>p_result := m\<rparr>"
      "painted (p_result s) (\<lambda>y x. y = k + ry rect \<and> x = l + rx rect \<and> differs v (seg_area (news ! j)) rect y x) m"
  | (finish) rect where "p_task s (i, j) = Paint rect []" "advance cv v olds news i j s = goto (i, j) Finished s"
proof (cases "p_task s (i, j)")
  case Check
  show thesis
  proof (cases "mat_empty (seg_descriptor (news ! j)) \<or> p_new_matched s j")
    case True
    with Check show thesis by (intro left) (auto simp: advance_def usable_def pair_ok_def)
  next
    case False
    with Check nm show thesis by (intro compare) (simp_all add: advance_def usable_def)
  qed
next
  case Compare
  obtain b where b: "fst (descriptor_match cv (v_cross v) (seg_descriptor (olds ! i)) (seg_descriptor (news ! j)) ()) = Ret b"
    using ok ij unfolding par_ok_def by (meson nth_mem)
  show thesis
  proof (cases b)
    case True
    with Compare b inv show thesis
      by (intro matching) (simp_all add: advance_def matches_def pair_ok_def task_inv_def)
  next
    case False
    with Compare b show thesis by (intro left) (simp_all add: advance_def matches_def pair_ok_def)
  qed
next
  case Mark_old
  then show thesis by (intro mark_old) (simp_all add: advance_def)
next
  case Mark_new
  then show thesis by (intro mark_new) (simp_all add: advance_def)
next
  case Locate
  obtain rect where rect: "target cv v (news ! j) = Some rect"
    using ok ij unfolding par_ok_def by (meson nth_mem not_None_eq)
  with Locate show thesis
    by (intro locate [of rect]) (auto simp: advance_def target_def split: sum.splits)
next
  case (Outline rect)
  obtain m where "cv_rectangle cv (p_result s) rect (cv_RGB cv 255 0 0) 1 = Inr m"
    "painted (p_result s) (on_border rect) m"
    using rectangle_painted ok unfolding par_ok_def by blast
  with Outline show thesis by (intro outline [of rect m]) (simp_all add: advance_def)
next
  case (Paint rect ps)
  show thesis
  proof (cases ps)
    case Nil
    with Paint show thesis by (intro finish) (simp_all add: advance_def)
  next
    case (Cons p ps')
    obtain k l where p: "p = (k, l)" by (cases p)
    have "fits v (news ! j)" "target cv v (news ! j) = Some rect" "(k, l) \<in> set (rect_offsets rect)"
      using ok ij inv Paint Cons p by (auto simp: par_ok_def task_inv_def)
    then obtain m where "paint_pixel v (seg_area (news ! j)) rect (k, l) (p_result s) = Inr m"
      "painted (p_result s) (\<lambda>y x. y = k + ry rect \<and> x = l + rx rect \<and> differs v (seg_area (news ! j)) rect y x) m"
      using paint_pixel_bounds target_in_bounds [of cv v "news ! j" rect "p_result s"] ok size
      unfolding par_ok_def by blast
    with Paint Cons p show thesis by (intro paint [of rect k l ps' m]) (simp_all add: advance_def)
  qed
qed (use run inv in \<open>simp_all add: running_def\<close>)

lemma flags_inv_task:
  assumes inv: "flags_inv cv v olds news s" and ij: "i < length olds" "j < length news" and sp: "p_outer s i = Spawned"
    and t: "p_outer t = p_outer s" "p_task t = (p_task s)((i, j) := pc)"
    and new: "\<And>k. p_new_matched t k \<longleftrightarrow> p_new_matched s k \<or> k = j \<and> passed pc"
    and old: "\<And>k. p_old_matched t k \<longleftrightarrow> p_old_matched s k \<or> k = i \<and> marked_old pc"
    and pc: "task_inv cv v (olds ! i) (news ! j) (p_new_matched t j) pc"
    and mono: "passed (p_task s (i, j)) \<Longrightarrow> passed pc" "marked_old (p_task s (i, j)) \<Longrightarrow> marked_old pc"
  shows "flags_inv cv v olds news t"
  unfolding flags_inv_def
proof (intro conjI allI impI)
  fix k assume k: "k < length olds"
  show "p_outer t k = Spawned \<Longrightarrow> usable (olds ! k)" "p_outer t k = Skipped \<Longrightarrow> \<not> usable (olds ! k)"
    using inv k t by (simp_all add: flags_inv_def)
  show "p_task t (k, l) = Check" if "p_outer t k \<noteq> Spawned" "l < length news" for l
    using inv k t sp that by (auto simp: flags_inv_def)
  show "task_inv cv v (olds ! k) (news ! l) (p_new_matched t l) (p_task t (k, l))" if l: "l < length news" for l
  proof (cases "(k, l) = (i, j)")
    case True
    with pc show ?thesis by (simp add: t)
  next
    case False
    moreover have "task_inv cv v (olds ! k) (news ! l) (p_new_matched s l) (p_task s (k, l))"
      using inv k l by (simp add: flags_inv_def)
    ultimately show ?thesis using new by (auto simp: t elim: task_inv_mono)
  qed
  have was: "p_old_matched s k \<longleftrightarrow> (\<exists>l < length news. marked_old (p_task s (k, l)))"
    using inv k by (simp add: flags_inv_def)
  have now: "marked_old (p_task t (k, l)) \<longleftrightarrow> marked_old (p_task s (k, l)) \<or> (k, l) = (i, j) \<and> marked_old pc" for l
    using mono(2) by (auto simp: t)
  show "p_old_matched t k \<longleftrightarrow> (\<exists>l < length news. marked_old (p_task t (k, l)))"
    unfolding old was now using ij(2) by blast
next
  fix l assume l: "l < length news" and "p_new_matched t l"
  then consider "p_new_matched s l" | "l = j" "passed pc" using new by blast
  then show "\<exists>k < length olds. passed (p_task t (k, l))"
  proof cases
    case 1
    then obtain k where "k < length olds" "passed (p_task s (k, l))" using inv l by (auto simp: flags_inv_def)
    then show ?thesis using mono(1) by (intro exI [of _ k]) (auto simp: t)
  next
    case 2
    then show ?thesis using ij(1) by (intro exI [of _ i]) (simp add: t)
  qed
qed

lemma image_inv_size:
  "image_inv cv v olds news base s \<Longrightarrow> par_ok cv v olds news base \<Longrightarrow> same_size (p_result s) (v_old_gray v)"
  by (auto simp: image_inv_def painted_def par_ok_def same_size_def)

lemma image_inv_task:
  assumes inv: "image_inv cv v olds news base s" and t: "p_task t = (p_task s)((i, j) := pc)"
    and Q: "painted (p_result s) Q (p_result t)"
    and hitQ: "\<And>y x. Q y x \<Longrightarrow> \<exists>seg2 \<in> set news. hit cv v olds seg2 \<and> marks cv v seg2 y x"
    and cov: "\<And>y x. covers cv v (news ! j) pc y x \<Longrightarrow> covers cv v (news ! j) (p_task s (i, j)) y x \<or> Q y x"
    and ij: "i < length olds" "j < length news"
  shows "image_inv cv v olds news base t"
proof -
  from inv obtain P where P: "painted base P (p_result s)"
    "\<And>y x. P y x \<Longrightarrow> \<exists>seg2 \<in> set news. hit cv v olds seg2 \<and> marks cv v seg2 y x"
    "\<And>i j y x. i < length olds \<Longrightarrow> j < length news \<Longrightarrow> covers cv v (news ! j) (p_task s (i, j)) y x \<Longrightarrow> P y x"
    unfolding image_inv_def by blast
  have "painted base (\<lambda>y x. P y x \<or> Q y x) (p_result t)" using painted_trans [OF P(1) Q] .
  moreover have "covers cv v (news ! l) (p_task t (k, l)) y x \<Longrightarrow> P y x \<or> Q y x"
    if "k < length olds" "l < length news" for k l y x
    using that cov [of y x] P(3) [of k l y x] ij by (cases "(k, l) = (i, j)") (auto simp: t)
  ultimately show ?thesis using P(2) hitQ unfolding image_inv_def by blast
qed

lemma par_inv_outer:
  assumes ok: "par_ok cv v olds news base" and inv: "par_inv cv v olds news base s"
    and i: "i < length olds" "p_outer s i = Waiting"
  shows "par_inv cv v olds news base (start_outer olds i s)"
proof -
  have "\<forall>j < length news. p_task s (i, j) = Check" "\<not> seg_matched (olds ! i)"
    using inv i ok by (auto simp: par_inv_def flags_inv_def par_ok_def)
  then have "\<not> p_old_matched s i"
    using inv i by (auto simp: par_inv_def flags_inv_def marked_old_def passed_def)
  then show ?thesis
    using inv i \<open>\<not> seg_matched (olds ! i)\<close>
    by (auto simp: par_inv_def flags_inv_def image_inv_def start_outer_def usable_def)
qed

lemma par_inv_task:
  assumes inv: "par_inv cv v olds news base s" and ij: "i < length olds" "j < length news"
    and sp: "p_outer s i = Spawned"
    and t: "p_outer t = p_outer s" "p_task t = (p_task s)((i, j) := pc)"
    and new: "\<And>k. p_new_matched t k \<longleftrightarrow> p_new_matched s k \<or> k = j \<and> passed pc"
    and old: "\<And>k. p_old_matched t k \<longleftrightarrow> p_old_matched s k \<or> k = i \<and> marked_old pc"
    and pc: "task_inv cv v (olds ! i) (news ! j) (p_new_matched t j) pc"
    and mono: "passed (p_task s (i, j)) \<Longrightarrow> passed pc" "marked_old (p_task s (i, j)) \<Longrightarrow> marked_old pc"
    and Q: "painted (p_result s) Q (p_result t)"
    and hit: "\<And>y x. Q y x \<Longrightarrow> marks cv v (news ! j) y x \<and> pair_ok cv v (olds ! i) (news ! j)"
    and cov: "\<And>y x. covers cv v (news ! j) pc y x \<Longrightarrow> covers cv v (news ! j) (p_task s (i, j)) y x \<or> Q y x"
  shows "par_inv cv v olds news base t"
proof -
  have flags: "flags_inv cv v olds news s" and image: "image_inv cv v olds news base s"
    using inv by (simp_all add: par_inv_def)
  have use: "usable (olds ! i)" using flags ij sp by (simp add: flags_inv_def)
  have "hit cv v olds (news ! j)" if "pair_ok cv v (olds ! i) (news ! j)"
    using that use nth_mem [OF ij(1)] unfolding hit_def pair_ok_def by blast
  then have "\<exists>seg2 \<in> set news. hit cv v olds seg2 \<and> marks cv v seg2 y x" if "Q y x" for y x
    using hit [OF that] nth_mem [OF ij(2)] by blast
  then have "image_inv cv v olds news base t"
    using image_inv_task [OF image t(2) Q _ cov ij] by blast
  moreover have "flags_inv cv v olds news t"
    by (rule flags_inv_task [OF flags ij sp t new old pc mono])
  ultimately show ?thesis by (simp add: par_inv_def)
qed

lemma par_inv_inner:
  assumes ok: "par_ok cv v olds news base" and inv: "par_inv cv v olds news base s"
    and ij: "i < length olds" "j < length news" and sp: "p_outer s i = Spawned" and run: "running (p_task s (i, j))"
  shows "par_inv cv v olds news base (advance cv v olds news i j s)"
proof -
  have flags: "flags_inv cv v olds news s" and image: "image_inv cv v olds news base s"
    using inv by (simp_all add: par_inv_def)
  have task: "task_inv cv v (olds ! i) (news ! j) (p_new_matched s j) (p_task s (i, j))"
    and old: "marked_old (p_task s (i, j)) \<Longrightarrow> p_old_matched s i"
    using flags ij sp by (auto simp: flags_inv_def)
  have unmatched: "\<not> seg_matched (news ! j)" using ok ij by (simp add: par_ok_def)
  note step = par_inv_task [OF inv ij sp]
  note defs = task_inv_def passed_def marked_old_def covers_def painted_refl
  show ?thesis
    using ok ij task unmatched image_inv_size [OF image ok] run
  proof (cases rule: advance_cases)
    case left
    then show ?thesis using task
      by (intro step [where pc = Returned and Q = "\<lambda>y x. False"]) (auto simp: defs)
  next
    case compare
    then show ?thesis using task
      by (intro step [where pc = Compare and Q = "\<lambda>y x. False"]) (auto simp: defs)
  next
    case matching
    then show ?thesis using task
      by (intro step [where pc = Mark_old and Q = "\<lambda>y x. False"]) (auto simp: defs)
  next
    case mark_old
    then show ?thesis using task
      by (intro step [where pc = Mark_new and Q = "\<lambda>y x. False"]) (auto simp: defs)
  next
    case mark_new
    then show ?thesis using task old
      by (intro step [where pc = Locate and Q = "\<lambda>y x. False"]) (auto simp: defs)
  next
    case (locate rect)
    then show ?thesis using task old
      by (intro step [where pc = "Outline rect" and Q = "\<lambda>y x. False"]) (auto simp: defs)
  next
    case (outline rect m)
    then show ?thesis using task old
      by (intro step [where pc = "Paint rect (rect_offsets rect)" and Q = "on_border rect"])
        (auto simp: defs marks_def set_rect_offsets in_rect_def)
  next
    case (paint rect k l ps m)
    let ?Q = "\<lambda>y x. y = k + ry rect \<and> x = l + rx rect \<and> differs v (seg_area (news ! j)) rect y x"
    from paint(1) task have tgt: "target cv v (news ! j) = Some rect" and kl: "(k, l) \<in> set (rect_offsets rect)"
      by (auto simp: task_inv_def)
    then have "?Q y x \<Longrightarrow> marks cv v (news ! j) y x" for y x
      by (auto simp: marks_def set_rect_offsets in_rect_def)
    with paint show ?thesis using task old tgt
      by (intro step [where pc = "Paint rect ps" and Q = ?Q]) (auto simp: defs marks_def)
  next
    case (finish rect)
    then show ?thesis using task old
      by (intro step [where pc = Finished and Q = "\<lambda>y x. False"]) (auto simp: defs)
  qed
qed

lemma flags_task:
  "flags_inv cv v olds news s \<Longrightarrow> i < length olds \<Longrightarrow> j < length news \<Longrightarrow>
     task_inv cv v (olds ! i) (news ! j) (p_new_matched s j) (p_task s (i, j))"
  by (simp add: flags_inv_def)

lemma nothing_thrown:
  assumes "par_inv cv v olds news base s"
  shows "i < length olds \<Longrightarrow> \<not> threw news s i" and "\<not> stopped olds news s"
proof -
  have "flags_inv cv v olds news s" using assms by (simp add: par_inv_def)
  note task = flags_task [OF this]
  show none: "\<not> threw news s i" if "i < length olds" for i
    using task [OF that] by (force simp: threw_def task_inv_def)
  then show "\<not> stopped olds news s" by (auto simp: stopped_def)
qed

lemma par_inv_step:
  "par_step cv v olds news s t \<Longrightarrow> par_ok cv v olds news base \<Longrightarrow> par_inv cv v olds news base s \<Longrightarrow>
     par_inv cv v olds news base t"
  by (elim par_stepE) (auto intro: par_inv_outer par_inv_inner simp: nothing_thrown)

interpretation painting: invariant_system "par_step cv v olds news"
  "\<lambda>s. par_ok cv v olds news base \<and> par_inv cv v olds news base s" for cv v olds news base
  by unfold_locales (blast intro: par_inv_step)

lemma par_inv_reach:
  assumes "par_ok cv v olds news base" and "(par_step cv v olds news)\<^sup>*\<^sup>* (par_start olds news base) s"
  shows "par_inv cv v olds news base s"
  using painting.inv_reach [OF assms(2)] assms(1) par_inv_start by blast

section \<open>The result of a schedule\<close>

lemma finished_task:
  assumes "flags_inv cv v olds news s" and "quiescent olds news s" and "i < length olds" and "j < length news"
    and "usable (olds ! i)"
  shows "p_task s (i, j) = Finished \<or> p_task s (i, j) = Returned"
    and "pair_ok cv v (olds ! i) (news ! j) \<Longrightarrow> p_new_matched s j"
proof -
  have "p_outer s i = Spawned"
    using assms by (cases "p_outer s i") (auto simp: flags_inv_def quiescent_def)
  then have "\<not> running (p_task s (i, j))" using assms by (simp add: quiescent_def)
  moreover have "task_inv cv v (olds ! i) (news ! j) (p_new_matched s j) (p_task s (i, j))"
    by (rule flags_task [OF assms(1,3,4)])
  ultimately show "p_task s (i, j) = Finished \<or> p_task s (i, j) = Returned"
    and "pair_ok cv v (olds ! i) (news ! j) \<Longrightarrow> p_new_matched s j"
    by (auto simp: not_running task_inv_def)
qed

lemma passed_usable:
  assumes "flags_inv cv v olds news s" and "i < length olds" and "j < length news" and "passed (p_task s (i, j))"
  shows "usable (olds ! i)"
  using assms by (cases "p_outer s i = Spawned") (auto simp: flags_inv_def passed_def)

lemma matched_finished:
  assumes "flags_inv cv v olds news s" and "quiescent olds news s" and "j < length news" and "p_new_matched s j"
  shows "\<exists>i < length olds. p_task s (i, j) = Finished"
proof -
  from assms obtain i where i: "i < length olds" "passed (p_task s (i, j))" by (auto simp: flags_inv_def)
  then have "p_task s (i, j) = Finished \<or> p_task s (i, j) = Returned"
    using finished_task(1) passed_usable assms by blast
  with i show ?thesis by (auto simp: passed_def)
qed

lemma new_matched_hit:
  assumes flags: "flags_inv cv v olds news s" and q: "quiescent olds news s" and j: "j < length news"
  shows "p_new_matched s j \<longleftrightarrow> hit cv v olds (news ! j)"
proof
  assume "p_new_matched s j"
  then obtain i where i: "i < length olds" "p_task s (i, j) = Finished"
    using matched_finished [OF flags q j] by blast
  then have "usable (olds ! i)" using passed_usable [OF flags i(1) j] by (simp add: passed_def)
  moreover have "pair_ok cv v (olds ! i) (news ! j)"
    using flags_task [OF flags i(1) j] i(2) by (simp add: task_inv_def)
  ultimately show "hit cv v olds (news ! j)"
    using nth_mem [OF i(1)] unfolding hit_def pair_ok_def by blast
next
  assume "hit cv v olds (news ! j)"
  then obtain i where "i < length olds" "usable (olds ! i)" "pair_ok cv v (olds ! i) (news ! j)"
    unfolding hit_def pair_ok_def by (metis in_set_conv_nth)
  then show "p_new_matched s j" using finished_task(2) [OF flags q _ j] by blast
qed

lemma result_painted:
  assumes inv: "par_inv cv v olds news base s" and q: "quiescent olds news s"
  shows "painted base (\<lambda>y x. \<exists>seg \<in> set news. hit cv v olds seg \<and> marks cv v seg y x) (p_result s)"
proof -
  have flags: "flags_inv cv v olds news s" using inv by (simp add: par_inv_def)
  from inv obtain P where P: "painted base P (p_result s)"
    "\<And>y x. P y x \<Longrightarrow> \<exists>seg \<in> set news. hit cv v olds seg \<and> marks cv v seg y x"
    "\<And>i j y x. i < length olds \<Longrightarrow> j < length news \<Longrightarrow> covers cv v (news ! j) (p_task s (i, j)) y x \<Longrightarrow> P y x"
    unfolding par_inv_def image_inv_def by blast
  have "P y x" if hit: "seg \<in> set news" "hit cv v olds seg" "marks cv v seg y x" for seg y x
  proof -
    from hit obtain j where j: "j < length news" "news ! j = seg" by (auto simp: in_set_conv_nth)
    with hit obtain i where "i < length olds" "p_task s (i, j) = Finished"
      using matched_finished [OF flags q j(1)] new_matched_hit [OF flags q j(1)] by blast
    with P(3) [of i j] j hit show ?thesis by (simp add: covers_def)
  qed
  with P(2) show ?thesis by (intro painted_cong [OF P(1)]) blast
qed

text \<open>
  C6. In the build with \<open>ENABLE_PARALLEL\<close>, whatever the order in which the tasks run: when they have
  all ended none of them has thrown or read outside an image, a segment of the new image is
  marked as matched if and only if some segment of the old image with a descriptor matches it,
  and a pixel of the difference image is red exactly where one of these segments marks it. The
  race on \<open>matched\<close> has no influence on either.
\<close>

theorem parallel_result_deterministic:
  assumes "par_ok cv v olds news base"
    and "(par_step cv v olds news)\<^sup>*\<^sup>* (par_start olds news base) s" and "quiescent olds news s"
  shows "(\<forall>i < length olds. \<forall>j < length news. \<forall>h. p_task s (i, j) \<noteq> Failed h) \<and>
    (\<forall>j < length news. p_new_matched s j \<longleftrightarrow> hit cv v olds (news ! j)) \<and>
    painted base (\<lambda>y x. \<exists>seg \<in> set news. hit cv v olds seg \<and> marks cv v seg y x) (p_result s)"
proof -
  have inv: "par_inv cv v olds news base s" by (rule par_inv_reach [OF assms(1,2)])
  then have flags: "flags_inv cv v olds news s" by (simp add: par_inv_def)
  have "p_task s (i, j) \<noteq> Failed h" if "i < length olds" "j < length news" for i j h
    using flags_task [OF flags that] by (auto simp: task_inv_def)
  with new_matched_hit [OF flags assms(3)] result_painted [OF inv assms(3)] show ?thesis by blast
qed

text \<open>
  C15. The loops of the parallel build end under every schedule: no run is longer than the bound
  \<open>remaining\<close> of the state it starts in, and from every state one can reach the end of all tasks;
  a state in which some task has not ended is never stuck.
\<close>

theorem parallel_terminates:
  "((par_step cv v olds news ^^ n) s t \<longrightarrow> n \<le> remaining cv v olds news s) \<and>
   (\<not> quiescent olds news s \<longrightarrow> (\<exists>t. par_step cv v olds news s t)) \<and>
   (\<exists>t. (par_step cv v olds news)\<^sup>*\<^sup>* s t \<and> quiescent olds news t)"
  using tasks.run_bounded [of n cv v olds news s t] tasks.progress [of olds news s cv v]
    tasks.reaches_final [of cv v olds news s] by auto

section \<open>The race\<close>

text \<open>One task can run up to both of its marks before any other starts.\<close>

lemma first_match:
  assumes ok: "par_ok cv v olds news base" and k: "k < length olds" "usable (olds ! k)" and j: "j < length news"
    and pair: "pair_ok cv v (olds ! k) (news ! j)"
  obtains s where "(par_step cv v olds news)\<^sup>*\<^sup>* (par_start olds news base) s" "p_new_matched s j" "p_old_matched s k"
    "\<And>i. i \<noteq> k \<Longrightarrow> p_task s (i, j) = Check"
proof -
  let ?step = "par_step cv v olds news" and ?go = "advance cv v olds news k j"
  define s0 where "s0 = start_outer olds k (par_start olds news base)"
  have nm: "\<not> seg_matched (news ! j)" using ok j by (simp add: par_ok_def)
  have s0: "p_task s0 = (\<lambda>_. Check)" "p_outer s0 k = Spawned" "p_new_matched s0 = (\<lambda>j. seg_matched (news ! j))"
    using k by (simp_all add: s0_def start_outer_def par_start_def usable_def)
  define s2 where "s2 = ?go (?go s0)"
  define s3 where "s3 = ?go s2"
  have s1: "?go s0 = goto (k, j) Compare s0"
    using s0 nm pair by (simp add: advance_def pair_ok_def usable_def)
  have s2: "s2 = goto (k, j) Mark_old (goto (k, j) Compare s0)"
    using pair unfolding s2_def s1 by (simp add: advance_def pair_ok_def matches_def)
  have s3: "p_task s3 = (p_task s0)((k, j) := Mark_new)" "p_old_matched s3 k" "p_outer s3 = p_outer s0"
    unfolding s3_def by (simp_all add: s2 advance_def)
  have s4: "p_task (?go s3) = (p_task s0)((k, j) := Locate)" "p_old_matched (?go s3) k" "p_new_matched (?go s3) j"
    using s3 by (simp_all add: advance_def)
  have go: "?step s (?go s)" if "p_outer s k = Spawned" "running (p_task s (k, j))" for s
    using k(1) j that by (rule par_step.inner)
  have "?step (par_start olds news base) s0"
    unfolding s0_def by (rule par_step.outer) (simp_all add: k par_start_def)
  moreover have "?step s0 (?go s0)" by (rule go) (simp_all add: s0 running_def)
  moreover have "?step (?go s0) s2" unfolding s2_def by (rule go) (simp_all add: s1 s0 running_def)
  moreover have "?step s2 s3" unfolding s3_def by (rule go) (simp_all add: s2 s0 running_def)
  moreover have "?step s3 (?go s3)" by (rule go) (simp_all add: s3 s0 running_def)
  ultimately have "?step\<^sup>*\<^sup>* (par_start olds news base) (?go s3)"
    by (meson converse_rtranclp_into_rtranclp r_into_rtranclp)
  then show thesis by (rule that) (simp_all add: s4 s0)
qed

text \<open>A mark is never taken back, and a task that has not begun when its new segment is marked will not mark the old one.\<close>

lemma advance_marks:
  "p_old_matched s i \<Longrightarrow> p_old_matched (advance cv v olds news k l s) i"
  "p_new_matched s j \<Longrightarrow> p_new_matched (advance cv v olds news k l s) j"
  by (auto simp: advance_def split: task_pc.split list.split sum.split outcome.split)

interpretation old_mark: invariant_system "par_step cv v olds news" "\<lambda>s. p_old_matched s i" for cv v olds news i
  by unfold_locales (auto elim!: par_stepE simp: advance_marks start_outer_def)

definition too_late :: "nat \<Rightarrow> nat \<Rightarrow> par \<Rightarrow> bool" where
  "too_late i j s \<longleftrightarrow> p_new_matched s j \<and> (p_task s (i, j) = Check \<or> p_task s (i, j) = Returned)"

lemma too_late_advance: "too_late i j s \<Longrightarrow> too_late i j (advance cv v olds news k l s)"
  by (cases "(k, l) = (i, j)") (auto simp: too_late_def advance_marks advance_frame, auto simp: advance_def)

interpretation late: invariant_system "par_step cv v olds news" "too_late i j" for cv v olds news i j
  by unfold_locales (auto elim!: par_stepE simp: too_late_advance, auto simp: too_late_def start_outer_def)

lemma marked_pair: "task_inv cv v seg1 seg2 nm pc \<Longrightarrow> marked_old pc \<Longrightarrow> pair_ok cv v seg1 seg2"
  by (cases pc) (simp_all add: task_inv_def marked_old_def passed_def)

text \<open>
  C22. What the race does decide is which segments of the old image count as matched: if two of
  them match the same segment of the new image, and the first matches no other, then there is a
  schedule after which the first is marked, and one after which it is not. So the image of the
  deleted parts, which outlines the segments without a mark, can differ from run to run.
\<close>

theorem old_flags_depend_on_schedule:
  assumes "par_ok cv v olds news base" and "i < length olds" and "k < length olds" and "i \<noteq> k"
    and "j < length news" and "usable (olds ! i)" and "usable (olds ! k)" and "usable (news ! j)"
    and "matches cv v (olds ! i) (news ! j)" and "matches cv v (olds ! k) (news ! j)"
    and only: "\<forall>l < length news. matches cv v (olds ! i) (news ! l) \<longrightarrow> l = j"
  shows "\<exists>s t. (par_step cv v olds news)\<^sup>*\<^sup>* (par_start olds news base) s \<and> quiescent olds news s \<and> p_old_matched s i \<and>
    (par_step cv v olds news)\<^sup>*\<^sup>* (par_start olds news base) t \<and> quiescent olds news t \<and> \<not> p_old_matched t i"
proof -
  let ?reach = "(par_step cv v olds news)\<^sup>*\<^sup>*" and ?start = "par_start olds news base"
  have pairs: "pair_ok cv v (olds ! i) (news ! j)" "pair_ok cv v (olds ! k) (news ! j)"
    using assms(8-10) unfolding pair_ok_def by blast+
  obtain s1 where s1: "?reach ?start s1" "p_old_matched s1 i"
    by (rule first_match [OF assms(1,2,6,5) pairs(1)])
  obtain t1 where t1: "?reach ?start t1" "p_new_matched t1 j" "p_task t1 (i, j) = Check"
    by (rule first_match [OF assms(1,3,7,5) pairs(2)]) (use assms(4) in blast)
  obtain s t where s: "?reach s1 s" "quiescent olds news s" and t: "?reach t1 t" "quiescent olds news t"
    using tasks.reaches_final by blast
  have run: "?reach ?start s" "?reach ?start t"
    using s1(1) s(1) t1(1) t(1) by (blast intro: rtranclp_trans)+
  have "p_old_matched s i" by (rule old_mark.inv_reach [OF s(1) s1(2)])
  moreover have "\<not> p_old_matched t i"
  proof
    assume "p_old_matched t i"
    have flags: "flags_inv cv v olds news t"
      using par_inv_reach [OF assms(1) run(2)] by (simp add: par_inv_def)
    with \<open>p_old_matched t i\<close> assms(2) obtain l where l: "l < length news" "marked_old (p_task t (i, l))"
      by (auto simp: flags_inv_def)
    then have "pair_ok cv v (olds ! i) (news ! l)"
      using marked_pair [OF flags_task [OF flags assms(2) l(1)]] by blast
    with only l have "marked_old (p_task t (i, j))" by (auto simp: pair_ok_def)
    moreover have "too_late i j t"
      by (rule late.inv_reach [OF t(1)]) (simp add: too_late_def t1)
    ultimately show False by (auto simp: too_late_def marked_old_def passed_def)
  qed
  ultimately show ?thesis using run s(2) t(2) by blast
qed

section \<open>Examples\<close>

definition sample_base :: "bgr mat" where
  "sample_base = mat_const 2 2 (7, 7, 7)"

lemma sample_par_ok:
  "par_ok sample_cv (diff_view_of paired) [sample_segment, sample_segment] [sample_segment] sample_base"
proof -
  have "fits (diff_view_of paired) sample_segment" using paired_fits by simp
  moreover have "\<exists>b. fst (descriptor_match sample_cv (v_cross (diff_view_of paired)) (seg_descriptor sample_segment)
      (seg_descriptor sample_segment) ()) = Ret b"
    using sample_matches [of "diff_view_of paired"] unfolding matches_def by blast
  moreover have "same_size sample_base (v_old_gray (diff_view_of paired))"
    by (simp add: same_size_def sample_base_def mat_const_def diff_view_of_def paired_def loaded_def)
  ultimately show ?thesis
    using sample_usable
    by (simp add: par_ok_def drawing_laws_sample rect_law_sample template_law_sample paired_target usable_def)
qed

theorem parallel_result_deterministic_witness:
  "\<exists>s. quiescent [sample_segment, sample_segment] [sample_segment] s \<and> p_new_matched s 0 \<and>
     pix (p_result s) 0 0 = (0, 0, 255) \<and> pix (p_result s) 1 1 = (7, 7, 7)"
proof -
  let ?v = "diff_view_of paired" and ?olds = "[sample_segment, sample_segment]" and ?news = "[sample_segment]"
  obtain s where s: "(par_step sample_cv ?v ?olds ?news)\<^sup>*\<^sup>* (par_start ?olds ?news sample_base) s" "quiescent ?olds ?news s"
    using tasks.reaches_final by blast
  have "hit sample_cv ?v ?olds sample_segment" by (simp add: hit_def sample_usable sample_matches)
  then have "p_new_matched s 0"
    "painted sample_base (marks sample_cv ?v sample_segment) (p_result s)"
    using parallel_result_deterministic [OF sample_par_ok s] by simp_all
  moreover have "inside sample_base 0 0" "inside sample_base 1 1"
    by (simp_all add: inside_def sample_base_def mat_const_def)
  ultimately show ?thesis using s(2)
    by (auto simp: painted_def marks_def paired_target on_border_def in_rect_def sample_base_def mat_const_def)
qed

theorem old_flags_depend_on_schedule_witness:
  "\<exists>s t. quiescent [sample_segment, sample_segment] [sample_segment] s \<and> p_old_matched s 0 \<and>
     quiescent [sample_segment, sample_segment] [sample_segment] t \<and> \<not> p_old_matched t 0"
  using old_flags_depend_on_schedule [OF sample_par_ok, of 0 1 0]
  by (auto simp: sample_usable sample_matches)

theorem parallel_terminates_witness:
  "\<exists>t. (par_step sample_cv (diff_view_of paired) [sample_segment] [sample_segment])\<^sup>*\<^sup>*
     (par_start [sample_segment] [sample_segment] sample_base) t \<and> quiescent [sample_segment] [sample_segment] t"
  using parallel_terminates [where cv = sample_cv and olds = "[sample_segment]" and news = "[sample_segment]"]
  by blast

end
