(* ===== verification/Task_Groups.thy ===== *)
theory Task_Groups
  imports Parallel_Diff
begin

text \<open>
  The task groups of the build with \<open>ENABLE_PARALLEL\<close> whose tasks start no others:
  \<open>tbb::task_group\<close> in \<open>load_image\<close> and \<open>tbb::parallel_for_each\<close> over the outlines in
  \<open>draw_not_matched\<close>. A task is a list of steps, a step is a program on the shared
  state, and the group runs the steps of its tasks in any interleaving. The contract
  \<open>independent_tasks\<close> says which tasks may be run like this: what the group returns is then what
  running them one after the other returns.
\<close>

section \<open>Task groups\<close>

type_synonym 's step = "('s, unit) prog"

primrec run_all :: "'s step list \<Rightarrow> 's step" where
  "run_all [] = ret ()"
| "run_all (p # ps) = bnd p (\<lambda>_. run_all ps)"

text \<open>
  A group in progress: each task with whether it has started and the steps that are left, the
  exception that the group will throw from \<open>wait\<close>, and the shared state. An exception ends its
  task and cancels the tasks that have not started, and only the first one is kept
  (task_dispatcher.h of the vendored TBB); anything else that ends the process does so at once.
\<close>

datatype 's group =
    Running "(bool \<times> 's step list) list" "string option" 's
  | Ended halt 's

inductive group_step :: "'s group \<Rightarrow> 's group \<Rightarrow> bool" where
  go: "k < length ts \<Longrightarrow> ts ! k = (b, p # ps) \<Longrightarrow> p s = (Ret u, t) \<Longrightarrow>
    group_step (Running ts exc s) (Running (ts[k := (True, ps)]) exc t)"
| throw: "k < length ts \<Longrightarrow> ts ! k = (b, p # ps) \<Longrightarrow> p s = (Halt (Uncaught e), t) \<Longrightarrow>
    group_step (Running ts exc s)
      (Running (ts[k := (True, [])]) (Some (case exc of None \<Rightarrow> e | Some first \<Rightarrow> first)) t)"
| die: "k < length ts \<Longrightarrow> ts ! k = (b, p # ps) \<Longrightarrow> p s = (Halt h, t) \<Longrightarrow> (\<And>e. h \<noteq> Uncaught e) \<Longrightarrow>
    group_step (Running ts exc s) (Ended h t)"
| cancel: "k < length ts \<Longrightarrow> ts ! k = (False, p # ps) \<Longrightarrow>
    group_step (Running ts (Some e) s) (Running (ts[k := (True, [])]) (Some e) s)"

definition group_start :: "'s step list list \<Rightarrow> 's \<Rightarrow> 's group" where
  "group_start tasks s = Running (map (Pair False) tasks) None s"

primrec over :: "'s group \<Rightarrow> bool" where
  "over (Running ts exc s) = list_all (\<lambda>t. snd t = []) ts"
| "over (Ended h s) = True"

text \<open>What \<open>wait\<close> does when the group is over.\<close>

primrec group_result :: "'s group \<Rightarrow> unit outcome \<times> 's" where
  "group_result (Running ts exc s) = (case exc of None \<Rightarrow> Ret () | Some e \<Rightarrow> Halt (Uncaught e), s)"
| "group_result (Ended h s) = (Halt h, s)"

definition run_group :: "'s step list list \<Rightarrow> 's \<Rightarrow> unit outcome \<times> 's \<Rightarrow> bool" where
  "run_group tasks s r \<longleftrightarrow> (\<exists>g. group_step\<^sup>*\<^sup>* (group_start tasks s) g \<and> over g \<and> group_result g = r)"

section \<open>Groups end\<close>

primrec steps_left :: "'s group \<Rightarrow> nat" where
  "steps_left (Running ts exc s) = Suc (\<Sum>t\<leftarrow>ts. length (snd t))"
| "steps_left (Ended h s) = 0"

lemma sum_list_update_less:
  fixes f :: "'a \<Rightarrow> nat"
  assumes "k < length ts" and "f x < f (ts ! k)"
  shows "(\<Sum>t\<leftarrow>ts[k := x]. f t) < (\<Sum>t\<leftarrow>ts. f t)"
  using assms by (induction ts arbitrary: k) (auto simp: nth_Cons split: nat.splits)

lemma group_step_less: "group_step g h \<Longrightarrow> steps_left h < steps_left g"
  by (induction rule: group_step.induct) (simp_all add: sum_list_update_less)

lemma group_progress:
  assumes "\<not> over g"
  shows "\<exists>h. group_step g h"
proof (cases g)
  case (Running ts exc s)
  with assms obtain k where k: "k < length ts" "snd (ts ! k) \<noteq> []" by (auto simp: list_all_length)
  then obtain b p ps where p: "ts ! k = (b, p # ps)" by (cases "ts ! k"; cases "snd (ts ! k)") auto
  show ?thesis
  proof (cases "p s")
    case (Pair r t)
    then show ?thesis
    proof (cases r)
      case (Ret u)
      with Pair k p Running group_step.go [of k ts b p ps s u t exc] show ?thesis by auto
    next
      case (Halt h)
      with Pair k p Running group_step.throw [of k ts b p ps s _ t exc] group_step.die [of k ts b p ps s h t exc]
      show ?thesis by (cases h) auto
    qed
  qed
next
  case (Ended h s)
  with assms show ?thesis by simp
qed

interpretation groups: bounded_system "group_step :: 's group \<Rightarrow> 's group \<Rightarrow> bool" steps_left over
  by unfold_locales (simp_all add: group_step_less group_progress)

lemma group_has_result: "\<exists>r. run_group tasks s r"
  using groups.reaches_final [of "group_start tasks s"] unfolding run_group_def by blast

section \<open>Independent tasks\<close>

text \<open>Two steps that can change places, as far as they return.\<close>

definition commutes :: "'s step \<Rightarrow> 's step \<Rightarrow> bool" where
  "commutes p q \<longleftrightarrow> (\<forall>s t. bnd p (\<lambda>_. q) s = (Ret (), t) \<longleftrightarrow> bnd q (\<lambda>_. p) s = (Ret (), t))"

lemma run_all_append: "run_all (ps @ qs) = bnd (run_all ps) (\<lambda>_. run_all qs)"
  by (induction ps) (simp_all add: bnd_assoc)

lemma bnd_eq_Ret: "bnd p f s = (Ret y, t) \<longleftrightarrow> (\<exists>x u. p s = (Ret x, u) \<and> f x u = (Ret y, t))"
  by (auto elim: bnd_RetE)

lemma commutes_run_all:
  assumes "\<forall>q \<in> set qs. commutes p q"
  shows "commutes p (run_all qs)"
  using assms
proof (induction qs)
  case Nil
  show ?case by (simp add: commutes_def bnd_eq_Ret)
next
  case (Cons q qs)
  have "bnd p (\<lambda>_. bnd q (\<lambda>_. run_all qs)) s = (Ret (), t) \<longleftrightarrow> bnd (bnd q (\<lambda>_. run_all qs)) (\<lambda>_. p) s = (Ret (), t)" for s t
  proof -
    have "bnd p (\<lambda>_. bnd q (\<lambda>_. run_all qs)) s = (Ret (), t) \<longleftrightarrow>
        bnd (bnd p (\<lambda>_. q)) (\<lambda>_. run_all qs) s = (Ret (), t)" by (simp add: bnd_assoc)
    also have "\<dots> \<longleftrightarrow> bnd (bnd q (\<lambda>_. p)) (\<lambda>_. run_all qs) s = (Ret (), t)"
      using Cons.prems by (simp add: bnd_eq_Ret [of "bnd _ _"] commutes_def)
    also have "\<dots> \<longleftrightarrow> bnd q (\<lambda>_. bnd p (\<lambda>_. run_all qs)) s = (Ret (), t)" by (simp add: bnd_assoc)
    also have "\<dots> \<longleftrightarrow> bnd q (\<lambda>_. bnd (run_all qs) (\<lambda>_. p)) s = (Ret (), t)"
      using Cons by (simp add: bnd_eq_Ret [of q] commutes_def)
    finally show ?thesis by (simp add: bnd_assoc)
  qed
  then show ?case by (simp add: commutes_def)
qed

text \<open>The steps that are left are steps of the tasks, and whether they will return in the state \<open>t\<close>.\<close>

primrec left_of :: "'s step list list \<Rightarrow> 's group \<Rightarrow> bool" where
  "left_of tasks (Running ts exc s) \<longleftrightarrow> length ts = length tasks \<and>
     (\<forall>k < length ts. set (snd (ts ! k)) \<subseteq> set (tasks ! k))"
| "left_of tasks (Ended h s) \<longleftrightarrow> True"

primrec will :: "'s \<Rightarrow> 's group \<Rightarrow> bool" where
  "will t (Running ts exc s) \<longleftrightarrow> exc = None \<and> run_all (concat (map snd ts)) s = (Ret (), t)"
| "will t (Ended h s) \<longleftrightarrow> False"

text \<open>Tasks of which any two steps from different tasks can change places.\<close>

locale independent_tasks =
  fixes tasks :: "'s step list list"
  assumes commuting: "i < length tasks \<Longrightarrow> j < length tasks \<Longrightarrow> i \<noteq> j \<Longrightarrow>
    p \<in> set (tasks ! i) \<Longrightarrow> q \<in> set (tasks ! j) \<Longrightarrow> commutes p q"
begin

lemma left_step: "group_step g h \<Longrightarrow> left_of tasks g \<Longrightarrow> left_of tasks h"
proof (induction rule: group_step.induct)
  case (go k ts b p ps s u t exc)
  then have "set ps \<subseteq> set (tasks ! k)" by force
  with go show ?case by (auto simp: nth_list_update)
qed (auto simp: nth_list_update)

text \<open>The next step of any task may be taken first.\<close>

lemma step_first:
  assumes left: "left_of tasks (Running ts exc s)" and k: "k < length ts" "ts ! k = (b, p # ps)"
  shows "run_all (concat (map snd ts)) s = (Ret (), t) \<longleftrightarrow>
    bnd p (\<lambda>_. run_all (concat (map snd (ts[k := (True, ps)])))) s = (Ret (), t)"
proof -
  let ?before = "concat (map snd (take k ts))" and ?after = "concat (map snd (drop (Suc k) ts))"
  have ts: "ts = take k ts @ (b, p # ps) # drop (Suc k) ts" using k by (simp add: id_take_nth_drop [symmetric] flip: k(2))
  then have c1: "concat (map snd ts) = ?before @ p # ps @ ?after"
    by (metis append_Cons concat.simps(2) concat_append list.simps(9) map_append snd_conv)
  have c2: "concat (map snd (ts[k := (True, ps)])) = ?before @ ps @ ?after"
    using k(1) by (simp add: upd_conv_take_nth_drop)
  have "commutes p q" if "q \<in> set ?before" for q
  proof -
    from that obtain i where i: "i < k" "q \<in> set (snd (ts ! i))"
      by (auto simp: in_set_conv_nth [of _ "take k ts"])
    moreover have "p \<in> set (tasks ! k)" using left k by auto
    moreover have "q \<in> set (tasks ! i)" using left k(1) i by (auto dest: spec [of _ i])
    ultimately show ?thesis using left k(1) by (intro commuting [of k i]) auto
  qed
  then have "commutes p (run_all ?before)" by (intro commutes_run_all) blast
  then have "bnd (run_all ?before) (\<lambda>_. p) s = (Ret (), u) \<longleftrightarrow> bnd p (\<lambda>_. run_all ?before) s = (Ret (), u)" for s u
    by (simp add: commutes_def)
  then show ?thesis unfolding c1 c2
    by (simp add: run_all_append bnd_eq_Ret [of "bnd _ _"] flip: bnd_assoc)
qed

lemma will_step: "group_step g h \<Longrightarrow> left_of tasks g \<Longrightarrow> will t g \<longleftrightarrow> will t h"
proof (induction rule: group_step.induct)
  case (go k ts b p ps s u t' exc)
  then show ?case using step_first [OF go(4,1,2)] by simp
next
  case (throw k ts b p ps s e t' exc)
  then show ?case using step_first [OF throw(4,1,2)] by simp
next
  case (die k ts b p ps s h t' exc)
  then show ?case using step_first [OF die(5,1,2)] by simp
qed simp

lemma will_over: "over g \<Longrightarrow> will t g \<longleftrightarrow> group_result g = (Ret (), t)"
proof (cases g)
  case (Running ts exc s)
  moreover assume "over g"
  ultimately have "run_all (concat (map snd ts)) = ret ()" by (subst concat_eq_Nil_conv [THEN iffD2]) (auto simp: list_all_iff)
  with Running show ?thesis by (auto split: option.splits)
qed simp

lemma will_reach:
  assumes "group_step\<^sup>*\<^sup>* g h" and "left_of tasks g"
  shows "left_of tasks h \<and> (will t g \<longleftrightarrow> will t h)"
  using assms by (induction rule: rtranclp_induct) (use left_step will_step in blast)+

lemma start: "left_of tasks (group_start tasks s)" "will t (group_start tasks s) \<longleftrightarrow> run_all (concat tasks) s = (Ret (), t)"
  by (simp_all add: group_start_def comp_def)

lemma result_serial:
  assumes "group_step\<^sup>*\<^sup>* (group_start tasks s) g" and "over g"
  shows "group_result g = (Ret (), t) \<longleftrightarrow> run_all (concat tasks) s = (Ret (), t)"
  using will_reach [OF assms(1) start(1), of t] will_over [OF assms(2), of t] start(2) by simp

text \<open>The group returns exactly when the tasks one after the other do, and in the same state.\<close>

lemma group_serial: "run_group tasks s (Ret (), t) \<longleftrightarrow> run_all (concat tasks) s = (Ret (), t)"
proof -
  obtain g where "group_step\<^sup>*\<^sup>* (group_start tasks s) g" "over g"
    using groups.reaches_final [of "group_start tasks s"] by blast
  then show ?thesis using result_serial unfolding run_group_def by metis
qed

lemma group_deterministic:
  assumes "run_all (concat tasks) s = (Ret (), t)" and "run_group tasks s r"
  shows "r = (Ret (), t)"
proof -
  from assms(2) obtain g where g: "group_step\<^sup>*\<^sup>* (group_start tasks s) g" "over g" "group_result g = r"
    unfolding run_group_def by blast
  with result_serial [OF g(1,2), of t] assms(1) show ?thesis by simp
qed

end

section \<open>Loading the images\<close>

definition open_new :: "os \<Rightarrow> unit act" where
  "open_new os = bnd (ask (\<lambda>s. arg_new_file (arg s))) (\<lambda>path.
     if path = [] then ret () else bnd (must_open os path) (\<lambda>mf. upd (reset_new_file mf)))"

definition decode_new :: "opencv \<Rightarrow> unit act" where
  "decode_new cv = bnd (ask (\<lambda>s. (arg_new_file (arg s), new_file s))) (\<lambda>(path, file).
     if path = [] then ret ()
     else case file of
       None \<Rightarrow> halt (Undefined ''dereference of an empty unique_ptr'')
     | Some mf \<Rightarrow> bnd (call (decode_from_mapped_file cv mf IMREAD_COLOR)) (\<lambda>color.
         upd (\<lambda>s. s\<lparr>new_color_mat := color\<rparr>)))"

definition gray_new :: "opencv \<Rightarrow> unit act" where
  "gray_new cv = bnd (ask (\<lambda>s. (arg_new_file (arg s), new_color_mat s))) (\<lambda>(path, color).
     if path = [] then ret ()
     else bnd (call (cv_bgr2gray cv color)) (\<lambda>gray. upd (\<lambda>s. s\<lparr>new_gray_mat := gray\<rparr>)))"

definition open_old :: "os \<Rightarrow> unit act" where
  "open_old os = bnd (ask (\<lambda>s. arg_old_file (arg s))) (\<lambda>path.
     if path = [] then ret () else bnd (must_open os path) (\<lambda>mf. upd (reset_old_file mf)))"

definition decode_old :: "opencv \<Rightarrow> unit act" where
  "decode_old cv = bnd (ask (\<lambda>s. (arg_old_file (arg s), old_file s))) (\<lambda>(path, file).
     if path = [] then ret ()
     else case file of
       None \<Rightarrow> halt (Undefined ''dereference of an empty unique_ptr'')
     | Some mf \<Rightarrow> bnd (call (decode_from_mapped_file cv mf IMREAD_COLOR)) (\<lambda>color.
         upd (\<lambda>s. s\<lparr>old_color_mat := color\<rparr>)))"

definition gray_old :: "opencv \<Rightarrow> unit act" where
  "gray_old cv = bnd (ask (\<lambda>s. (arg_old_file (arg s), old_color_mat s))) (\<lambda>(path, color).
     if path = [] then ret ()
     else bnd (call (cv_bgr2gray cv color)) (\<lambda>gray. upd (\<lambda>s. s\<lparr>old_gray_mat := gray\<rparr>)))"

definition load_tasks :: "opencv \<Rightarrow> os \<Rightarrow> unit act list list" where
  "load_tasks cv os = [[open_new os, decode_new cv, gray_new cv], [open_old os, decode_old cv, gray_old cv]]"

lemma must_open_iff:
  "must_open os path s = (Ret mf, t) \<longleftrightarrow> mapped os path = Some mf \<and> t = s\<lparr>w_maps := w_maps s + size_maps mf\<rparr>"
  by (auto simp: mapped_def must_open_Ret mapped_file_open_def size_maps_def Let_def split: sum.splits if_splits)

lemma delete_file_maps: "delete_file f s = s\<lparr>w_maps := w_maps s - maps_of f\<rparr>"
  by (simp add: delete_file_def mapped_file_dtor_def maps_of_def split: option.split)

text \<open>What each step does when it returns, as a partial function on states.\<close>

definition gives :: "'s step \<Rightarrow> ('s \<Rightarrow> 's option) \<Rightarrow> bool" where
  "gives p f \<longleftrightarrow> (\<forall>s t. p s = (Ret (), t) \<longleftrightarrow> f s = Some t)"

lemma gives_commutes:
  assumes "gives p f" and "gives q g" and "\<And>s. Option.bind (f s) g = Option.bind (g s) f"
  shows "commutes p q"
proof -
  have seq: "bnd p (\<lambda>_. q) s = (Ret (), t) \<longleftrightarrow> Option.bind (f s) g = Some t" if "gives p f" "gives q g" for p q f g s t
    using that by (auto simp: gives_def bnd_eq_Ret bind_eq_Some_conv)
  show ?thesis using seq [OF assms(1,2)] seq [OF assms(2,1)] assms(3) by (simp add: commutes_def)
qed

definition opened_new :: "os \<Rightarrow> state \<Rightarrow> state option" where
  "opened_new os s = (if arg_new_file (arg s) = [] then Some s
     else map_option (\<lambda>mf. s\<lparr>new_file := Some mf, w_maps := w_maps s + size_maps mf - maps_of (new_file s)\<rparr>)
       (mapped os (arg_new_file (arg s))))"

definition opened_old :: "os \<Rightarrow> state \<Rightarrow> state option" where
  "opened_old os s = (if arg_old_file (arg s) = [] then Some s
     else map_option (\<lambda>mf. s\<lparr>old_file := Some mf, w_maps := w_maps s + size_maps mf - maps_of (old_file s)\<rparr>)
       (mapped os (arg_old_file (arg s))))"

definition sum_option :: "'e + 'a \<Rightarrow> 'a option" where
  "sum_option r = (case r of Inl e \<Rightarrow> None | Inr x \<Rightarrow> Some x)"

definition decoded_new :: "opencv \<Rightarrow> state \<Rightarrow> state option" where
  "decoded_new cv s = (if arg_new_file (arg s) = [] then Some s
     else map_option (\<lambda>color. s\<lparr>new_color_mat := color\<rparr>)
       (Option.bind (new_file s) (\<lambda>mf. sum_option (decode_from_mapped_file cv mf IMREAD_COLOR))))"

definition decoded_old :: "opencv \<Rightarrow> state \<Rightarrow> state option" where
  "decoded_old cv s = (if arg_old_file (arg s) = [] then Some s
     else map_option (\<lambda>color. s\<lparr>old_color_mat := color\<rparr>)
       (Option.bind (old_file s) (\<lambda>mf. sum_option (decode_from_mapped_file cv mf IMREAD_COLOR))))"

definition grayed_new :: "opencv \<Rightarrow> state \<Rightarrow> state option" where
  "grayed_new cv s = (if arg_new_file (arg s) = [] then Some s
     else map_option (\<lambda>gray. s\<lparr>new_gray_mat := gray\<rparr>) (sum_option (cv_bgr2gray cv (new_color_mat s))))"

definition grayed_old :: "opencv \<Rightarrow> state \<Rightarrow> state option" where
  "grayed_old cv s = (if arg_old_file (arg s) = [] then Some s
     else map_option (\<lambda>gray. s\<lparr>old_gray_mat := gray\<rparr>) (sum_option (cv_bgr2gray cv (old_color_mat s))))"

lemma load_steps_give:
  "gives (open_new os) (opened_new os)" "gives (decode_new cv) (decoded_new cv)" "gives (gray_new cv) (grayed_new cv)"
  "gives (open_old os) (opened_old os)" "gives (decode_old cv) (decoded_old cv)" "gives (gray_old cv) (grayed_old cv)"
  unfolding gives_def open_new_def opened_new_def decode_new_def decoded_new_def gray_new_def grayed_new_def
    open_old_def opened_old_def decode_old_def decoded_old_def gray_old_def grayed_old_def
  by (auto simp: bnd_eq_Ret must_open_iff reset_new_file_def reset_old_file_def delete_file_maps sum_option_def
      split: option.splits sum.splits)

lemma load_effects_commute:
  "Option.bind (opened_new os s) (opened_old os) = Option.bind (opened_old os s) (opened_new os)"
  "Option.bind (opened_new os s) (decoded_old cv) = Option.bind (decoded_old cv s) (opened_new os)"
  "Option.bind (opened_new os s) (grayed_old cv) = Option.bind (grayed_old cv s) (opened_new os)"
  "Option.bind (decoded_new cv s) (opened_old os) = Option.bind (opened_old os s) (decoded_new cv)"
  "Option.bind (decoded_new cv s) (decoded_old cv) = Option.bind (decoded_old cv s) (decoded_new cv)"
  "Option.bind (decoded_new cv s) (grayed_old cv) = Option.bind (grayed_old cv s) (decoded_new cv)"
  "Option.bind (grayed_new cv s) (opened_old os) = Option.bind (opened_old os s) (grayed_new cv)"
  "Option.bind (grayed_new cv s) (decoded_old cv) = Option.bind (decoded_old cv s) (grayed_new cv)"
  "Option.bind (grayed_new cv s) (grayed_old cv) = Option.bind (grayed_old cv s) (grayed_new cv)"
  by (simp_all add: opened_new_def opened_old_def decoded_new_def decoded_old_def grayed_new_def grayed_old_def
      map_option_case bind_eq_Some_conv split: option.split Option.bind_split)

lemma commutes_sym: "commutes p q \<Longrightarrow> commutes q p"
  by (simp add: commutes_def)

lemma load_steps_commute:
  assumes "p \<in> {open_new os, decode_new cv, gray_new cv}" and "q \<in> {open_old os, decode_old cv, gray_old cv}"
  shows "commutes p q"
  using assms
  by (elim insertE emptyE)
    (simp_all add: gives_commutes [OF load_steps_give(1,4) load_effects_commute(1)]
      gives_commutes [OF load_steps_give(1,5) load_effects_commute(2)]
      gives_commutes [OF load_steps_give(1,6) load_effects_commute(3)]
      gives_commutes [OF load_steps_give(2,4) load_effects_commute(4)]
      gives_commutes [OF load_steps_give(2,5) load_effects_commute(5)]
      gives_commutes [OF load_steps_give(2,6) load_effects_commute(6)]
      gives_commutes [OF load_steps_give(3,4) load_effects_commute(7)]
      gives_commutes [OF load_steps_give(3,5) load_effects_commute(8)]
      gives_commutes [OF load_steps_give(3,6) load_effects_commute(9)])

interpretation loading: independent_tasks "load_tasks cv os" for cv os
proof
  fix i j p q
  assume ij: "i < length (load_tasks cv os)" "j < length (load_tasks cv os)" "i \<noteq> j"
    and p: "p \<in> set (load_tasks cv os ! i)" and q: "q \<in> set (load_tasks cv os ! j)"
  from ij consider "i = 0" "j = 1" | "i = 1" "j = 0" by (auto simp: load_tasks_def less_Suc_eq)
  then show "commutes p q"
  proof cases
    case 1
    with p q show ?thesis by (intro load_steps_commute [of _ os cv]) (simp_all add: load_tasks_def)
  next
    case 2
    with p q show ?thesis by (intro commutes_sym [OF load_steps_commute [of _ os cv]]) (simp_all add: load_tasks_def)
  qed
qed

text \<open>Without interleaving, the steps of a task are what the serial build runs.\<close>

lemma load_new_steps: "run_all [open_new os, decode_new cv, gray_new cv] = load_new cv os"
proof
  fix s
  show "run_all [open_new os, decode_new cv, gray_new cv] s = load_new cv os s"
  proof (cases "arg_new_file (arg s) = []")
    case True
    then show ?thesis by (simp add: open_new_def decode_new_def gray_new_def load_new_def ret_def)
  next
    case False
    show ?thesis
    proof (cases "must_open os (arg_new_file (arg s)) s")
      case (Pair r t)
      show ?thesis
      proof (cases r)
        case (Ret mf)
        with Pair False have "open_new os s = (Ret (), reset_new_file mf t)" "arg_new_file (arg t) \<noteq> []"
          by (auto simp: open_new_def upd_def must_open_iff)
        with Pair Ret False show ?thesis
          by (cases "decode_from_mapped_file cv mf IMREAD_COLOR")
            (simp_all add: load_new_def decode_new_def gray_new_def reset_new_file_def delete_file_maps upd_def halt_def
              bnd_def call_def ret_def ask_def split: sum.split)
      next
        case (Halt h)
        with Pair False show ?thesis by (simp add: open_new_def load_new_def)
      qed
    qed
  qed
qed

lemma load_old_steps: "run_all [open_old os, decode_old cv, gray_old cv] = load_old cv os"
proof
  fix s
  show "run_all [open_old os, decode_old cv, gray_old cv] s = load_old cv os s"
  proof (cases "arg_old_file (arg s) = []")
    case True
    then show ?thesis by (simp add: open_old_def decode_old_def gray_old_def load_old_def ret_def)
  next
    case False
    show ?thesis
    proof (cases "must_open os (arg_old_file (arg s)) s")
      case (Pair r t)
      show ?thesis
      proof (cases r)
        case (Ret mf)
        with Pair False have "open_old os s = (Ret (), reset_old_file mf t)" "arg_old_file (arg t) \<noteq> []"
          by (auto simp: open_old_def upd_def must_open_iff)
        with Pair Ret False show ?thesis
          by (cases "decode_from_mapped_file cv mf IMREAD_COLOR")
            (simp_all add: load_old_def decode_old_def gray_old_def reset_old_file_def delete_file_maps upd_def halt_def
              bnd_def call_def ret_def ask_def split: sum.split)
      next
        case (Halt h)
        with Pair False show ?thesis by (simp add: open_old_def load_old_def)
      qed
    qed
  qed
qed

lemma load_tasks_serial: "run_all (concat (load_tasks cv os)) = bnd (load_new cv os) (\<lambda>_. load_old cv os)"
  using load_new_steps [of os cv] load_old_steps [of os cv]
    run_all_append [of "[open_new os, decode_new cv, gray_new cv]" "[open_old os, decode_old cv, gray_old cv]"]
  by (simp add: load_tasks_def)

text \<open>
  C17. The task group of \<open>load_image\<close> in the parallel build: in whatever order the steps of the two
  tasks run, the group returns if and only if the serial build does, and in the same state. If
  the serial build returns, no schedule fails, and every schedule ends.
\<close>

theorem parallel_load_agrees:
  "(run_group (load_tasks cv os) s (Ret (), t) \<longleftrightarrow> bnd (load_new cv os) (\<lambda>_. load_old cv os) s = (Ret (), t)) \<and>
   (bnd (load_new cv os) (\<lambda>_. load_old cv os) s = (Ret (), t) \<longrightarrow> run_group (load_tasks cv os) s r \<longrightarrow> r = (Ret (), t)) \<and>
   (\<exists>r. run_group (load_tasks cv os) s r)"
  using loading.group_serial [of cv os s t] loading.group_deterministic [of cv os s t r]
    group_has_result [of "load_tasks cv os" s]
  unfolding load_tasks_serial by blast

section \<open>Computing the descriptors\<close>

text \<open>What one task of the loop over the descriptors does, in either list of segments.\<close>

definition with_descriptor :: "rat mat option \<Rightarrow> image_segment \<Rightarrow> image_segment" where
  "with_descriptor desc seg = (case desc of None \<Rightarrow> seg | Some d \<Rightarrow> seg\<lparr>seg_descriptor := d\<rparr>)"

lemma with_descriptor_roi [simp]: "seg_roi (with_descriptor desc seg) = seg_roi seg"
  by (simp add: with_descriptor_def split: option.split)

definition described ::
  "opencv \<Rightarrow> (state \<Rightarrow> image_segment list) \<Rightarrow>
   ((image_segment list \<Rightarrow> image_segment list) \<Rightarrow> state \<Rightarrow> state) \<Rightarrow> nat \<Rightarrow> state \<Rightarrow> state option"
where
  "described cv result upd_result i s = (case fst (compute_descriptor cv (seg_roi (result s ! i)) ()) of
       Halt h \<Rightarrow> None
     | Ret desc \<Rightarrow> Some (upd_result (\<lambda>segs. segs[i := with_descriptor desc (segs ! i)]) s))"

lemma run_all_for_each: "run_all (map body xs) = for_each xs body"
  by (induction xs) simp_all

context segment_store
begin

lemma describe_gives: "gives (describe_segment cv res upd_res i) (described cv res upd_res i)"
  unfolding gives_def describe_segment_def described_def with_descriptor_def
  by (auto simp: bnd_eq_Ret compute_descriptor_stateless [of _ _ "_ :: state"] upd_id
      split: outcome.splits option.splits)

end

section \<open>Drawing the outlines\<close>

text \<open>
  The tasks of \<open>draw_not_matched\<close> on the image they share; here the \<open>return\<close> ends one task. What
  OpenCV documents of \<open>cv::rectangle\<close>: it sets the pixels of a stroke, which depends on the
  rectangle and the thickness, to the colour. (Elements outside a matrix have no meaning.)
\<close>

definition draw_task :: "opencv \<Rightarrow> image_segment \<Rightarrow> bgr mat step" where
  "draw_task cv image_segment = (\<lambda>ret_mat.
     if seg_matched image_segment then (Ret (), ret_mat)
     else case cv_rectangle cv ret_mat (seg_area image_segment) (cv_RGB cv 0 255 0) 2 of
       Inl e \<Rightarrow> (Halt (Uncaught e), ret_mat)
     | Inr m \<Rightarrow> (Ret (), m))"

definition draw_tasks :: "opencv \<Rightarrow> image_segment list \<Rightarrow> bgr mat step list list" where
  "draw_tasks cv segments = map (\<lambda>image_segment. [draw_task cv image_segment]) segments"

definition tinted :: "(int \<Rightarrow> int \<Rightarrow> bool) \<Rightarrow> bgr \<Rightarrow> bgr mat \<Rightarrow> bgr mat" where
  "tinted P c m = m\<lparr>pix := (\<lambda>y x. if P y x then c else pix m y x)\<rparr>"

definition stroke_law :: "opencv \<Rightarrow> (rect \<Rightarrow> int \<Rightarrow> int \<Rightarrow> int \<Rightarrow> bool) \<Rightarrow> bool" where
  "stroke_law cv stroke \<longleftrightarrow> (\<forall>m r c w. cv_rectangle cv m r c w = Inr (tinted (stroke r w) (scalar_bgr c) m))"

definition outlined :: "(rect \<Rightarrow> int \<Rightarrow> int \<Rightarrow> int \<Rightarrow> bool) \<Rightarrow> image_segment list \<Rightarrow> int \<Rightarrow> int \<Rightarrow> bool" where
  "outlined stroke segs y x \<longleftrightarrow> (\<exists>seg \<in> set segs. \<not> seg_matched seg \<and> stroke (seg_area seg) 2 y x)"

lemma tinted_tinted: "tinted P c (tinted Q c m) = tinted (\<lambda>y x. Q y x \<or> P y x) c m"
  by (cases m) (auto simp: tinted_def fun_eq_iff)

lemma draw_task_tints:
  assumes "stroke_law cv stroke"
  shows "draw_task cv seg m = (Ret (), tinted (outlined stroke [seg]) (scalar_bgr (cv_RGB cv 0 255 0)) m)"
proof -
  have "cv_rectangle cv m (seg_area seg) (cv_RGB cv 0 255 0) 2 =
      Inr (tinted (stroke (seg_area seg) 2) (scalar_bgr (cv_RGB cv 0 255 0)) m)"
    using assms unfolding stroke_law_def by blast
  then show ?thesis
    by (cases "seg_matched seg") (simp_all add: draw_task_def outlined_def tinted_def)
qed

lemma draw_tasks_independent:
  assumes "stroke_law cv stroke"
  shows "independent_tasks (draw_tasks cv segs)"
proof
  fix i j p q
  assume "i < length (draw_tasks cv segs)" "j < length (draw_tasks cv segs)"
    "p \<in> set (draw_tasks cv segs ! i)" "q \<in> set (draw_tasks cv segs ! j)"
  then obtain seg seg' where "p = draw_task cv seg" "q = draw_task cv seg'" by (auto simp: draw_tasks_def)
  then show "commutes p q"
    by (auto simp: commutes_def bnd_eq_Ret draw_task_tints [OF assms] tinted_tinted disj_commute)
qed

lemma run_draw_tasks:
  assumes "stroke_law cv stroke"
  shows "run_all (concat (draw_tasks cv segs)) m =
    (Ret (), tinted (outlined stroke segs) (scalar_bgr (cv_RGB cv 0 255 0)) m)"
proof (induction segs arbitrary: m)
  case Nil
  show ?case by (simp add: draw_tasks_def outlined_def tinted_def ret_def)
next
  case (Cons seg segs)
  have "bnd (draw_task cv seg) (\<lambda>_. run_all (concat (draw_tasks cv segs))) m =
      (Ret (), tinted (\<lambda>y x. outlined stroke [seg] y x \<or> outlined stroke segs y x) (scalar_bgr (cv_RGB cv 0 255 0)) m)"
    by (simp add: draw_task_tints [OF assms] Cons tinted_tinted)
  moreover have "(\<lambda>y x. outlined stroke [seg] y x \<or> outlined stroke segs y x) = outlined stroke (seg # segs)"
    by (intro ext) (auto simp: outlined_def)
  ultimately show ?case by (simp add: draw_tasks_def)
qed

section \<open>Examples\<close>

theorem parallel_load_agrees_witness:
  "\<exists>r. run_group (load_tasks sample_cv sample_os) (parsed_state sample_args sample_options) r \<and> fst r = Ret () \<and>
     pix (new_gray_mat (snd r)) 0 0 = 7"
proof -
  let ?s = "parsed_state sample_args sample_options"
  let ?p = "bnd (load_new sample_cv sample_os) (\<lambda>_. load_old sample_cv sample_os) ?s"
  have p: "fst ?p = Ret ()" "pix (new_gray_mat (snd ?p)) 0 0 = 7" by code_simp+
  then have "?p = (Ret (), snd ?p)" by (metis prod.collapse)
  then have "run_group (load_tasks sample_cv sample_os) ?s (Ret (), snd ?p)"
    using parallel_load_agrees [of sample_cv sample_os ?s "snd ?p"] by blast
  with p(2) show ?thesis by force
qed

lemma stroke_law_sample: "stroke_law sample_cv (\<lambda>r w. on_border r)"
  by (simp add: stroke_law_def sample_cv_def tinted_def scalar_bgr_def)

end
