(* ===== verification/Task_Trees.thy ===== *)
theory Task_Trees
  imports Task_Groups
begin

text \<open>
  Tasks of the parallel build that carry local variables and start groups of their own, as
  \<open>do_detect\<close> does: a task is a tree of steps. The contract \<open>growing\<close> collects what every step of a
  program guarantees; \<open>secures\<close> is a rely and guarantee judgement on one task, and
  \<open>separated\<close> says when the tasks of a group do not disturb each other, so that their judgements
  add up to one on the group.
\<close>

section \<open>Task trees\<close>

text \<open>
  \<open>Act\<close> is one step on the shared state, whose result is the rest of the task. \<open>Fork\<close> is a group of
  tasks with whether each has started, the exception it will throw, and what follows it.
\<close>

datatype 's task =
    Done
  | Act "'s \<Rightarrow> 's task outcome \<times> 's"
  | Fork "(bool \<times> 's task) list" "string option" "'s task"

text \<open>
  Groups inside the tasks of a cancelled group are cancelled with it (task_group_context.cpp of the
  vendored TBB): a task that has not started is dropped, at any depth. The group that loses it does
  not throw for this.
\<close>

inductive dropped :: "'s task \<Rightarrow> 's task \<Rightarrow> bool" where
  here: "k < length ts \<Longrightarrow> ts ! k = (False, p) \<Longrightarrow> p \<noteq> Done \<Longrightarrow>
    dropped (Fork ts exc c) (Fork (ts[k := (True, Done)]) exc c)"
| deeper: "k < length ts \<Longrightarrow> ts ! k = (b, p) \<Longrightarrow> dropped p q \<Longrightarrow>
    dropped (Fork ts exc c) (Fork (ts[k := (True, q)]) exc c)"

inductive_cases dropped_DoneE [elim!]: "dropped Done q"
inductive_cases dropped_ActE [elim!]: "dropped (Act f) q"

inductive task_step :: "'s task \<Rightarrow> 's \<Rightarrow> 's task outcome \<Rightarrow> 's \<Rightarrow> bool" where
  act: "f s = (r, t) \<Longrightarrow> task_step (Act f) s r t"
| child: "k < length ts \<Longrightarrow> ts ! k = (b, p) \<Longrightarrow> task_step p s (Ret q) t \<Longrightarrow>
    task_step (Fork ts exc c) s (Ret (Fork (ts[k := (True, q)]) exc c)) t"
| throw: "k < length ts \<Longrightarrow> ts ! k = (b, p) \<Longrightarrow> task_step p s (Halt (Uncaught e)) t \<Longrightarrow>
    task_step (Fork ts exc c) s
      (Ret (Fork (ts[k := (True, Done)]) (Some (case exc of None \<Rightarrow> e | Some first \<Rightarrow> first)) c)) t"
| die: "k < length ts \<Longrightarrow> ts ! k = (b, p) \<Longrightarrow> task_step p s (Halt h) t \<Longrightarrow> (\<And>e. h \<noteq> Uncaught e) \<Longrightarrow>
    task_step (Fork ts exc c) s (Halt h) t"
| cancel: "k < length ts \<Longrightarrow> ts ! k = (False, p) \<Longrightarrow> p \<noteq> Done \<Longrightarrow>
    task_step (Fork ts (Some e) c) s (Ret (Fork (ts[k := (True, Done)]) (Some e) c)) s"
| inside: "k < length ts \<Longrightarrow> ts ! k = (b, p) \<Longrightarrow> dropped p q \<Longrightarrow>
    task_step (Fork ts (Some e) c) s (Ret (Fork (ts[k := (True, q)]) (Some e) c)) s"
| join: "list_all (\<lambda>t. snd t = Done) ts \<Longrightarrow> task_step (Fork ts None c) s (Ret c) s"
| rethrow: "list_all (\<lambda>t. snd t = Done) ts \<Longrightarrow> task_step (Fork ts (Some e) c) s (Halt (Uncaught e)) s"

inductive_cases Done_stepE [elim!]: "task_step Done s r t"
inductive_cases Act_stepE [elim!]: "task_step (Act f) s r t"
inductive_cases Fork_stepE: "task_step (Fork ts exc c) s r t"

text \<open>A complete run, in some interleaving.\<close>

inductive run_task :: "'s task \<Rightarrow> 's \<Rightarrow> unit outcome \<times> 's \<Rightarrow> bool" where
  finish: "run_task Done s (Ret (), s)"
| step: "task_step p s (Ret q) t \<Longrightarrow> run_task q t r \<Longrightarrow> run_task p s r"
| halt: "task_step p s (Halt h) t \<Longrightarrow> run_task p s (Halt h, t)"

text \<open>A program as one step that is followed by the rest of the task.\<close>

definition atom :: "('s, 'a) prog \<Rightarrow> ('a \<Rightarrow> 's task) \<Rightarrow> 's task" where
  "atom p k = Act (\<lambda>s. case p s of (Ret x, t) \<Rightarrow> (Ret (k x), t) | (Halt h, t) \<Rightarrow> (Halt h, t))"

primrec task_of :: "'s step list \<Rightarrow> 's task" where
  "task_of [] = Done"
| "task_of (p # ps) = atom p (\<lambda>_. task_of ps)"

definition fork :: "'s task list \<Rightarrow> 's task \<Rightarrow> 's task" where
  "fork tasks c = Fork (map (Pair False) tasks) None c"

section \<open>Every schedule ends\<close>

definition next_task :: "('s task \<times> 's task) set" where
  "next_task = {(q, p). (\<exists>s t. task_step p s (Ret q) t) \<or> dropped p q}"

lemma dropped_next: "dropped p q \<Longrightarrow> (q, p) \<in> next_task"
  by (simp add: next_task_def)

text \<open>How one member of a group can change.\<close>

definition next_member :: "((bool \<times> 's task) \<times> (bool \<times> 's task)) set" where
  "next_member = {((b', q), (b, p)). (q, p) \<in> next_task \<or> q = Done \<and> p \<noteq> Done}"

lemma Done_acc: "Done \<in> Wellfounded.acc next_task"
  by (rule accI) (auto simp: next_task_def)

lemma member_acc: "p \<in> Wellfounded.acc next_task \<Longrightarrow> (b, p) \<in> Wellfounded.acc next_member"
proof (induction arbitrary: b rule: acc_induct_rule)
  case (1 p)
  have ended: "(b, Done :: 'a task) \<in> Wellfounded.acc next_member" for b
    by (rule accI) (auto simp: next_member_def next_task_def)
  show ?case
  proof (rule accI)
    fix y assume "(y, b, p) \<in> next_member"
    then consider b' q where "y = (b', q)" "(q, p) \<in> next_task" | b' where "y = (b', Done)"
      by (auto simp: next_member_def)
    then show "y \<in> Wellfounded.acc next_member" by cases (use 1 ended in blast)+
  qed
qed

lemma update_listrel1:
  assumes "k < length xs" and "(y, xs ! k) \<in> r"
  shows "(xs[k := y], xs) \<in> listrel1 r"
  using assms by (intro listrel1I [of y "xs ! k" r _ "take k xs" "drop (Suc k) xs"])
    (simp_all add: upd_conv_take_nth_drop id_take_nth_drop)

lemma member_update:
  assumes "k < length ts" and "ts ! k = (b, p)" and "(q, p) \<in> next_task \<or> q = Done \<and> p \<noteq> Done"
  shows "(ts[k := (True, q)], ts) \<in> listrel1 next_member"
  using assms by (intro update_listrel1) (auto simp: next_member_def)

lemma Fork_acc:
  assumes "ts \<in> Wellfounded.acc (listrel1 next_member)" and "c \<in> Wellfounded.acc next_task"
  shows "Fork ts exc c \<in> Wellfounded.acc next_task"
  using assms(1)
proof (induction arbitrary: exc rule: acc_induct_rule)
  case (1 ts)
  have change: "Fork (ts[k := (True, q)]) exc' c \<in> Wellfounded.acc next_task"
    if "k < length ts" "ts ! k = (b, p)" "(q, p) \<in> next_task \<or> q = Done \<and> p \<noteq> Done" for k b p q exc'
    using 1(2) [OF member_update [OF that]] .
  show ?case
  proof (rule accI)
    fix q assume "(q, Fork ts exc c) \<in> next_task"
    then consider (step) s t where "task_step (Fork ts exc c) s (Ret q) t" | (drop) "dropped (Fork ts exc c) q"
      by (auto simp: next_task_def)
    then show "q \<in> Wellfounded.acc next_task"
    proof cases
      case drop
      then show ?thesis by cases (auto intro: change dropped_next)
    next
      case step
      then show ?thesis
      proof cases
        case (child k b p q')
        then have "(q', p) \<in> next_task" by (auto simp: next_task_def)
        with child show ?thesis by (auto intro: change)
      next
        case (throw k b p e)
        moreover from throw have "p \<noteq> Done" by auto
        ultimately show ?thesis by (auto intro: change)
      next
        case (inside k b p q' e)
        then show ?thesis by (auto intro: change dropped_next)
      qed (use assms(2) in \<open>auto intro: change\<close>)
    qed
  qed
qed

lemma task_acc: "p \<in> Wellfounded.acc next_task"
proof (induction p)
  case Done
  show ?case by (rule Done_acc)
next
  case (Act f)
  show ?case
  proof (rule accI)
    fix q assume "(q, Act f) \<in> next_task"
    then obtain s t where "f s = (Ret q, t)" by (auto simp: next_task_def)
    then have "(Ret q, t) \<in> range f" by (metis rangeI)
    then show "q \<in> Wellfounded.acc next_task" using Act [of "(Ret q, t)" "Ret q" q] by (simp add: prod_set_defs)
  qed
next
  case (Fork ts exc c)
  have "ts \<in> Wellfounded.acc (listrel1 next_member)"
  proof (rule lists_accD)
    show "ts \<in> lists (Wellfounded.acc next_member)"
      using Fork(1) by (force intro: member_acc simp: prod_set_defs)
  qed
  then show ?case using Fork(2) by (rule Fork_acc)
qed

lemma task_progress: "p \<noteq> Done \<Longrightarrow> \<exists>r t. task_step p s r t"
proof (induction p)
  case (Act f)
  show ?case using task_step.act [of f s "fst (f s)" "snd (f s)"] by (intro exI) simp
next
  case (Fork ts exc c)
  show ?case
  proof (cases "list_all (\<lambda>t. snd t = Done) ts")
    case True
    then show ?thesis by (cases exc) (blast intro: task_step.join task_step.rethrow)+
  next
    case False
    then obtain k where k: "k < length ts" "snd (ts ! k) \<noteq> Done" by (auto simp: list_all_length)
    obtain b p where p: "ts ! k = (b, p)" by (cases "ts ! k")
    have "ts ! k \<in> set ts" using k(1) by simp
    with k p Fork(1) [of "ts ! k" p] obtain r t where rt: "task_step p s r t" by (auto simp: prod_set_defs)
    show ?thesis
    proof (cases r)
      case (Ret q)
      with rt k p show ?thesis by (blast intro: task_step.child)
    next
      case (Halt h)
      with rt k p show ?thesis by (cases h) (blast intro: task_step.throw task_step.die)+
    qed
  qed
qed simp

text \<open>A schedule always leads to a result.\<close>

lemma task_has_result: "\<exists>r. run_task p s r"
  using task_acc [of p]
proof (induction arbitrary: s rule: acc_induct_rule)
  case (1 p)
  show ?case
  proof (cases "p = Done")
    case False
    from task_progress [OF this, of s] obtain r t where rt: "task_step p s r t" by (elim exE)
    show ?thesis
    proof (cases r)
      case (Ret q)
      with rt have "(q, p) \<in> next_task" by (auto simp: next_task_def)
      then obtain r' where "run_task q t r'" using 1(2) [of q t] by blast
      with rt Ret show ?thesis by (blast intro: run_task.step)
    next
      case (Halt h)
      with rt show ?thesis by (blast intro: run_task.halt)
    qed
  qed (blast intro: run_task.finish)
qed

section \<open>One task after the other\<close>

lemma cancel_all:
  assumes "\<And>t. t \<in> set ts \<Longrightarrow> snd t = Done \<or> \<not> fst t"
  shows "run_task (Fork ts (Some e) c) s (Halt (Uncaught e), s)"
  using assms
proof (induction "length (filter (\<lambda>t. snd t \<noteq> Done) ts)" arbitrary: ts rule: less_induct)
  case less
  show ?case
  proof (cases "list_all (\<lambda>t. snd t = Done) ts")
    case True
    then show ?thesis by (intro run_task.halt task_step.rethrow)
  next
    case False
    then obtain k where k: "k < length ts" "snd (ts ! k) \<noteq> Done" by (auto simp: list_all_length)
    then have "\<not> fst (ts ! k)" using less.prems [OF nth_mem [OF k(1)]] by simp
    then obtain p where p: "ts ! k = (False, p)" by (cases "ts ! k") simp
    let ?ts = "ts[k := (True, Done)]"
    have "length (filter (\<lambda>t. snd t \<noteq> Done) ?ts) < length (filter (\<lambda>t. snd t \<noteq> Done) ts)"
      using k by (subst (2) id_take_nth_drop [OF k(1)]) (simp add: upd_conv_take_nth_drop)
    moreover have "snd t = Done \<or> \<not> fst t" if "t \<in> set ?ts" for t
      using that less.prems [of t] set_update_subset_insert [of ts k "(True, Done)"] by fastforce
    ultimately have "run_task (Fork ?ts (Some e) c) s (Halt (Uncaught e), s)" by (rule less.hyps)
    with task_step.cancel [OF k(1) p, of e c s] k p show ?thesis by (auto intro: run_task.step)
  qed
qed

text \<open>A member of a group runs alone while the others wait.\<close>

lemma member_runs:
  assumes "run_task p s (r, t)"
    and "r = Ret () \<Longrightarrow> run_task (Fork (before @ (True, Done) # after) None c) t r'"
    and "\<And>h. r = Halt h \<Longrightarrow> r' = (Halt h, t)"
    and others: "\<And>m. m \<in> set (before @ after) \<Longrightarrow> snd m = Done \<or> \<not> fst m"
  shows "p \<noteq> Done \<or> b \<Longrightarrow> run_task (Fork (before @ (b, p) # after) None c) s r'"
  using assms(1-3)
proof (induction p s "(r, t)" arbitrary: b)
  case (finish s)
  then show ?case by simp
next
  case (step p s q u)
  have "task_step (Fork (before @ (b, p) # after) None c) s (Ret (Fork (before @ (True, q) # after) None c)) u"
    using task_step.child [of "length before" "before @ (b, p) # after" b p s q u None c] step.hyps(1)
    by (simp add: list_update_append)
  then show ?case using step by (auto intro: run_task.step)
next
  case (halt p s h)
  let ?ts = "before @ (b, p) # after"
  show ?case
  proof (cases "\<exists>e. h = Uncaught e")
    case True
    then obtain e where h: "h = Uncaught e" ..
    then have "task_step (Fork ?ts None c) s (Ret (Fork (before @ (True, Done) # after) (Some e) c)) t"
      using task_step.throw [of "length before" ?ts b p s e t None c] halt.hyps by (simp add: list_update_append)
    moreover have "run_task (Fork (before @ (True, Done) # after) (Some e) c) t (Halt (Uncaught e), t)"
      by (rule cancel_all) (use others in auto)
    ultimately show ?thesis using halt h by (auto intro: run_task.step)
  next
    case False
    then have "task_step (Fork ?ts None c) s (Halt h) t"
      using task_step.die [of "length before" ?ts b p s h t None c] halt.hyps by simp
    then show ?thesis using halt by (auto intro: run_task.halt)
  qed
qed

text \<open>
  \<open>serially T p\<close>: the program \<open>p\<close>, followed by the rest of the task, is one of the schedules of the
  task \<open>T\<close> with the same rest.
\<close>

definition serially :: "(('a \<Rightarrow> 's task) \<Rightarrow> 's task) \<Rightarrow> ('s, 'a) prog \<Rightarrow> bool" where
  "serially T p \<longleftrightarrow> (\<forall>k s. case p s of
     (Ret x, t) \<Rightarrow> (\<forall>r. run_task (k x) t r \<longrightarrow> run_task (T k) s r)
   | (Halt h, t) \<Rightarrow> run_task (T k) s (Halt h, t))"

lemma seriallyI:
  assumes "\<And>k s x t r. p s = (Ret x, t) \<Longrightarrow> run_task (k x) t r \<Longrightarrow> run_task (T k) s r"
    and "\<And>k s h t. p s = (Halt h, t) \<Longrightarrow> run_task (T k) s (Halt h, t)"
  shows "serially T p"
  using assms unfolding serially_def by (simp split: prod.split outcome.split)

lemma serially_Ret: "serially T p \<Longrightarrow> p s = (Ret x, t) \<Longrightarrow> run_task (k x) t r \<Longrightarrow> run_task (T k) s r"
  unfolding serially_def by (drule spec [of _ k], drule spec [of _ s], cases r) simp

lemma serially_Halt: "serially T p \<Longrightarrow> p s = (Halt h, t) \<Longrightarrow> run_task (T k) s (Halt h, t)"
  unfolding serially_def by (drule spec [of _ k], drule spec [of _ s]) simp

lemma serially_run: "serially T p \<Longrightarrow> run_task (T (\<lambda>_. Done)) s (p s)" for p :: "('s, unit) prog"
  by (cases "p s"; cases "fst (p s)") (auto intro: serially_Ret serially_Halt run_task.finish)

lemma serially_atom: "serially (atom p) p"
proof (rule seriallyI)
  fix k s x t r
  assume "p s = (Ret x, t)" "run_task (k x) t r"
  then show "run_task (atom p k) s r"
    unfolding atom_def by (intro run_task.step [OF task_step.act]) simp_all
next
  fix k s h t
  assume "p s = (Halt h, t)"
  then show "run_task (atom p k) s (Halt h, t)"
    unfolding atom_def by (intro run_task.halt [OF task_step.act]) simp
qed

lemma serially_bnd:
  assumes "serially T p" and "\<And>x. serially (U x) (q x)"
  shows "serially (\<lambda>k. T (\<lambda>x. U x k)) (bnd p q)"
proof (rule seriallyI)
  fix k s y t r
  assume "bnd p q s = (Ret y, t)" and k: "run_task (k y) t r"
  then obtain x u where "p s = (Ret x, u)" "q x u = (Ret y, t)" by (elim bnd_RetE)
  with k show "run_task (T (\<lambda>x. U x k)) s r" by (auto intro: serially_Ret [OF assms(1)] serially_Ret [OF assms(2)])
next
  fix k s h t
  assume bnd: "bnd p q s = (Halt h, t)"
  obtain o1 u where pu: "p s = (o1, u)" by (cases "p s")
  show "run_task (T (\<lambda>x. U x k)) s (Halt h, t)"
  proof (cases o1)
    case (Ret x)
    with bnd pu have "q x u = (Halt h, t)" by (simp add: bnd_def)
    with pu Ret show ?thesis by (auto intro: serially_Ret [OF assms(1)] serially_Halt [OF assms(2)])
  next
    case (Halt h')
    with bnd pu show ?thesis by (auto simp: bnd_def intro: serially_Halt [OF assms(1)])
  qed
qed

lemma serially_ret: "serially (\<lambda>k. k x) (ret x)"
  by (simp add: serially_def ret_def)

lemma serially_fork:
  assumes "\<And>T p. (T, p) \<in> set Tps \<Longrightarrow> serially T p \<and> T (\<lambda>_. Done) \<noteq> Done"
  shows "serially (\<lambda>k. fork (map (\<lambda>(T, p). T (\<lambda>_. Done)) Tps) (k ())) (run_all (map snd Tps))"
proof -
  have "case run_all (map snd Tps) s of
      (Ret x, t) \<Rightarrow> (\<forall>r. run_task c t r \<longrightarrow> run_task (Fork (ds @ map (\<lambda>(T, p). (False, T (\<lambda>_. Done))) Tps) None c) s r)
    | (Halt h, t) \<Rightarrow> run_task (Fork (ds @ map (\<lambda>(T, p). (False, T (\<lambda>_. Done))) Tps) None c) s (Halt h, t)"
    if "\<And>m. m \<in> set ds \<Longrightarrow> snd m = Done" for ds c s
    using assms that
  proof (induction Tps arbitrary: ds s)
    case Nil
    then have "list_all (\<lambda>t. snd t = Done) ds" by (simp add: list_all_iff)
    from task_step.join [OF this] show ?case by (auto simp: ret_def intro: run_task.step)
  next
    case (Cons Tp Tps)
    obtain T p where Tp: "Tp = (T, p)" by (cases Tp)
    have T: "serially T p" "T (\<lambda>_. Done) \<noteq> Done" using Cons.prems(1) Tp by auto
    let ?rest = "map (\<lambda>(T, p). (False, T (\<lambda>_. Done))) Tps"
    have others: "snd m = Done \<or> \<not> fst m" if "m \<in> set (ds @ ?rest)" for m
      using that Cons.prems(2) [of m] by auto
    show ?case
    proof (cases "p s")
      case (Pair o1 u)
      show ?thesis
      proof (cases o1)
        case (Halt h)
        then have "run_task (T (\<lambda>_. Done)) s (Halt h, u)" using serially_Halt [OF T(1)] Pair by simp
        then have "run_task (Fork (ds @ (False, T (\<lambda>_. Done)) # ?rest) None c) s (Halt h, u)"
          by (rule member_runs) (use T(2) others in simp_all)
        then show ?thesis using Pair Halt by (simp add: Tp bnd_def)
      next
        case (Ret x)
        then have run: "run_task (T (\<lambda>_. Done)) s (Ret (), u)"
          using serially_Ret [OF T(1) _ run_task.finish] Pair by simp
        have IH: "case run_all (map snd Tps) u of
            (Ret x, t) \<Rightarrow> (\<forall>r. run_task c t r \<longrightarrow> run_task (Fork ((ds @ [(True, Done)]) @ ?rest) None c) u r)
          | (Halt h, t) \<Rightarrow> run_task (Fork ((ds @ [(True, Done)]) @ ?rest) None c) u (Halt h, t)"
          by (rule Cons.IH) (use Cons.prems in auto)
        have lift: "run_task (Fork ((ds @ [(True, Done)]) @ ?rest) None c) u r' \<Longrightarrow>
            run_task (Fork (ds @ (False, T (\<lambda>_. Done)) # ?rest) None c) s r'" for r'
          by (rule member_runs [OF run]) (use T(2) others in simp_all)
        have "run_all (map snd (Tp # Tps)) s = run_all (map snd Tps) u" using Pair Ret by (simp add: Tp bnd_def)
        with IH lift show ?thesis by (auto simp: Tp split: prod.splits outcome.splits)
      qed
    qed
  qed
  note all = this [of "[]", simplified]
  have forked: "fork (map (\<lambda>(T, p). T (\<lambda>_. Done)) Tps) c = Fork (map (\<lambda>(T, p). (False, T (\<lambda>_. Done))) Tps) None c" for c
    by (simp add: fork_def case_prod_unfold)
  show ?thesis
  proof (rule seriallyI)
    fix k :: "unit \<Rightarrow> 'a task" and s x t r
    assume "run_all (map snd Tps) s = (Ret x, t)" "run_task (k x) t r"
    then show "run_task (fork (map (\<lambda>(T, p). T (\<lambda>_. Done)) Tps) (k ())) s r"
      using all [where s = s and c = "k ()"] by (cases r) (simp add: forked)
  next
    fix k :: "unit \<Rightarrow> 'a task" and s h t
    assume "run_all (map snd Tps) s = (Halt h, t)"
    then show "run_task (fork (map (\<lambda>(T, p). T (\<lambda>_. Done)) Tps) (k ())) s (Halt h, t)"
      using all [where s = s and c = "k ()"] by (simp add: forked)
  qed
qed

section \<open>Groups of straight-line tasks\<close>

text \<open>The groups of \<open>Task_Groups\<close> are the trees whose members are lists of steps.\<close>

definition tree :: "(bool \<times> 's step list) list \<Rightarrow> string option \<Rightarrow> 's task" where
  "tree ts exc = Fork (map (\<lambda>(b, ps). (b, task_of ps)) ts) exc Done"

lemma task_of_Done [simp]: "task_of ps = Done \<longleftrightarrow> ps = []"
  by (cases ps) (simp_all add: atom_def)

lemma task_of_step:
  "task_step (task_of ps) s r t \<longleftrightarrow> (\<exists>p qs. ps = p # qs \<and>
     ((\<exists>u. p s = (Ret u, t) \<and> r = Ret (task_of qs)) \<or> (\<exists>h. p s = (Halt h, t) \<and> r = Halt h)))"
proof (cases ps)
  case (Cons p qs)
  have "task_step (task_of ps) s r t \<longleftrightarrow> (case p s of (Ret x, t) \<Rightarrow> (Ret (task_of qs), t) | (Halt h, t) \<Rightarrow> (Halt h, t)) = (r, t)"
    unfolding Cons by (auto simp: atom_def intro: task_step.act)
  then show ?thesis using Cons by (auto split: prod.splits outcome.splits)
qed auto

lemma tree_update: "k < length ts \<Longrightarrow> tree (ts[k := (b, ps)]) exc = Fork ((map (\<lambda>(b, ps). (b, task_of ps)) ts)[k := (b, task_of ps)]) exc Done"
  by (simp add: tree_def map_update)

lemma tree_over: "list_all (\<lambda>t. snd t = Done) (map (\<lambda>(b, ps). (b, task_of ps)) ts) \<longleftrightarrow> list_all (\<lambda>t. snd t = []) ts"
  by (auto simp: list_all_iff)

lemma tree_member: "k < length ts \<Longrightarrow> ts ! k = (b, ps) \<Longrightarrow> map (\<lambda>(b, ps). (b, task_of ps)) ts ! k = (b, task_of ps)"
  by simp

lemma group_step_tree:
  assumes "group_step (Running ts exc s) g"
  shows "case g of Running ts' exc' t \<Rightarrow> task_step (tree ts exc) s (Ret (tree ts' exc')) t
    | Ended h t \<Rightarrow> task_step (tree ts exc) s (Halt h) t"
  using assms
proof cases
  case (go k b p ps u t)
  then have "task_step (task_of (p # ps)) s (Ret (task_of ps)) t" by (simp only: task_of_step) simp
  from task_step.child [OF _ tree_member [OF go(2,3)] this] go show ?thesis by (simp add: tree_update) (simp add: tree_def)
next
  case (throw k b p ps e t)
  then have "task_step (task_of (p # ps)) s (Halt (Uncaught e)) t" by (simp only: task_of_step) simp
  from task_step.throw [OF _ tree_member [OF throw(2,3)] this] throw
  show ?thesis by (simp add: tree_update) (simp add: tree_def)
next
  case (die k b p ps h t)
  then have "task_step (task_of (p # ps)) s (Halt h) t" by (simp only: task_of_step) simp
  from task_step.die [OF _ tree_member [OF die(2,3)] this] die show ?thesis by (simp add: tree_def)
next
  case (cancel k p ps e)
  from task_step.cancel [OF _ tree_member [OF cancel(3,4)]] cancel
  show ?thesis by (simp add: tree_update del: task_of.simps(2)) (simp add: tree_def del: task_of.simps(2))
qed

lemma tree_step_group:
  assumes "task_step (tree ts exc) s r t" and "\<not> list_all (\<lambda>t. snd t = []) ts"
  shows "(\<exists>ts' exc'. r = Ret (tree ts' exc') \<and> group_step (Running ts exc s) (Running ts' exc' t)) \<or>
    (\<exists>h. r = Halt h \<and> group_step (Running ts exc s) (Ended h t))"
  using assms(1) unfolding tree_def [of ts exc]
proof cases
  case (child k b p q)
  then obtain ps where k: "k < length ts" "ts ! k = (b, ps)" "p = task_of ps" by (cases "ts ! k") auto
  with child(4) obtain p' qs u where p: "ps = p' # qs" "p' s = (Ret u, t)" "q = task_of qs"
    by (auto simp: task_of_step)
  have "r = Ret (tree (ts[k := (True, qs)]) exc)" using child(1) k(1) p(3) by (simp add: tree_update)
  then show ?thesis using group_step.go [OF k(1) k(2) [unfolded p(1)] p(2)] by blast
next
  case (throw k b p e)
  then obtain ps where k: "k < length ts" "ts ! k = (b, ps)" "p = task_of ps" by (cases "ts ! k") auto
  with throw(4) obtain p' qs where p: "ps = p' # qs" "p' s = (Halt (Uncaught e), t)"
    by (auto simp: task_of_step)
  have "r = Ret (tree (ts[k := (True, [])]) (Some (case exc of None \<Rightarrow> e | Some first \<Rightarrow> first)))"
    using throw(1) k(1) by (simp add: tree_update)
  then show ?thesis using group_step.throw [OF k(1) k(2) [unfolded p(1)] p(2)] by blast
next
  case (die k b p h)
  then obtain ps where k: "k < length ts" "ts ! k = (b, ps)" "p = task_of ps" by (cases "ts ! k") auto
  with die(4) obtain p' qs where p: "ps = p' # qs" "p' s = (Halt h, t)" by (auto simp: task_of_step)
  then show ?thesis using group_step.die [OF k(1) k(2) [unfolded p(1)] p(2) die(5)] die(1) by blast
next
  case (cancel k p e)
  then obtain ps where k: "k < length ts" "ts ! k = (False, ps)" "p = task_of ps" by (cases "ts ! k") auto
  with cancel obtain p' qs where p: "ps = p' # qs" by (cases ps) auto
  have "r = Ret (tree (ts[k := (True, [])]) (Some e))" using cancel(2) k(1) by (simp add: tree_update)
  then show ?thesis using group_step.cancel [OF k(1) k(2) [unfolded p]] cancel(1,3) by blast
next
  case (inside k b p q e)
  then obtain ps where "p = task_of ps" by (cases "ts ! k") auto
  with inside show ?thesis by (cases ps) (auto simp: atom_def)
qed (use assms(2) in \<open>simp_all add: tree_over\<close>)

primrec group_tree :: "'s group \<Rightarrow> unit outcome \<times> 's \<Rightarrow> bool" where
  "group_tree (Running ts exc s) r \<longleftrightarrow> run_task (tree ts exc) s r"
| "group_tree (Ended h s) r \<longleftrightarrow> r = (Halt h, s)"

lemma group_tree_step: "group_step g h \<Longrightarrow> group_tree h r \<Longrightarrow> group_tree g r"
proof (cases g)
  case (Running ts exc s)
  assume "group_step g h" "group_tree h r"
  with Running group_step_tree [of ts exc s h] show ?thesis
    by (cases h) (auto intro: run_task.step run_task.halt)
qed (auto elim: group_step.cases)

lemma group_tree_over: "over g \<Longrightarrow> group_tree g (group_result g)"
proof (cases g)
  case (Running ts exc s)
  assume "over g"
  with Running have ov: "list_all (\<lambda>t. snd t = Done) (map (\<lambda>(b, ps). (b, task_of ps)) ts)" by (simp add: tree_over)
  show ?thesis
  proof (cases exc)
    case None
    with Running ov show ?thesis
      using run_task.step [OF task_step.join [OF ov] run_task.finish] by (simp add: tree_def)
  next
    case (Some e)
    with Running ov show ?thesis using run_task.halt [OF task_step.rethrow [OF ov]] by (simp add: tree_def)
  qed
qed simp

lemma over_step:
  assumes "list_all (\<lambda>t. snd t = Done) ts" and "task_step (Fork ts exc c) s r t"
  shows "t = s \<and> r = (case exc of None \<Rightarrow> Ret c | Some e \<Rightarrow> Halt (Uncaught e))"
proof -
  have "p = Done" if "k < length ts" "ts ! k = (b, p)" for k b p
    using assms(1) that by (auto simp: list_all_length)
  with assms(2) show ?thesis by cases (simp_all, blast+)
qed

lemma tree_over_step:
  assumes "list_all (\<lambda>t. snd t = []) ts" and "task_step (tree ts exc) s r t"
  shows "t = s \<and> r = (case exc of None \<Rightarrow> Ret Done | Some e \<Rightarrow> Halt (Uncaught e))"
  using assms(2) unfolding tree_def by (rule over_step [rotated]) (simp add: tree_over assms(1))

lemma tree_run_group:
  assumes "run_task p s r" and "p = tree ts exc"
  shows "\<exists>g. group_step\<^sup>*\<^sup>* (Running ts exc s) g \<and> over g \<and> group_result g = r"
  using assms
proof (induction arbitrary: ts exc)
  case (finish s)
  then show ?case by (simp add: tree_def)
next
  case (step p s q t r)
  show ?case
  proof (cases "list_all (\<lambda>t. snd t = []) ts")
    case True
    from tree_over_step [OF True step.hyps(1) [unfolded step.prems]] have "q = Done" "t = s" "exc = None"
      by (auto split: option.splits)
    moreover from this step.hyps(2) have "r = (Ret (), s)" by (auto elim: run_task.cases)
    ultimately show ?thesis using True by (intro exI [of _ "Running ts exc s"]) simp
  next
    case False
    from tree_step_group [OF step.hyps(1) [unfolded step.prems] False] obtain ts' exc' where
      "q = tree ts' exc'" "group_step (Running ts exc s) (Running ts' exc' t)" by auto
    with step.IH [of ts' exc'] show ?thesis by (meson converse_rtranclp_into_rtranclp)
  qed
next
  case (halt p s h t)
  show ?case
  proof (cases "list_all (\<lambda>t. snd t = []) ts")
    case True
    from tree_over_step [OF True halt.hyps [unfolded halt.prems]] have "\<exists>e. h = Uncaught e \<and> exc = Some e" "t = s"
      by (auto split: option.splits)
    then show ?thesis using True by (intro exI [of _ "Running ts exc s"]) auto
  next
    case False
    from tree_step_group [OF halt.hyps [unfolded halt.prems] False]
    have "group_step (Running ts exc s) (Ended h t)" by auto
    then show ?thesis by (intro exI [of _ "Ended h t"]) auto
  qed
qed

lemma group_is_fork: "run_group tasks s r \<longleftrightarrow> run_task (fork (map task_of tasks) Done) s r"
proof -
  have start: "tree (map (Pair False) tasks) None = fork (map task_of tasks) Done"
    by (simp add: tree_def fork_def)
  show ?thesis
  proof
    assume "run_group tasks s r"
    then obtain g where g: "group_step\<^sup>*\<^sup>* (group_start tasks s) g" "over g" "group_result g = r"
      by (auto simp: run_group_def)
    from g(1) have "group_tree (group_start tasks s) r"
      using group_tree_over [OF g(2)] g(3) by (induction rule: converse_rtranclp_induct) (auto intro: group_tree_step)
    then show "run_task (fork (map task_of tasks) Done) s r" by (simp add: group_start_def start)
  next
    assume "run_task (fork (map task_of tasks) Done) s r"
    from tree_run_group [OF this start [symmetric]] show "run_group tasks s r"
      by (simp add: run_group_def group_start_def)
  qed
qed

section \<open>Rely and guarantee\<close>

text \<open>
  Every step of the program lets the state grow in some sense; a condition is lasting if growth
  keeps it, so that a task may rely on it whatever the others do.
\<close>

definition lasting :: "('s \<Rightarrow> 's \<Rightarrow> bool) \<Rightarrow> ('s \<Rightarrow> bool) \<Rightarrow> bool" where
  "lasting grew N \<longleftrightarrow> (\<forall>s t. grew s t \<longrightarrow> N s \<longrightarrow> N t)"

lemma lastingD: "lasting grew N \<Longrightarrow> grew s t \<Longrightarrow> N s \<Longrightarrow> N t"
  by (auto simp: lasting_def)

text \<open>
  \<open>secures grew V F b N p a\<close>: started with \<open>a\<close> in its part \<open>V\<close> of the state, the task \<open>p\<close> ends
  with \<open>b\<close> there. It relies on the others not to change its part and on the lasting condition \<open>N\<close>;
  each of its steps guarantees to return, to leave \<open>F\<close> alone and to let the state grow.
\<close>

inductive secures ::
  "('s \<Rightarrow> 's \<Rightarrow> bool) \<Rightarrow> ('s \<Rightarrow> 'v) \<Rightarrow> ('s \<Rightarrow> 'f) \<Rightarrow> 'v \<Rightarrow> ('s \<Rightarrow> bool) \<Rightarrow> 's task \<Rightarrow> 'v \<Rightarrow> bool"
  for grew V F b
where
  finish: "secures grew V F b N Done b"
| step: "p \<noteq> Done \<Longrightarrow>
    (\<And>s r t. V s = a \<Longrightarrow> N s \<Longrightarrow> task_step p s r t \<Longrightarrow>
       \<exists>q M. r = Ret q \<and> F t = F s \<and> grew s t \<and> lasting grew M \<and> M t \<and> secures grew V F b M q (V t)) \<Longrightarrow>
    secures grew V F b N p a"

lemma secures_Done: "secures grew V F b N Done a \<longleftrightarrow> a = b"
  by (auto elim: secures.cases intro: secures.finish)

lemma secures_step:
  assumes "secures grew V F b N p a" and "V s = a" and "N s" and "task_step p s r t"
  obtains q M where "r = Ret q" and "F t = F s" and "grew s t" and "lasting grew M" and "M t"
    and "secures grew V F b M q (V t)"
  using assms(1)
proof cases
  case finish
  with assms(4) show thesis by auto
next
  case step
  from step(2) [OF assms(2-4)] that show thesis by blast
qed

lemma secures_weaken:
  assumes "secures grew V F b N p a" and "\<And>s. M s \<Longrightarrow> N s"
  shows "secures grew V F b M p a"
  using assms(1)
proof cases
  case finish
  then show ?thesis by (simp add: secures.finish)
next
  case step
  show ?thesis by (rule secures.step [OF step(1)]) (use step(2) assms(2) in blast)
qed

lemma secures_atom:
  assumes "\<And>s. V s = a \<Longrightarrow> N s \<Longrightarrow> \<exists>x t M. p s = (Ret x, t) \<and> F t = F s \<and> grew s t \<and> lasting grew M \<and> M t \<and>
    secures grew V F b M (k x) (V t)"
  shows "secures grew V F b N (atom p k) a"
proof (rule secures.step)
  fix s r t
  assume "V s = a" "N s" and "task_step (atom p k) s r t"
  then show "\<exists>q M. r = Ret q \<and> F t = F s \<and> grew s t \<and> lasting grew M \<and> M t \<and> secures grew V F b M q (V t)"
    using assms [of s] by (force simp: atom_def)
qed (simp add: atom_def)

locale growing =
  fixes grew :: "'s \<Rightarrow> 's \<Rightarrow> bool"
  assumes grew_refl: "grew s s"
    and grew_trans: "grew s t \<Longrightarrow> grew t u \<Longrightarrow> grew s u"
begin

text \<open>A task that runs alone.\<close>

lemma secures_run:
  assumes "run_task p s r" and "secures grew V F b N p (V s)" and "N s"
  shows "\<exists>t. r = (Ret (), t) \<and> V t = b \<and> F t = F s \<and> grew s t"
  using assms
proof (induction arbitrary: N)
  case (finish s)
  then show ?case by (simp add: secures_Done grew_refl)
next
  case (step p s q t r)
  from secures_step [OF step.prems(1) refl step.prems(2) step.hyps(1)] obtain M where
    M: "F t = F s" "grew s t" "M t" "secures grew V F b M q (V t)" by auto
  with step.IH [OF M(4,3)] show ?case by (auto intro: grew_trans)
next
  case (halt p s h t)
  from secures_step [OF halt.prems(1) refl halt.prems(2) halt.hyps] show ?case by auto
qed

end

text \<open>
  The part \<open>V\<close> of the state that a group works on is split among its tasks: \<open>Vs i\<close> is the part of
  task \<open>i\<close>, \<open>Fs i\<close> what it leaves alone, \<open>K\<close> what no task of the group changes.
\<close>

locale separated = growing grew
  for grew :: "'s \<Rightarrow> 's \<Rightarrow> bool" +
  fixes V :: "'s \<Rightarrow> 'v" and F :: "'s \<Rightarrow> 'f" and K :: "'s \<Rightarrow> 'k"
    and Vs :: "nat \<Rightarrow> 's \<Rightarrow> 'w" and Fs :: "nat \<Rightarrow> 's \<Rightarrow> 'g" and n :: nat
  assumes others: "i < n \<Longrightarrow> Fs i s = Fs i t \<Longrightarrow> F s = F t \<and> K s = K t \<and> (\<forall>j < n. j \<noteq> i \<longrightarrow> Vs j s = Vs j t)"
    and split: "V s = V t \<Longrightarrow> K s = K t \<and> (\<forall>i < n. Vs i s = Vs i t)"
    and together: "K s = K t \<Longrightarrow> (\<And>i. i < n \<Longrightarrow> Vs i s = Vs i t) \<Longrightarrow> V s = V t"
begin

lemma secures_group:
  assumes c: "secures grew V F b N c b'" "lasting grew N"
    and ts: "ts \<in> Wellfounded.acc (listrel1 next_member)" "length ts = n"
    and members: "\<And>i. i < n \<Longrightarrow> secures grew (Vs i) (Fs i) (bs i) (Ns i) (snd (ts ! i)) (Vs i s0)"
    and Ns: "\<And>i. i < n \<Longrightarrow> lasting grew (Ns i)"
    and b': "\<And>t. K t = K s0 \<Longrightarrow> (\<And>i. i < n \<Longrightarrow> Vs i t = bs i) \<Longrightarrow> V t = b'"
  shows "secures grew V F b (\<lambda>s. N s \<and> (\<forall>i < n. Ns i s)) (Fork ts None c) (V s0)"
  using ts members Ns b'
proof (induction arbitrary: Ns s0 rule: acc_induct_rule)
  case (1 ts)
  show ?case
  proof (rule secures.step)
    fix s r t
    assume s: "V s = V s0" "N s \<and> (\<forall>i < n. Ns i s)" and "task_step (Fork ts None c) s r t"
    from split [OF s(1)] have same: "K s = K s0" "\<And>i. i < n \<Longrightarrow> Vs i s = Vs i s0" by simp_all
    have member: "\<exists>q' M. r' = Ret q' \<and> Fs k t = Fs k s \<and> grew s t \<and> lasting grew M \<and> M t \<and>
        secures grew (Vs k) (Fs k) (bs k) M q' (Vs k t)"
      if "k < length ts" "ts ! k = (b0, p)" "task_step p s r' t" for k b0 p r'
    proof -
      have k: "k < n" using that 1(3) by simp
      from 1(4) [OF k] that have "secures grew (Vs k) (Fs k) (bs k) (Ns k) p (Vs k s0)" by simp
      from secures_step [OF this same(2) [OF k] _ that(3)] s(2) k show ?thesis by blast
    qed
    from \<open>task_step (Fork ts None c) s r t\<close>
    show "\<exists>q M. r = Ret q \<and> F t = F s \<and> grew s t \<and> lasting grew M \<and> M t \<and> secures grew V F b M q (V t)"
    proof cases
      case (child k b0 p q)
      from member [OF child(2-4)] obtain M where M: "Fs k t = Fs k s" "grew s t" "lasting grew M" "M t"
        "secures grew (Vs k) (Fs k) (bs k) M q (Vs k t)" by blast
      have k: "k < n" using child(2) 1(3) by simp
      from others [OF k M(1)] same have rest: "F t = F s" "K t = K s0" "\<And>i. i < n \<Longrightarrow> i \<noteq> k \<Longrightarrow> Vs i t = Vs i s0" by auto
      let ?ts = "ts[k := (True, q)]" and ?Ns = "Ns(k := M)"
      have "(q, p) \<in> next_task" using child(4) by (auto simp: next_task_def)
      then have less: "(?ts, ts) \<in> listrel1 next_member" using child(2,3) by (intro member_update) blast+
      have "secures grew V F b (\<lambda>s. N s \<and> (\<forall>i < n. ?Ns i s)) (Fork ?ts None c) (V t)"
      proof (rule 1(2) [OF less])
        show "length ?ts = n" using 1(3) by simp
        show "secures grew (Vs i) (Fs i) (bs i) (?Ns i) (snd (?ts ! i)) (Vs i t)" if "i < n" for i
          using that M(5) 1(3,4) rest(3) by (cases "i = k") auto
        show "lasting grew (?Ns i)" if "i < n" for i using that M(3) 1(5) by simp
        show "V u = b'" if "K u = K t" "\<And>i. i < n \<Longrightarrow> Vs i u = bs i" for u
          using 1(6) [of u] that rest(2) by simp
      qed
      moreover have "lasting grew (\<lambda>s. N s \<and> (\<forall>i < n. ?Ns i s))"
        using c(2) M(3) 1(5) by (auto simp: lasting_def)
      moreover have "N t \<and> (\<forall>i < n. ?Ns i t)"
        using s(2) M(2,4) c(2) 1(5) by (auto dest: lastingD)
      ultimately show ?thesis using child(1) rest(1) M(2) by blast
    next
      case (join)
      have "Vs i s = bs i" if "i < n" for i
        using 1(4) [OF that] join that 1(3) same by (simp add: list_all_length secures_Done)
      then have "V s = b'" by (intro 1(6)) (simp_all add: same)
      with join s(2) c show ?thesis by (auto intro: grew_refl)
    qed (use member in blast)+
  qed simp
qed

lemma secures_fork:
  assumes "secures grew V F b N c b'" and "lasting grew N" and "length tasks = n"
    and "\<And>i. i < n \<Longrightarrow> secures grew (Vs i) (Fs i) (bs i) N (tasks ! i) (Vs i s0)"
    and "\<And>t. K t = K s0 \<Longrightarrow> (\<And>i. i < n \<Longrightarrow> Vs i t = bs i) \<Longrightarrow> V t = b'"
  shows "secures grew V F b N (fork tasks c) (V s0)"
proof -
  have "map (Pair False) tasks \<in> Wellfounded.acc (listrel1 next_member)"
    by (rule lists_accD) (auto intro: member_acc task_acc)
  then have "secures grew V F b (\<lambda>s. N s \<and> (\<forall>i < n. N s)) (Fork (map (Pair False) tasks) None c) (V s0)"
    by (rule secures_group [OF assms(1,2)]) (use assms in auto)
  then show ?thesis unfolding fork_def by (rule secures_weaken) simp
qed

end

end
