(* ===== verification/Parallel_Detect.thy ===== *)
theory Parallel_Detect
  imports Task_Trees
begin

text \<open>
  \<open>detect_segments\<close> of \<open>image.cc\<close> in the build with \<open>ENABLE_PARALLEL\<close>: two tasks run \<open>do_detect\<close>
  for the two images, each with its own timers and with a nested \<open>parallel_for_each\<close> over the
  descriptors. Creating a timer record and adding it to the records counts as one step.
\<close>

section \<open>The tasks\<close>

text \<open>A scope with a timer; the body hands its result to what follows.\<close>

definition timer_start :: "os \<Rightarrow> string \<Rightarrow> nat option \<Rightarrow> nat act" where
  "timer_start os name parent = (\<lambda>s. let (i, t) = timer_new os name parent s in (Ret i, t))"

definition timed ::
  "os \<Rightarrow> string \<Rightarrow> nat option \<Rightarrow> (nat \<Rightarrow> ('a \<Rightarrow> state task) \<Rightarrow> state task) \<Rightarrow> ('a \<Rightarrow> state task) \<Rightarrow> state task"
where
  "timed os name parent body k = atom (timer_start os name parent) (\<lambda>i.
     body i (\<lambda>x. atom (upd (timer_stop os i)) (\<lambda>_. k x)))"

definition split_segments_task ::
  "opencv \<Rightarrow> os \<Rightarrow> u8 mat \<Rightarrow> bgr mat \<Rightarrow> int \<Rightarrow> (rect list \<Rightarrow> state task) \<Rightarrow> state task"
where
  "split_segments_task cv os gray_mat color_mat threshold =
     timed os ''split segments'' None (\<lambda>t.
     timed os ''image processing'' (Some t) (\<lambda>t_image k.
     atom (label_image cv gray_mat color_mat threshold) (\<lambda>r. case r of
       None \<Rightarrow> k []
     | Some markers \<Rightarrow>
         atom (upd (timer_stop os t_image)) (\<lambda>_.
         timed os ''grouping'' (Some t) (\<lambda>_ k. k (snd (group_pixels cv markers))) k))))"

primrec emplace_task ::
  "opencv \<Rightarrow> u8 mat \<Rightarrow> ((image_segment list \<Rightarrow> image_segment list) \<Rightarrow> state \<Rightarrow> state) \<Rightarrow> rect list \<Rightarrow>
   state task \<Rightarrow> state task"
where
  "emplace_task cv gray_mat upd_result [] k = k"
| "emplace_task cv gray_mat upd_result (segment # segments) k =
     atom (emplace_segment cv gray_mat upd_result segment) (\<lambda>_. emplace_task cv gray_mat upd_result segments k)"

definition do_detect_task ::
  "opencv \<Rightarrow> os \<Rightarrow> nat \<Rightarrow> u8 mat \<Rightarrow> bgr mat \<Rightarrow> (state \<Rightarrow> image_segment list) \<Rightarrow>
   ((image_segment list \<Rightarrow> image_segment list) \<Rightarrow> state \<Rightarrow> state) \<Rightarrow> (unit \<Rightarrow> state task) \<Rightarrow> state task"
where
  "do_detect_task cv os t gray_mat color_mat result upd_result =
     timed os ''do detect'' (Some t) (\<lambda>t2 k.
     atom (ask (\<lambda>s. bin_threshold (arg s))) (\<lambda>threshold.
     split_segments_task cv os gray_mat color_mat threshold (\<lambda>rects.
     emplace_task cv gray_mat upd_result rects (
     timed os ''compute descriptors'' (Some t2) (\<lambda>_ k.
       atom (ask (\<lambda>s. length (result s))) (\<lambda>n.
       fork (map (\<lambda>i. atom (describe_segment cv result upd_result i) (\<lambda>_. Done)) [0..<n]) (k ()))) k))))"

definition detect_segments_task :: "opencv \<Rightarrow> os \<Rightarrow> state task" where
  "detect_segments_task cv os = timed os ''detect segments'' None (\<lambda>t k.
     fork
       [atom (ask (\<lambda>s. (old_gray_mat s, old_color_mat s))) (\<lambda>(gray, color).
          do_detect_task cv os t gray color old_segments old_segments_update (\<lambda>_. Done)),
        atom (ask (\<lambda>s. (new_gray_mat s, new_color_mat s))) (\<lambda>(gray, color).
          do_detect_task cv os t gray color new_segments new_segments_update (\<lambda>_. Done))]
       (k ())) (\<lambda>_. Done)"

section \<open>Timers in tasks\<close>

text \<open>Records are only added, and they stay a forest.\<close>

definition records_grow :: "state \<Rightarrow> state \<Rightarrow> bool" where
  "records_grow s t \<longleftrightarrow> (wf_timers (timer_records s) \<longrightarrow>
     wf_timers (timer_records t) \<and> length (timer_records s) \<le> length (timer_records t))"

interpretation records: growing records_grow
  by unfold_locales (auto simp: records_grow_def)

lemma lasting_timers [simp]: "lasting records_grow (timers_from n)"
  by (auto simp: lasting_def records_grow_def timers_from_def)

lemma grow_same: "timer_records t = timer_records s \<Longrightarrow> records_grow s t"
  by (simp add: records_grow_def)

lemma grow_stop: "records_grow s (timer_stop os k s)"
proof -
  have "timers_from (length (timer_records s)) s \<Longrightarrow> timers_from (length (timer_records s)) (timer_stop os k s)"
    by (rule forest.J_stop)
  then show ?thesis by (auto simp: records_grow_def timers_from_def)
qed

lemma start_timer:
  assumes "timers_from n s" and "parent_below n parent"
  obtains i t m where "timer_start os name parent s = (Ret i, t)" "t = snd (timer_new os name parent s)"
    "n \<le> m" "i < m" "timers_from m t" "records_grow s t"
proof -
  let ?t = "snd (timer_new os name parent s)" and ?m = "max n (Suc (length (timer_records s)))"
  have t: "timers_from ?m ?t" by (rule forest.J_new [OF assms])
  then have "records_grow s ?t" by (auto simp: records_grow_def timers_from_def)
  moreover have "timer_start os name parent s = (Ret (length (timer_records s)), ?t)"
    by (simp add: timer_start_def timer_new_def Let_def split: prod.split)
  ultimately show thesis using t by (intro that [of "length (timer_records s)" ?t ?m]) simp_all
qed

text \<open>A part of the state that has nothing to do with the timers.\<close>

definition untimed :: "(state \<Rightarrow> 'v) \<Rightarrow> bool" where
  "untimed V \<longleftrightarrow> (\<forall>s c r. V (s\<lparr>w_clock := c, timer_records := r\<rparr>) = V s)"

lemma untimed_stop: "untimed V \<Longrightarrow> V (timer_stop os k s) = V s"
  by (rule timer_stop_field) (simp add: untimed_def)

lemma untimed_new: "untimed V \<Longrightarrow> V (snd (timer_new os name parent s)) = V s"
  by (rule timer_new_field) (simp add: untimed_def)

locale untimed_parts =
  fixes V :: "state \<Rightarrow> 'v" and F :: "state \<Rightarrow> 'f"
  assumes untimed_V: "untimed V" and untimed_F: "untimed F"
begin

lemma secures_stop:
  assumes "secures records_grow V F b (timers_from n) k a"
  shows "secures records_grow V F b (timers_from n) (atom (upd (timer_stop os i)) (\<lambda>_. k)) a"
  by (rule secures_atom)
    (use assms in \<open>auto simp: upd_def untimed_stop [OF untimed_V] untimed_stop [OF untimed_F] grow_stop
      intro!: exI [of _ "timers_from n"] forest.J_stop\<close>)

lemma secures_more:
  assumes "secures records_grow V F b (timers_from n) p a" and "n \<le> m"
  shows "secures records_grow V F b (timers_from m) p a"
  using assms(1) by (rule secures_weaken) (use assms(2) forest.J_mono in blast)

lemma secures_timed:
  assumes parent: "parent_below n parent"
    and body: "\<And>i m k'. n \<le> m \<Longrightarrow> i < m \<Longrightarrow>
      (\<And>x. k' x = atom (upd (timer_stop os i)) (\<lambda>_. k x)) \<Longrightarrow>
      secures records_grow V F b (timers_from m) (body i k') a"
  shows "secures records_grow V F b (timers_from n) (timed os name parent body k) a"
  unfolding timed_def
proof (rule secures_atom)
  fix s assume s: "V s = a" "timers_from n s"
  from start_timer [OF s(2) parent, of os name] obtain i t m where t: "timer_start os name parent s = (Ret i, t)"
    "t = snd (timer_new os name parent s)" "n \<le> m" "i < m" "timers_from m t" "records_grow s t" .
  moreover have "F t = F s" "V t = a" using s(1) by (simp_all add: t(2) untimed_new untimed_V untimed_F)
  ultimately show "\<exists>x t M. timer_start os name parent s = (Ret x, t) \<and> F t = F s \<and> records_grow s t \<and>
      lasting records_grow M \<and> M t \<and>
      secures records_grow V F b M (body x (\<lambda>xa. atom (upd (timer_stop os x)) (\<lambda>_. k xa))) (V t)"
    using body [of m i "\<lambda>x. atom (upd (timer_stop os i)) (\<lambda>_. k x)"]
    by (intro exI [of _ i] exI [of _ t] exI [of _ "timers_from m"]) simp
qed

lemma secures_pure:
  assumes "\<And>s. V s = a \<Longrightarrow> p s = (Ret x, s)" and "secures records_grow V F b (timers_from n) (k x) a"
  shows "secures records_grow V F b (timers_from n) (atom p k) a"
  by (rule secures_atom) (use assms in \<open>auto simp: records.grew_refl intro!: exI [of _ "timers_from n"]\<close>)

lemma secures_split:
  assumes rects: "segment_rects cv gray color th = Ret rects"
    and k: "secures records_grow V F b (timers_from n) (k rects) a"
  shows "secures records_grow V F b (timers_from n) (split_segments_task cv os gray color th k) a"
  unfolding split_segments_task_def
proof (intro secures_timed)
  fix i m k1 i2 m2 k2
  assume i: "n \<le> m" "i < m" "m \<le> m2" "i2 < m2" and k1: "\<And>x. k1 x = atom (upd (timer_stop os i)) (\<lambda>_. k x)"
    and k2: "\<And>x. k2 x = atom (upd (timer_stop os i2)) (\<lambda>_. k1 x)"
  have kr: "secures records_grow V F b (timers_from m') (k2 rects) a" if "n \<le> m'" for m'
    unfolding k1 k2 by (intro secures_stop secures_more [OF k that])
  obtain r where r: "fst (label_image cv gray color th ()) = Ret r"
    using rects by (auto simp: segment_rects_def split: outcome.splits)
  show "secures records_grow V F b (timers_from m2) (atom (label_image cv gray color th) (\<lambda>r. case r of
      None \<Rightarrow> k2 [] | Some markers \<Rightarrow> atom (upd (timer_stop os i2)) (\<lambda>_.
        timed os ''grouping'' (Some i) (\<lambda>_ k. k (snd (group_pixels cv markers))) k2))) a"
  proof (rule secures_pure)
    show "label_image cv gray color th s = (Ret r, s)" for s
      using r by (subst label_image_stateless) simp
    show "secures records_grow V F b (timers_from m2) (case r of
      None \<Rightarrow> k2 [] | Some markers \<Rightarrow> atom (upd (timer_stop os i2)) (\<lambda>_.
        timed os ''grouping'' (Some i) (\<lambda>_ k. k (snd (group_pixels cv markers))) k2)) a"
    proof (cases r)
      case None
      with r rects have "rects = []" by (simp add: segment_rects_def)
      with None kr i show ?thesis by simp
    next
      case (Some markers)
      with r rects have "rects = snd (group_pixels cv markers)" by (simp add: segment_rects_def)
      with Some kr i show ?thesis
        by (auto intro!: secures_stop secures_timed)
    qed
  qed
qed simp_all

end

section \<open>Detection in one image\<close>

text \<open>
  A task that fills one list of segments works on the part \<open>V\<close> of the state, which holds this list
  and all that is read, and leaves the part \<open>F\<close> alone.
\<close>

locale shared_store = segment_store res upd_res + untimed_parts V F
  for res upd_res and V :: "state \<Rightarrow> state" and F :: "state \<Rightarrow> state" +
  assumes res_V: "res (V s) = res s" and V_upd: "V (upd_res f s) = upd_res f (V s)"
    and F_upd: "F (upd_res f s) = F s" and arg_V: "arg (V s) = arg s"
begin

lemma upd_records: "timer_records (upd_res f s) = timer_records s"
proof -
  have "upd_res f s = upd_res f (s\<lparr>w_clock := w_clock s, timer_records := timer_records s\<rparr>)" by simp
  also have "\<dots> = (upd_res f s)\<lparr>w_clock := w_clock s, timer_records := timer_records s\<rparr>" by (rule upd_timers)
  finally show ?thesis by (metis ctx.select_convs(3) ctx.surjective ctx.update_convs(3))
qed

lemma upd_own: "upd_res (\<lambda>_. res s) s = s"
  using upd_cong [of "\<lambda>_. res s" s "\<lambda>segs. segs"] upd_id by simp

lemma secures_upd:
  assumes "\<And>s. V s = a \<Longrightarrow> p s = (Ret x, upd_res f s)"
    and "secures records_grow V F b (timers_from n) (k x) (upd_res f a)"
  shows "secures records_grow V F b (timers_from n) (atom p k) a"
proof (rule secures_atom)
  fix s assume s: "V s = a" "timers_from n s"
  have "timers_from n (upd_res f s)" using s(2) by (simp add: timers_from_def upd_records)
  with assms s show "\<exists>x t M. p s = (Ret x, t) \<and> F t = F s \<and> records_grow s t \<and> lasting records_grow M \<and> M t \<and>
      secures records_grow V F b M (k x) (V t)"
    by (intro exI [of _ x] exI [of _ "upd_res f s"] exI [of _ "timers_from n"])
      (auto simp: F_upd V_upd upd_records grow_same)
qed

lemma secures_emplace:
  assumes "each_outcome (cropped_segment cv gray) rects = Ret segs"
    and "secures records_grow V F b (timers_from n) k (upd_res (\<lambda>l. l @ segs) a)"
  shows "secures records_grow V F b (timers_from n) (emplace_task cv gray upd_res rects k) a"
  using assms
proof (induction rects arbitrary: segs a)
  case Nil
  then show ?case by (simp add: upd_id)
next
  case (Cons r rects)
  then obtain seg rest where seg: "cropped_segment cv gray r = Ret seg"
    and rest: "each_outcome (cropped_segment cv gray) rects = Ret rest" and segs: "segs = seg # rest"
    by (auto simp: then_outcome_Ret)
  show ?case unfolding emplace_task.simps
  proof (rule secures_upd)
    show "emplace_segment cv gray upd_res r s = (Ret (), upd_res (\<lambda>l. l @ [seg]) s)" for s
      using seg by (auto simp: emplace_segment_def cropped_segment_def upd_def split: sum.splits)
    show "secures records_grow V F b (timers_from n) (emplace_task cv gray upd_res rects k) (upd_res (\<lambda>l. l @ [seg]) a)"
      by (rule Cons.IH [OF rest]) (use Cons.prems(2) in \<open>simp add: upd_upd segs\<close>)
  qed
qed

text \<open>The part of the task for segment \<open>i\<close>.\<close>

definition slot :: "nat \<Rightarrow> state \<Rightarrow> bool \<times> image_segment" where
  "slot i s = (i < length (res s), res s ! i)"

definition outside_slot :: "nat \<Rightarrow> state \<Rightarrow> state \<times> state" where
  "outside_slot i s = (F s, upd_res (\<lambda>segs. segs[i := image_segment_of undefined undefined]) (V s))"

definition outside_slots :: "nat \<Rightarrow> state \<Rightarrow> state \<times> nat" where
  "outside_slots n s = (upd_res (drop n) (V s), length (res s))"

lemma slots_separated: "separated records_grow V F (outside_slots n) slot outside_slot n"
proof
  let ?blank = "image_segment_of undefined undefined"
  fix i s t
  assume i: "i < n" and eq: "outside_slot i s = outside_slot i t"
  have "(res s)[i := ?blank] = (res t)[i := ?blank]"
    using arg_cong [OF eq, of "\<lambda>p. res (snd p)"] by (simp add: outside_slot_def res_upd res_V)
  then have "length (res s) = length (res t)" and nth: "j \<noteq> i \<Longrightarrow> res s ! j = res t ! j" for j
    by (metis length_list_update, metis nth_list_update_neq)
  moreover have "upd_res (drop n) (V u) = upd_res (drop n) (upd_res (\<lambda>segs. segs[i := ?blank]) (V u))" for u
    using i by (simp add: upd_upd)
  ultimately show "F s = F t \<and> outside_slots n s = outside_slots n t \<and> (\<forall>j < n. j \<noteq> i \<longrightarrow> slot j s = slot j t)"
    using eq by (auto simp: outside_slot_def outside_slots_def slot_def)
next
  fix s t
  assume "V s = V t"
  moreover from this have "res s = res t" by (metis res_V)
  ultimately show "outside_slots n s = outside_slots n t \<and> (\<forall>i < n. slot i s = slot i t)"
    by (simp add: outside_slots_def slot_def)
next
  fix s t
  assume K: "outside_slots n s = outside_slots n t" and slots: "\<And>i. i < n \<Longrightarrow> slot i s = slot i t"
  have drop: "drop n (res s) = drop n (res t)" and len: "length (res s) = length (res t)"
    using arg_cong [OF K, of "\<lambda>p. res (fst p)"] K by (simp_all add: outside_slots_def res_upd res_V)
  have "take n (res s) = take n (res t)" using slots len by (intro nth_equalityI) (auto simp: slot_def)
  with drop have same: "res s = res t" by (metis append_take_drop_id)
  have "V u = upd_res (\<lambda>_. res u) (upd_res (drop n) (V u))" for u
    using upd_own [of "V u"] by (simp add: upd_upd res_V)
  with K same show "V s = V t" by (metis outside_slots_def prod.inject)
qed

lemma secures_describe:
  assumes "described_segment cv seg = Ret seg'"
  shows "secures records_grow (slot i) (outside_slot i) (True, seg') (timers_from n)
    (atom (describe_segment cv res upd_res i) (\<lambda>_. Done)) (True, seg)"
proof (rule secures_atom)
  fix s assume s: "slot i s = (True, seg)" "timers_from n s"
  from assms obtain desc where desc: "fst (compute_descriptor cv (seg_roi seg) ()) = Ret desc"
    and seg': "seg' = with_descriptor desc seg"
    by (auto simp: described_segment_def then_outcome_Ret with_descriptor_def)
  let ?t = "upd_res (\<lambda>segs. segs[i := with_descriptor desc (segs ! i)]) s"
  have "described cv res upd_res i s = Some ?t" using s(1) desc by (simp add: described_def slot_def)
  then have "describe_segment cv res upd_res i s = (Ret (), ?t)" using describe_gives by (simp add: gives_def)
  moreover have "slot i ?t = (True, seg')" using s(1) by (auto simp: slot_def res_upd seg')
  moreover have "outside_slot i ?t = outside_slot i s" by (simp add: outside_slot_def F_upd V_upd upd_upd)
  moreover have "timers_from n ?t" using s(2) by (simp add: timers_from_def upd_records)
  ultimately show "\<exists>x t M. describe_segment cv res upd_res i s = (Ret x, t) \<and> outside_slot i t = outside_slot i s \<and>
      records_grow s t \<and> lasting records_grow M \<and> M t \<and>
      secures records_grow (slot i) (outside_slot i) (True, seg') M Done (slot i t)"
    by (intro exI [of _ "()"] exI [of _ ?t] exI [of _ "timers_from n"]) (simp add: secures_Done upd_records grow_same)
qed

end

sublocale shared_store \<subseteq> slots: separated records_grow V F "outside_slots n" slot outside_slot n for n
  by (rule slots_separated)

context shared_store
begin

lemma secures_descriptors:
  assumes all: "each_outcome (described_segment cv) (res s0) = Ret segs"
    and k: "secures records_grow V F b (timers_from n) k (upd_res (\<lambda>_. segs) (V s0))"
  shows "secures records_grow V F b (timers_from n)
    (fork (map (\<lambda>i. atom (describe_segment cv res upd_res i) (\<lambda>_. Done)) [0..<length (res s0)]) k) (V s0)"
proof (rule slots.secures_fork [OF k lasting_timers])
  let ?n = "length (res s0)"
  have len: "length segs = ?n" and each: "\<And>i. i < ?n \<Longrightarrow> described_segment cv (res s0 ! i) = Ret (segs ! i)"
    using all by (auto simp: each_outcome_Ret list_all2_conv_all_nth)
  show "length (map (\<lambda>i. atom (describe_segment cv res upd_res i) (\<lambda>_. Done)) [0..<?n]) = ?n" by simp
  show "secures records_grow (slot i) (outside_slot i) (True, segs ! i) (timers_from n)
      (map (\<lambda>i. atom (describe_segment cv res upd_res i) (\<lambda>_. Done)) [0..<?n] ! i) (slot i s0)" if "i < ?n" for i
    using secures_describe [OF each [OF that]] that by (simp add: slot_def)
  fix t assume K: "outside_slots ?n t = outside_slots ?n s0" and sl: "\<And>i. i < ?n \<Longrightarrow> slot i t = (True, segs ! i)"
  have "res t = segs" using K sl len by (intro nth_equalityI) (auto simp: outside_slots_def slot_def)
  moreover have "V t = upd_res (\<lambda>_. res t) (upd_res (drop ?n) (V t))"
    using upd_own [of "V t"] by (simp add: upd_upd res_V)
  moreover have "upd_res (drop ?n) (V t) = upd_res (drop ?n) (V s0)" using K by (simp add: outside_slots_def)
  ultimately show "V t = upd_res (\<lambda>_. segs) (V s0)" by (simp add: upd_upd)
qed

lemma secures_do_detect:
  assumes "detected cv (bin_threshold (arg s0)) gray color = Ret segs" and "res s0 = []" and "t < n"
    and k: "secures records_grow V F b (timers_from n) (k ()) (upd_res (\<lambda>_. segs) (V s0))"
  shows "secures records_grow V F b (timers_from n) (do_detect_task cv os t gray color res upd_res k) (V s0)"
proof -
  from assms(1) obtain rects crops where rects: "segment_rects cv gray color (bin_threshold (arg s0)) = Ret rects"
    and crops: "each_outcome (cropped_segment cv gray) rects = Ret crops"
    and segs: "each_outcome (described_segment cv) crops = Ret segs"
    by (auto simp: detected_def then_outcome_Ret)
  define s1 where "s1 = upd_res (\<lambda>l. l @ crops) s0"
  have s1: "V s1 = upd_res (\<lambda>l. l @ crops) (V s0)" "res s1 = crops" "upd_res (\<lambda>_. segs) (V s1) = upd_res (\<lambda>_. segs) (V s0)"
    using assms(2) by (simp_all add: s1_def V_upd res_upd upd_upd)
  show ?thesis unfolding do_detect_task_def
  proof (intro secures_timed)
    show "parent_below n (Some t)" using assms(3) by (simp add: parent_below_def)
  next
    fix t2 m k2
    assume m: "n \<le> m" "t2 < m" and k2: "\<And>x. k2 x = atom (upd (timer_stop os t2)) (\<lambda>_. k x)"
    let ?descr = "timed os ''compute descriptors'' (Some t2) (\<lambda>_ k. atom (ask (\<lambda>s. length (res s))) (\<lambda>n.
      fork (map (\<lambda>i. atom (describe_segment cv res upd_res i) (\<lambda>_. Done)) [0..<n]) (k ()))) k2"
    have "secures records_grow V F b (timers_from m) ?descr (V s1)"
    proof (intro secures_timed)
      show "parent_below m (Some t2)" using m by (simp add: parent_below_def)
    next
      fix t3 m3 k3
      assume m3: "m \<le> m3" and k3: "\<And>x. k3 x = atom (upd (timer_stop os t3)) (\<lambda>_. k2 x)"
      show "secures records_grow V F b (timers_from m3) (atom (ask (\<lambda>s. length (res s))) (\<lambda>n.
          fork (map (\<lambda>i. atom (describe_segment cv res upd_res i) (\<lambda>_. Done)) [0..<n]) (k3 ()))) (V s1)"
      proof (rule secures_pure [where x = "length (res s1)"])
        show "ask (\<lambda>s. length (res s)) s = (Ret (length (res s1)), s)" if "V s = V s1" for s
          using that by (metis ask_def res_V)
        show "secures records_grow V F b (timers_from m3)
            (fork (map (\<lambda>i. atom (describe_segment cv res upd_res i) (\<lambda>_. Done)) [0..<length (res s1)]) (k3 ())) (V s1)"
        proof (rule secures_descriptors)
          show "each_outcome (described_segment cv) (res s1) = Ret segs" using segs s1(2) by simp
          show "secures records_grow V F b (timers_from m3) (k3 ()) (upd_res (\<lambda>_. segs) (V s1))"
            unfolding k2 k3 s1(3) by (intro secures_stop secures_more [OF k]) (use m m3 in simp)
        qed
      qed
    qed
    then have "secures records_grow V F b (timers_from m) (emplace_task cv gray upd_res rects ?descr) (V s0)"
      by (intro secures_emplace [OF crops]) (simp add: s1(1))
    moreover have "ask (\<lambda>s. bin_threshold (arg s)) s = (Ret (bin_threshold (arg s0)), s)" if "V s = V s0" for s
      using that by (metis ask_def arg_V)
    ultimately show "secures records_grow V F b (timers_from m) (atom (ask (\<lambda>s. bin_threshold (arg s))) (\<lambda>threshold.
        split_segments_task cv os gray color threshold (\<lambda>rects. emplace_task cv gray upd_res rects ?descr))) (V s0)"
      by (intro secures_pure [where x = "bin_threshold (arg s0)"] secures_split [OF rects])
  qed
qed

end

section \<open>Both images\<close>

definition sans_timers :: "state \<Rightarrow> state" where
  "sans_timers s = s\<lparr>w_clock := 0, timer_records := []\<rparr>"

definition sans_new :: "state \<Rightarrow> state" where
  "sans_new s = (sans_timers s)\<lparr>new_segments := []\<rparr>"

definition sans_old :: "state \<Rightarrow> state" where
  "sans_old s = (sans_timers s)\<lparr>old_segments := []\<rparr>"

interpretation old_part: shared_store old_segments old_segments_update sans_new sans_old
  by unfold_locales (simp_all add: untimed_def sans_new_def sans_old_def sans_timers_def)

interpretation new_part: shared_store new_segments new_segments_update sans_old sans_new
  by unfold_locales (simp_all add: untimed_def sans_new_def sans_old_def sans_timers_def)

interpretation whole: untimed_parts sans_timers "\<lambda>_. ()"
  by unfold_locales (simp_all add: untimed_def sans_timers_def)

interpretation images: separated records_grow sans_timers "\<lambda>_. ()" "\<lambda>_. ()"
  "\<lambda>i. if i = 0 then sans_new else sans_old" "\<lambda>i. if i = 0 then sans_old else sans_new" 2
proof
  fix s t
  assume "\<And>i. i < (2 :: nat) \<Longrightarrow> (if i = 0 then sans_new else sans_old) s = (if i = 0 then sans_new else sans_old) t"
  from this [of 0] this [of 1] have eq: "sans_new s = sans_new t" "sans_old s = sans_old t" by simp_all
  have "sans_timers u = (sans_new u)\<lparr>new_segments := new_segments (sans_old u)\<rparr>" for u
    by (simp add: sans_new_def sans_old_def sans_timers_def)
  with eq show "sans_timers s = sans_timers t" by metis
qed (auto simp: sans_new_def sans_old_def less_2_cases_iff)

lemma secures_detect_old:
  assumes "detected cv (bin_threshold (arg s0)) (old_gray_mat s0) (old_color_mat s0) = Ret olds"
    and "old_segments s0 = []" and "t < n"
  shows "secures records_grow sans_new sans_old (sans_new (s0\<lparr>old_segments := olds\<rparr>)) (timers_from n)
    (atom (ask (\<lambda>s. (old_gray_mat s, old_color_mat s))) (\<lambda>(gray, color).
       do_detect_task cv os t gray color old_segments old_segments_update (\<lambda>_. Done))) (sans_new s0)"
proof (rule old_part.secures_pure [where x = "(old_gray_mat s0, old_color_mat s0)"])
  fix s assume "sans_new s = sans_new s0"
  then have "old_gray_mat (sans_new s) = old_gray_mat (sans_new s0)" "old_color_mat (sans_new s) = old_color_mat (sans_new s0)"
    by simp_all
  then show "ask (\<lambda>s. (old_gray_mat s, old_color_mat s)) s = (Ret (old_gray_mat s0, old_color_mat s0), s)"
    by (simp add: sans_new_def sans_timers_def)
next
  show "secures records_grow sans_new sans_old (sans_new (s0\<lparr>old_segments := olds\<rparr>)) (timers_from n)
      (case (old_gray_mat s0, old_color_mat s0) of (gray, color) \<Rightarrow>
         do_detect_task cv os t gray color old_segments old_segments_update (\<lambda>_. Done)) (sans_new s0)"
    using old_part.secures_do_detect [OF assms] by (simp add: secures_Done old_part.V_upd)
qed

lemma secures_detect_new:
  assumes "detected cv (bin_threshold (arg s0)) (new_gray_mat s0) (new_color_mat s0) = Ret news"
    and "new_segments s0 = []" and "t < n"
  shows "secures records_grow sans_old sans_new (sans_old (s0\<lparr>new_segments := news\<rparr>)) (timers_from n)
    (atom (ask (\<lambda>s. (new_gray_mat s, new_color_mat s))) (\<lambda>(gray, color).
       do_detect_task cv os t gray color new_segments new_segments_update (\<lambda>_. Done))) (sans_old s0)"
proof (rule new_part.secures_pure [where x = "(new_gray_mat s0, new_color_mat s0)"])
  fix s assume "sans_old s = sans_old s0"
  then have "new_gray_mat (sans_old s) = new_gray_mat (sans_old s0)" "new_color_mat (sans_old s) = new_color_mat (sans_old s0)"
    by simp_all
  then show "ask (\<lambda>s. (new_gray_mat s, new_color_mat s)) s = (Ret (new_gray_mat s0, new_color_mat s0), s)"
    by (simp add: sans_old_def sans_timers_def)
next
  show "secures records_grow sans_old sans_new (sans_old (s0\<lparr>new_segments := news\<rparr>)) (timers_from n)
      (case (new_gray_mat s0, new_color_mat s0) of (gray, color) \<Rightarrow>
         do_detect_task cv os t gray color new_segments new_segments_update (\<lambda>_. Done)) (sans_old s0)"
    using new_part.secures_do_detect [OF assms] by (simp add: secures_Done new_part.V_upd)
qed

lemma secures_detect:
  fixes s0 :: state and olds news :: "image_segment list"
  defines "b \<equiv> sans_timers (s0\<lparr>old_segments := olds, new_segments := news\<rparr>)"
  assumes old: "detected cv (bin_threshold (arg s0)) (old_gray_mat s0) (old_color_mat s0) = Ret olds"
    and new: "detected cv (bin_threshold (arg s0)) (new_gray_mat s0) (new_color_mat s0) = Ret news"
    and none: "old_segments s0 = []" "new_segments s0 = []"
  shows "secures records_grow sans_timers (\<lambda>_. ()) b (timers_from n) (detect_segments_task cv os) (sans_timers s0)"
  unfolding detect_segments_task_def
proof (rule whole.secures_timed)
  fix t m and k :: "unit \<Rightarrow> state task"
  assume "n \<le> m" "t < m" and k: "\<And>x. k x = atom (upd (timer_stop os t)) (\<lambda>_. Done)"
  let ?tasks = "[atom (ask (\<lambda>s. (old_gray_mat s, old_color_mat s))) (\<lambda>(gray, color).
      do_detect_task cv os t gray color old_segments old_segments_update (\<lambda>_. Done)),
    atom (ask (\<lambda>s. (new_gray_mat s, new_color_mat s))) (\<lambda>(gray, color).
      do_detect_task cv os t gray color new_segments new_segments_update (\<lambda>_. Done))]"
  let ?b = "\<lambda>i. if i = 0 then sans_new (s0\<lparr>old_segments := olds\<rparr>) else sans_old (s0\<lparr>new_segments := news\<rparr>)"
  show "secures records_grow sans_timers (\<lambda>_. ()) b (timers_from m) (fork ?tasks (k ())) (sans_timers s0)"
  proof (rule images.secures_fork [where bs = ?b])
    show "secures records_grow sans_timers (\<lambda>_. ()) b (timers_from m) (k ()) b"
      unfolding k by (intro whole.secures_stop secures.finish)
    show "secures records_grow (if i = 0 then sans_new else sans_old) (if i = 0 then sans_old else sans_new) (?b i)
        (timers_from m) (?tasks ! i) ((if i = 0 then sans_new else sans_old) s0)" if "i < 2" for i
      using that secures_detect_old [OF old none(1) \<open>t < m\<close>] secures_detect_new [OF new none(2) \<open>t < m\<close>]
      by (auto simp: less_2_cases_iff)
    fix u
    assume "\<And>i. i < (2 :: nat) \<Longrightarrow> (if i = 0 then sans_new else sans_old) u = ?b i"
    from this [of 0] this [of 1] have "sans_new u = sans_new (s0\<lparr>old_segments := olds\<rparr>)"
      "sans_old u = sans_old (s0\<lparr>new_segments := news\<rparr>)" by simp_all
    moreover have "sans_timers v = (sans_new v)\<lparr>new_segments := new_segments (sans_old v)\<rparr>" for v
      by (simp add: sans_new_def sans_old_def sans_timers_def)
    ultimately have "sans_timers u = (sans_new (s0\<lparr>old_segments := olds\<rparr>))\<lparr>new_segments := new_segments (sans_old (s0\<lparr>new_segments := news\<rparr>))\<rparr>"
      by metis
    then show "sans_timers u = b" by (simp add: b_def sans_new_def sans_old_def sans_timers_def)
  qed simp_all
qed (simp add: parent_below_def)

lemma sans_timers_same: "sans_timers s = sans_timers t \<longleftrightarrow> same_but_timers s t"
proof
  assume "sans_timers s = sans_timers t"
  then have "t = s\<lparr>w_clock := w_clock t, timer_records := timer_records t\<rparr>"
    unfolding sans_timers_def by (cases s; cases t) (simp add: state.defs ctx.defs)
  then show "same_but_timers s t" unfolding same_but_timers_def by blast
qed (auto simp: same_but_timers_def sans_timers_def)

lemma detect_task_result:
  assumes "detected cv (bin_threshold (arg s)) (old_gray_mat s) (old_color_mat s) = Ret olds"
    and "detected cv (bin_threshold (arg s)) (new_gray_mat s) (new_color_mat s) = Ret news"
    and "old_segments s = []" and "new_segments s = []" and "timers_from n s"
    and "run_task (detect_segments_task cv os) s r"
  shows "\<exists>t. r = (Ret (), t) \<and> same_but_timers (s\<lparr>old_segments := olds, new_segments := news\<rparr>) t \<and> timers_from n t"
proof -
  from records.secures_run [OF assms(6) secures_detect [OF assms(1-4)] assms(5)]
  obtain t where t: "r = (Ret (), t)" "sans_timers t = sans_timers (s\<lparr>old_segments := olds, new_segments := news\<rparr>)"
    "records_grow s t" by blast
  moreover have "timers_from n t" using lastingD [OF lasting_timers t(3) assms(5)] .
  ultimately show ?thesis by (simp add: sans_timers_same [symmetric])
qed

section \<open>The serial order is one of the schedules\<close>

lemma serially_timed:
  assumes "\<And>i. serially (body i) (body' i)"
  shows "serially (timed os name parent body) (with_timer os name parent body')"
proof -
  have "serially (\<lambda>k. atom (timer_start os name parent) (\<lambda>i. body i (\<lambda>x. atom (upd (timer_stop os i)) (\<lambda>_. k x))))
      (bnd (timer_start os name parent) (\<lambda>i. bnd (body' i) (\<lambda>x. bnd (upd (timer_stop os i)) (\<lambda>_. ret x))))"
    by (rule serially_bnd [OF serially_atom serially_bnd [OF assms serially_bnd [OF serially_atom serially_ret]]])
  moreover have "bnd (timer_start os name parent) (\<lambda>i. bnd (body' i) (\<lambda>x. bnd (upd (timer_stop os i)) (\<lambda>_. ret x))) =
      with_timer os name parent body'"
    by (rule ext) (simp add: timer_start_def with_timer_def bnd_def upd_def ret_def split: prod.split outcome.split)
  ultimately show ?thesis by (simp add: timed_def [abs_def])
qed

lemma serially_split: "serially (split_segments_task cv os gray color th) (split_segments cv os gray color th)"
  unfolding split_segments_task_def split_segments_def
proof (intro serially_timed)
  fix t t_image
  have "serially (\<lambda>k. case r of None \<Rightarrow> k [] | Some markers \<Rightarrow> atom (upd (timer_stop os t_image)) (\<lambda>_.
        timed os ''grouping'' (Some t) (\<lambda>_ k. k (snd (group_pixels cv markers))) k))
      (case r of None \<Rightarrow> ret [] | Some markers \<Rightarrow> bnd (upd (timer_stop os t_image)) (\<lambda>_.
        with_timer os ''grouping'' (Some t) (\<lambda>_. ret (snd (group_pixels cv markers)))))" for r
    by (cases r) (simp_all add: serially_ret serially_bnd [OF serially_atom serially_timed])
  then show "serially (\<lambda>k. atom (label_image cv gray color th) (\<lambda>r. case r of None \<Rightarrow> k []
      | Some markers \<Rightarrow> atom (upd (timer_stop os t_image)) (\<lambda>_.
          timed os ''grouping'' (Some t) (\<lambda>_ k. k (snd (group_pixels cv markers))) k)))
    (bnd (label_image cv gray color th) (\<lambda>r. case r of None \<Rightarrow> ret []
      | Some markers \<Rightarrow> bnd (upd (timer_stop os t_image)) (\<lambda>_.
          with_timer os ''grouping'' (Some t) (\<lambda>_. ret (snd (group_pixels cv markers))))))"
    by (rule serially_bnd [OF serially_atom])
qed

lemma serially_emplace:
  "serially (\<lambda>k. emplace_task cv gray upd_res rects (k ())) (for_each rects (emplace_segment cv gray upd_res))"
  by (induction rects) (simp_all add: serially_ret serially_bnd [OF serially_atom])

lemma serially_describe:
  "serially (\<lambda>k. fork (map (\<lambda>i. atom (describe_segment cv res upd_res i) (\<lambda>_. Done)) is) (k ()))
     (for_each is (describe_segment cv res upd_res))"
proof -
  have "serially (\<lambda>k. fork (map (\<lambda>(T, p). T (\<lambda>_. Done))
        (map (\<lambda>i. (atom (describe_segment cv res upd_res i), describe_segment cv res upd_res i)) is)) (k ()))
      (run_all (map snd (map (\<lambda>i. (atom (describe_segment cv res upd_res i), describe_segment cv res upd_res i)) is)))"
    by (rule serially_fork) (auto simp: serially_atom, simp add: atom_def)
  then show ?thesis by (simp add: comp_def run_all_for_each)
qed

lemma serially_do_detect:
  "serially (do_detect_task cv os t gray color res upd_res) (do_detect cv os t gray color res upd_res)"
  unfolding do_detect_task_def do_detect_def
  by (intro serially_timed serially_bnd [OF serially_atom] serially_bnd [OF serially_split]
      serially_bnd [OF serially_emplace] serially_describe)

lemma serial_detect_schedule: "run_task (detect_segments_task cv os) s (detect_segments cv os s)"
proof -
  let ?old = "\<lambda>t k. atom (ask (\<lambda>s. (old_gray_mat s, old_color_mat s))) (\<lambda>(gray, color).
      do_detect_task cv os t gray color old_segments old_segments_update k)"
  let ?new = "\<lambda>t k. atom (ask (\<lambda>s. (new_gray_mat s, new_color_mat s))) (\<lambda>(gray, color).
      do_detect_task cv os t gray color new_segments new_segments_update k)"
  let ?old' = "\<lambda>t. bnd (ask (\<lambda>s. (old_gray_mat s, old_color_mat s))) (\<lambda>(gray, color).
      do_detect cv os t gray color old_segments old_segments_update)"
  let ?new' = "\<lambda>t. bnd (ask (\<lambda>s. (new_gray_mat s, new_color_mat s))) (\<lambda>(gray, color).
      do_detect cv os t gray color new_segments new_segments_update)"
  have one: "serially (?old t) (?old' t)" "serially (?new t) (?new' t)" for t
    by (rule serially_bnd [OF serially_atom], simp add: case_prod_unfold serially_do_detect)+
  have "serially (\<lambda>k. fork [?old t (\<lambda>_. Done), ?new t (\<lambda>_. Done)] (k ())) (bnd (?old' t) (\<lambda>_. ?new' t))" for t
  proof -
    have ret: "bnd p (\<lambda>_. ret ()) = p" for p :: "unit act" by (rule ext) (simp add: bnd_def ret_def split: prod.split outcome.split)
    have "serially (\<lambda>k. fork (map (\<lambda>(T, p). T (\<lambda>_. Done)) [(?old t, ?old' t), (?new t, ?new' t)]) (k ()))
        (run_all (map snd [(?old t, ?old' t), (?new t, ?new' t)]))"
      by (rule serially_fork) (use one in \<open>auto simp: atom_def\<close>)
    then show ?thesis by (simp add: ret)
  qed
  then have "serially (timed os ''detect segments'' None (\<lambda>t k. fork [?old t (\<lambda>_. Done), ?new t (\<lambda>_. Done)] (k ())))
      (with_timer os ''detect segments'' None (\<lambda>t. bnd (?old' t) (\<lambda>_. ?new' t)))"
    by (rule serially_timed)
  moreover have "with_timer os ''detect segments'' None (\<lambda>t. bnd (?old' t) (\<lambda>_. ?new' t)) = detect_segments cv os"
    unfolding detect_segments_def by (simp add: bnd_assoc case_prod_unfold)
  ultimately have "serially (timed os ''detect segments'' None
      (\<lambda>t k. fork [?old t (\<lambda>_. Done), ?new t (\<lambda>_. Done)] (k ()))) (detect_segments cv os)" by simp
  then show ?thesis unfolding detect_segments_task_def by (rule serially_run)
qed

text \<open>
  C21. Running the two detections, and inside each of them the computation of the descriptors, as tasks
  changes nothing but the timers: when the serial \<open>detect_segments\<close> returns, every schedule of the
  tasks returns, with the segments and everything else the serial run leaves, and with timer records
  that are still a forest. The serial run is itself one of the schedules.
\<close>

theorem parallel_detect_agrees:
  assumes "old_segments s = []" and "new_segments s = []" and "wf_timers (timer_records s)"
    and "fst (detect_segments cv os s) = Ret ()"
  shows "run_task (detect_segments_task cv os) s (detect_segments cv os s) \<and>
    (\<forall>r. run_task (detect_segments_task cv os) s r \<longrightarrow> fst r = Ret () \<and>
       same_but_timers (snd (detect_segments cv os s)) (snd r) \<and> wf_timers (timer_records (snd r)))"
proof (intro conjI allI impI)
  show "run_task (detect_segments_task cv os) s (detect_segments cv os s)" by (rule serial_detect_schedule)
  obtain olds news where
    old: "detected cv (bin_threshold (arg s)) (old_gray_mat s) (old_color_mat s) = Ret olds" and
    new: "detected cv (bin_threshold (arg s)) (new_gray_mat s) (new_color_mat s) = Ret news" and
    serial: "same_but_timers (s\<lparr>old_segments := olds, new_segments := news\<rparr>) (snd (detect_segments cv os s))"
  proof -
    let ?old = "detected cv (bin_threshold (arg s)) (old_gray_mat s) (old_color_mat s)"
      and ?new = "detected cv (bin_threshold (arg s)) (new_gray_mat s) (new_color_mat s)"
    have "case then_outcome ?old (\<lambda>olds. then_outcome ?new (\<lambda>news. Ret (olds, news))) of
        Ret y \<Rightarrow> fst (detect_segments cv os s) = Ret () \<and> same_but_timers
          (case y of (olds, news) \<Rightarrow> s\<lparr>old_segments := olds, new_segments := news\<rparr>) (snd (detect_segments cv os s))
      | Halt h \<Rightarrow> fst (detect_segments cv os s) = Halt h"
      using detect_segments_ends [OF assms(1,2), of cv os] unfolding ends_def by (elim allE [of _ s]) simp
    with assms(4) show thesis by (cases ?old; cases ?new) (simp_all add: that)
  qed
  fix r
  assume run: "run_task (detect_segments_task cv os) s r"
  have "timers_from 0 s" using assms(3) by (simp add: timers_from_def)
  from detect_task_result [OF old new assms(1,2) this run] serial
  show "fst r = Ret ()" "same_but_timers (snd (detect_segments cv os s)) (snd r)" "wf_timers (timer_records (snd r))"
    by (auto simp: sans_timers_same [symmetric] timers_from_def)
qed

theorem parallel_detect_agrees_witness:
  "\<exists>r. run_task (detect_segments_task sample_cv sample_os) loaded r \<and> fst r = Ret () \<and>
     same_but_timers (loaded\<lparr>old_segments := [sample_segment], new_segments := [sample_segment]\<rparr>) (snd r)"
proof -
  have "ends (detect_segments sample_cv sample_os) loaded (Ret ([sample_segment], [sample_segment]))
      (\<lambda>(olds, news). loaded\<lparr>old_segments := olds, new_segments := news\<rparr>)"
    using detect_segments_ends [of loaded sample_cv sample_os]
    by (simp add: loaded_def initial_state_def sample_detected)
  then have "fst (detect_segments sample_cv sample_os loaded) = Ret ()"
    and "same_but_timers (loaded\<lparr>old_segments := [sample_segment], new_segments := [sample_segment]\<rparr>)
      (snd (detect_segments sample_cv sample_os loaded))"
    by (simp_all add: ends_def)
  moreover have "old_segments loaded = []" "new_segments loaded = []" "wf_timers (timer_records loaded)"
    by (simp_all add: loaded_def initial_state_def)
  ultimately show ?thesis using parallel_detect_agrees [of loaded sample_cv sample_os] by blast
qed

end
