(* ===== verification/Schedules.thy ===== *)
theory Schedules
  imports Parallel_Detect
begin

text \<open>
  Programs whose result depends on the schedule of the tasks they start: relations between a state
  and the results that are possible from it. The triples \<open>sure P T U\<close> are for total correctness:
  from a state in \<open>T\<close> some result is possible, and every possible result is a value and a state in
  \<open>U\<close>. Both are meant up to the timers, whose records stay a forest.
\<close>

section \<open>Programs with several results\<close>

type_synonym 'a nact = "state \<Rightarrow> 'a outcome \<times> state \<Rightarrow> bool"

definition just :: "'a act \<Rightarrow> 'a nact" where
  "just p s r \<longleftrightarrow> p s = r"

definition nbnd :: "'a nact \<Rightarrow> ('a \<Rightarrow> 'b nact) \<Rightarrow> 'b nact" where
  "nbnd P Q s r \<longleftrightarrow> (\<exists>x t. P s (Ret x, t) \<and> Q x t r) \<or> (\<exists>h t. P s (Halt h, t) \<and> r = (Halt h, t))"

definition nwith_timer :: "os \<Rightarrow> string \<Rightarrow> nat option \<Rightarrow> (nat \<Rightarrow> 'a nact) \<Rightarrow> 'a nact" where
  "nwith_timer os name parent body =
     nbnd (just (timer_start os name parent)) (\<lambda>i.
     nbnd (body i) (\<lambda>x.
     nbnd (just (upd (timer_stop os i))) (\<lambda>_. just (ret x))))"

text \<open>A program with one result is sequenced as before.\<close>

lemma just_bnd: "nbnd (just p) (\<lambda>x. just (q x)) = just (bnd p q)"
proof (intro ext)
  fix s r
  show "nbnd (just p) (\<lambda>x. just (q x)) s r = just (bnd p q) s r"
    by (cases "p s"; cases "fst (p s)") (auto simp: nbnd_def just_def bnd_def)
qed

lemma nbnd_assoc: "nbnd (nbnd P Q) R = nbnd P (\<lambda>x. nbnd (Q x) R)"
  by (intro ext) (auto simp: nbnd_def; blast)

lemma just_timer: "nwith_timer os name parent (\<lambda>i. just (body i)) = just (with_timer os name parent body)"
proof -
  have "bnd (timer_start os name parent) (\<lambda>i. bnd (body i) (\<lambda>x. bnd (upd (timer_stop os i)) (\<lambda>_. ret x))) =
      with_timer os name parent body"
    by (rule ext) (simp add: timer_start_def with_timer_def bnd_def upd_def ret_def split: prod.split outcome.split)
  then show ?thesis by (simp add: nwith_timer_def just_bnd)
qed

section \<open>Total correctness up to the timers\<close>

definition near :: "state \<Rightarrow> state \<Rightarrow> bool" where
  "near t s \<longleftrightarrow> same_but_timers t s \<and> wf_timers (timer_records s)"

definition sure :: "'a nact \<Rightarrow> (state \<Rightarrow> bool) \<Rightarrow> ('a \<Rightarrow> state \<Rightarrow> bool) \<Rightarrow> bool" where
  "sure P T U \<longleftrightarrow> (\<forall>t s. T t \<longrightarrow> near t s \<longrightarrow>
     (\<exists>r. P s r) \<and> (\<forall>r. P s r \<longrightarrow> (\<exists>x u. U x u \<and> fst r = Ret x \<and> near u (snd r))))"

lemma sureI:
  assumes "\<And>t s. T t \<Longrightarrow> near t s \<Longrightarrow> \<exists>r. P s r"
    and "\<And>t s r. T t \<Longrightarrow> near t s \<Longrightarrow> P s r \<Longrightarrow> \<exists>x u. U x u \<and> fst r = Ret x \<and> near u (snd r)"
  shows "sure P T U"
  using assms unfolding sure_def by blast

lemma sure_exists: "sure P T U \<Longrightarrow> T t \<Longrightarrow> near t s \<Longrightarrow> \<exists>r. P s r"
  unfolding sure_def by blast

lemma sure_result:
  assumes "sure P T U" and "T t" and "near t s" and "P s r"
  obtains x u where "U x u" and "fst r = Ret x" and "near u (snd r)"
  using assms unfolding sure_def by blast

lemma sure_weaken: "sure P T U \<Longrightarrow> (\<And>x u. U x u \<Longrightarrow> U' x u) \<Longrightarrow> sure P T U'"
  unfolding sure_def by blast

text \<open>A triple may be proved for one start at a time.\<close>

lemma sure_each: "(\<And>t. T t \<Longrightarrow> sure P (\<lambda>s. s = t) U) \<Longrightarrow> sure P T U"
  unfolding sure_def by blast

lemma sure_bnd:
  assumes P: "sure P T U" and Q: "\<And>x. sure (Q x) (U x) V"
  shows "sure (nbnd P Q) T V"
proof (rule sureI)
  fix t s assume ts: "T t" "near t s"
  then obtain r where r: "P s r" using sure_exists [OF P] by blast
  from sure_result [OF P ts r] obtain x u where x: "U x u" "fst r = Ret x" "near u (snd r)" .
  then obtain r' where "Q x (snd r) r'" using sure_exists [OF Q] by blast
  with r x(2) have "nbnd P Q s r'" unfolding nbnd_def by (metis prod.collapse)
  then show "\<exists>r. nbnd P Q s r" ..
  fix r assume "nbnd P Q s r"
  then show "\<exists>x u. V x u \<and> fst r = Ret x \<and> near u (snd r)" unfolding nbnd_def
  proof (elim disjE exE conjE)
    fix x w assume xw: "P s (Ret x, w)" "Q x w r"
    from sure_result [OF P ts xw(1)] obtain u where "U x u" "near u w" by auto
    from sure_result [OF Q this xw(2)] show ?thesis by blast
  next
    fix h w assume "P s (Halt h, w)"
    from sure_result [OF P ts this] show ?thesis by auto
  qed
qed

lemma sure_runs:
  assumes "runs p t (Ret x) u" and "keeps (timers_from 0) p"
  shows "sure (just p) (\<lambda>s. s = t) (\<lambda>y v. y = x \<and> v = u)"
proof (rule sureI)
  fix t' s r assume t: "t' = t" "near t' s" "just p s r"
  have "timers_from 0 s" using t(2) by (simp add: near_def timers_from_def)
  from keepsD [OF assms(2) this] t assms(1) show "\<exists>y v. (y = x \<and> v = u) \<and> fst r = Ret y \<and> near v (snd r)"
    by (auto simp: just_def runs_def near_def timers_from_def)
qed (simp add: just_def)

text \<open>After a step with one result.\<close>

lemma sure_then:
  assumes "sure P (\<lambda>s. s = t) (\<lambda>x u. x = y \<and> u = t')" and "sure (Q y) (\<lambda>s. s = t') V"
  shows "sure (nbnd P Q) (\<lambda>s. s = t) V"
proof (rule sure_bnd [OF assms(1)], rule sure_each)
  show "sure (Q x) (\<lambda>s. s = w) V" if "x = y \<and> w = t'" for x w using assms(2) that by simp
qed

lemma sure_seq:
  fixes P :: "unit nact"
  assumes "sure P (\<lambda>s. s = t) (\<lambda>_ u. u = t')" and "sure (Q ()) (\<lambda>s. s = t') V"
  shows "sure (nbnd P Q) (\<lambda>s. s = t) V"
  by (rule sure_then [where y = "()" and t' = t']) (simp_all add: assms)

lemma sure_ret: "sure (just (ret x)) T (\<lambda>y u. y = x \<and> T u)"
  by (rule sureI) (auto simp: just_def ret_def)

lemma sure_ask:
  assumes "\<And>s c r. f (s\<lparr>w_clock := c, timer_records := r\<rparr>) = f s"
  shows "sure (just (ask f)) T (\<lambda>x u. x = f u \<and> T u)"
proof (rule sureI)
  fix t s r assume t: "T t" "near t s" "just (ask f) s r"
  from t(2) obtain c tr where "s = t\<lparr>w_clock := c, timer_records := tr\<rparr>" by (auto simp: near_def same_but_timers_def)
  with assms have "f s = f t" by simp
  with t show "\<exists>x u. (x = f u \<and> T u) \<and> fst r = Ret x \<and> near u (snd r)"
    by (intro exI [of _ "f t"] exI [of _ t]) (auto simp: just_def ask_def)
qed (simp add: just_def)

lemma sure_read:
  assumes "\<And>s c r. f (s\<lparr>w_clock := c, timer_records := r\<rparr>) = f s" and "sure (Q (f t)) (\<lambda>s. s = t) V"
  shows "sure (nbnd (just (ask f)) Q) (\<lambda>s. s = t) V"
proof (rule sure_then [where y = "f t" and t' = t])
  show "sure (just (ask f)) (\<lambda>s. s = t) (\<lambda>x u. x = f t \<and> u = t)"
    by (rule sure_weaken [OF sure_ask]) (use assms(1) in auto)
qed (rule assms(2))

lemma near_stop: "near t s \<Longrightarrow> near t (timer_stop os k s)"
  using same_but_timers_stop same_but_timers_trans by (auto simp: near_def wf_timers_stop)

lemma near_new: "near t s \<Longrightarrow> near t (snd (timer_new os name None s))"
  using same_but_timers_new same_but_timers_trans forest.J_new [of 0 s None os name]
  by (auto simp: near_def timers_from_def)

lemma sure_stop: "sure (just (upd (timer_stop os i))) T (\<lambda>_. T)"
  by (rule sureI) (simp_all add: just_def upd_def, use near_stop in auto)

lemma sure_timer:
  assumes "\<And>i. sure (body i) T U"
  shows "sure (nwith_timer os name None body) T U"
  unfolding nwith_timer_def
proof (rule sure_bnd)
  show "sure (just (timer_start os name None)) T (\<lambda>_. T)"
  proof (rule sureI)
    fix t s r assume "T t" "near t s" "just (timer_start os name None) s r"
    moreover from this have "snd r = snd (timer_new os name None s)" "\<exists>i. fst r = Ret i"
      by (auto simp: just_def timer_start_def Let_def split: prod.splits)
    ultimately show "\<exists>x u. T u \<and> fst r = Ret x \<and> near u (snd r)" using near_new by metis
  qed (simp add: just_def)
  show "sure (nbnd (body i) (\<lambda>x. nbnd (just (upd (timer_stop os i))) (\<lambda>_. just (ret x)))) T U" for i
    by (rule sure_bnd [OF assms], rule sure_bnd [OF sure_stop], rule sure_weaken [OF sure_ret]) simp
qed

end
