(* ===== verification/Parallel_Main.thy ===== *)
theory Parallel_Main
  imports Schedules
begin

text \<open>
  The program in the build with \<open>ENABLE_PARALLEL\<close>: \<open>main\<close> with the parallel \<open>load_image\<close>,
  \<open>detect_segments\<close> and \<open>create_diff_image\<close>, each with all the results that the schedules of its
  tasks allow. The theorems are on complete runs: whatever the schedule, a run ends, and what it
  writes is the difference image, also where the serial build writes none.
\<close>

section \<open>Loading and detection\<close>

definition par_load_image :: "opencv \<Rightarrow> os \<Rightarrow> unit nact" where
  "par_load_image cv os = nwith_timer os ''load image'' None (\<lambda>_. run_group (load_tasks cv os))"

definition par_detect_segments :: "opencv \<Rightarrow> os \<Rightarrow> unit nact" where
  "par_detect_segments cv os = run_task (detect_segments_task cv os)"

section \<open>The difference image\<close>

text \<open>
  The two loops: they return when all tasks have ended and none has failed. An exception of a
  task leaves the loops when all tasks have ended or were cancelled (any of them if there are
  several); undefined behaviour ends the process at once.
\<close>

inductive par_loops ::
  "opencv \<Rightarrow> diff_view \<Rightarrow> image_segment list \<Rightarrow> image_segment list \<Rightarrow> par \<Rightarrow> unit outcome \<times> par \<Rightarrow> bool"
  for cv v olds news s
where
  ended: "(par_step cv v olds news)\<^sup>*\<^sup>* s t \<Longrightarrow> quiescent olds news t \<Longrightarrow>
    (\<And>i j h. i < length olds \<Longrightarrow> j < length news \<Longrightarrow> p_task t (i, j) \<noteq> Failed h) \<Longrightarrow>
    par_loops cv v olds news s (Ret (), t)"
| thrown: "(par_step cv v olds news)\<^sup>*\<^sup>* s t \<Longrightarrow> quiescent olds news t \<Longrightarrow>
    i < length olds \<Longrightarrow> j < length news \<Longrightarrow> p_task t (i, j) = Failed (Uncaught e) \<Longrightarrow>
    par_loops cv v olds news s (Halt (Uncaught e), t)"
| died: "(par_step cv v olds news)\<^sup>*\<^sup>* s t \<Longrightarrow> i < length olds \<Longrightarrow> j < length news \<Longrightarrow>
    p_task t (i, j) = Failed h \<Longrightarrow> (\<And>e. h \<noteq> Uncaught e) \<Longrightarrow> par_loops cv v olds news s (Halt h, t)"

text \<open>The tasks work on the segments of the context themselves, so their marks stay.\<close>

definition with_flags :: "(nat \<Rightarrow> bool) \<Rightarrow> image_segment list \<Rightarrow> image_segment list" where
  "with_flags flags segs = map (\<lambda>i. (segs ! i)\<lparr>seg_matched := flags i\<rparr>) [0..<length segs]"

definition with_marks :: "par \<Rightarrow> state \<Rightarrow> state" where
  "with_marks p s = s\<lparr>old_segments := with_flags (p_old_matched p) (old_segments s),
     new_segments := with_flags (p_new_matched p) (new_segments s)\<rparr>"

definition par_match ::
  "opencv \<Rightarrow> diff_view \<Rightarrow> image_segment list \<Rightarrow> image_segment list \<Rightarrow> bgr mat \<Rightarrow> bgr mat nact"
where
  "par_match cv v olds news result s r \<longleftrightarrow>
     (\<exists>e p. par_loops cv v olds news (par_start olds news result) (e, p) \<and>
        r = (then_outcome e (\<lambda>_. Ret (p_result p)), with_marks p s))"

text \<open>
  The images of the added and of the deleted parts, each by its own task. The loop over the
  segments inside a task works on an image of this task, so it is one step, with the result that
  one of its schedules gives.
\<close>

definition draws :: "opencv \<Rightarrow> (image_segment list \<Rightarrow> bgr mat \<Rightarrow> unit outcome \<times> bgr mat) \<Rightarrow> bool" where
  "draws cv draw \<longleftrightarrow> (\<forall>segs m. run_group (draw_tasks cv segs) m (draw segs m))"

definition change_task ::
  "opencv \<Rightarrow> (image_segment list \<Rightarrow> bgr mat \<Rightarrow> unit outcome \<times> bgr mat) \<Rightarrow>
   (state \<Rightarrow> mapped_file option) \<Rightarrow> (state \<Rightarrow> image_segment list) \<Rightarrow> string \<Rightarrow> state task"
where
  "change_task cv draw file segments suffix =
     atom (ask (\<lambda>s. (file s, segments s, output_name (arg s) @ suffix))) (\<lambda>(f, segs, name). case f of
       None \<Rightarrow> atom (halt (Undefined ''dereference of an empty unique_ptr'') :: unit act) (\<lambda>_. Done)
     | Some mf \<Rightarrow>
         atom (call (decode_from_mapped_file cv mf IMREAD_COLOR)) (\<lambda>image.
         atom (\<lambda>s. (then_outcome (fst (draw segs image)) (\<lambda>_. Ret (snd (draw segs image))), s)) (\<lambda>image.
         atom (imwrite cv name image) (\<lambda>_. Done))))"

definition change_group ::
  "opencv \<Rightarrow> (image_segment list \<Rightarrow> bgr mat \<Rightarrow> unit outcome \<times> bgr mat) \<Rightarrow>
   (image_segment list \<Rightarrow> bgr mat \<Rightarrow> unit outcome \<times> bgr mat) \<Rightarrow> state task"
where
  "change_group cv draw1 draw2 =
     fork [change_task cv draw1 old_file old_segments ''_delete.png'',
           change_task cv draw2 new_file new_segments ''_add.png''] Done"

definition par_change_images :: "opencv \<Rightarrow> unit nact" where
  "par_change_images cv s r \<longleftrightarrow>
     (\<exists>draw1 draw2. draws cv draw1 \<and> draws cv draw2 \<and> run_task (change_group cv draw1 draw2) s r)"

definition par_write_images :: "opencv \<Rightarrow> os \<Rightarrow> bgr mat \<Rightarrow> unit nact" where
  "par_write_images cv os result = nwith_timer os ''write'' None (\<lambda>_.
     nbnd (just (ask (\<lambda>s. output_name (arg s) @ ''_diff.png''))) (\<lambda>name.
     nbnd (just (imwrite cv name result)) (\<lambda>_.
     nbnd (just (ask (\<lambda>s. create_change_image (arg s)))) (\<lambda>change.
     if \<not> change then just (ret ())
     else nwith_timer os ''create added and deleted image'' None (\<lambda>_. par_change_images cv)))))"

definition par_create_diff_image :: "opencv \<Rightarrow> os \<Rightarrow> unit nact" where
  "par_create_diff_image cv os = nwith_timer os ''create diff image'' None (\<lambda>_.
     nbnd (just (ask (\<lambda>s. (diff_view_of s, old_segments s, new_segments s)))) (\<lambda>(v, olds, news).
     nbnd (just (call (cv_merge3 cv (v_old_gray v) (v_old_gray v) (v_old_gray v)))) (\<lambda>result.
     nbnd (par_match cv v olds news result) (par_write_images cv os))))"

section \<open>The program\<close>

text \<open>
  The constructor of \<open>tbb::global_control\<close> refuses the limit 0 and aborts (global_control.h of the
  vendored TBB). A negative \<open>thread_count\<close> becomes a large \<open>std::size_t\<close>. The limit itself only
  makes fewer schedules possible.
\<close>

definition limit_threads :: "unit act" where
  "limit_threads = bnd (ask (\<lambda>s. thread_count (arg s))) (\<lambda>n.
     if n = 0 then halt (Uncaught ''max_allowed_parallelism cannot be 0.'') else ret ())"

definition par_stages :: "opencv \<Rightarrow> os \<Rightarrow> nat \<Rightarrow> string list \<Rightarrow> unit nact" where
  "par_stages cv os active argv =
     nbnd (just (upd (\<lambda>s. s\<lparr>cmdline_args := cmdline_args s @ argv\<rparr>))) (\<lambda>_.
     nbnd (just (parse_args (Parallel active) os)) (\<lambda>_.
     nbnd (just limit_threads) (\<lambda>_.
     nbnd (par_load_image cv os) (\<lambda>_.
     nbnd (just (check_histogram_differential cv os)) (\<lambda>diff_check. case diff_check of
       Inr err \<Rightarrow> just (fatal err)
     | Inl same \<Rightarrow>
         if same then just (fatal ''two images are same'')
         else
           nbnd (par_detect_segments cv os) (\<lambda>_.
           par_create_diff_image cv os))))))"

definition par_main :: "opencv \<Rightarrow> os \<Rightarrow> nat \<Rightarrow> string list \<Rightarrow> int nact" where
  "par_main cv os active argv =
     nbnd (nwith_timer os ''all'' None (\<lambda>t_all.
       nbnd (par_stages cv os active argv) (\<lambda>_.
       nbnd (just (upd (timer_stop os t_all))) (\<lambda>_.
       nbnd (just (ask (\<lambda>s. perf (arg s)))) (\<lambda>p.
       nbnd (just (if p then print_timer_records os else ret ())) (\<lambda>_.
       just (ret 0))))))) (\<lambda>status.
     nbnd (just (upd context_dtor)) (\<lambda>_. just (ret status)))"

section \<open>The end of a run\<close>

text \<open>What \<open>main\<close> does after the last stage has one result.\<close>

definition closing :: "os \<Rightarrow> nat \<Rightarrow> int act" where
  "closing os i =
     bnd (upd (timer_stop os i)) (\<lambda>_.
     bnd (ask (\<lambda>s. perf (arg s))) (\<lambda>p.
     bnd (if p then print_timer_records os else ret ()) (\<lambda>_.
     bnd (upd (timer_stop os i)) (\<lambda>_.
     bnd (upd context_dtor) (\<lambda>_. ret 0)))))"

lemma par_main_closing:
  "par_main cv os active argv =
     nbnd (just (timer_start os ''all'' None)) (\<lambda>i. nbnd (par_stages cv os active argv) (\<lambda>_. just (closing os i)))"
  by (simp only: par_main_def nwith_timer_def nbnd_assoc just_bnd closing_def bnd_assoc bnd_ret)

lemma context_dtor_written: "w_written (context_dtor s) = w_written s"
  by (simp add: context_dtor_def delete_file_def mapped_file_dtor_def split: option.split)

lemma closing_result:
  assumes "wf_timers (timer_records t)"
  shows "fst (closing os i t) = Ret 0" and "w_written (snd (closing os i t)) = w_written t"
    and "resources (snd (closing os i t)) = resources (context_dtor t)"
proof -
  let ?t = "timer_stop os i t" and ?report = "if perf (arg t) then print_timer_records os else ret ()"
  have "fst (?report ?t) = Ret ()"
    using report_outcome [OF wf_timers_stop [OF assms]] by (simp add: ret_def)
  moreover obtain c r out where fr: "snd (?report ?t) = ?t\<lparr>w_clock := c, timer_records := r, w_out := out\<rparr>"
  proof (cases "perf (arg t)")
    case True
    with that show thesis by (auto intro: report_frame [of os ?t])
  next
    case False
    with that [where c = "w_clock ?t" and r = "timer_records ?t" and out = "w_out ?t"] show thesis
      by (simp add: ret_def)
  qed
  ultimately have "?report ?t = (Ret (), ?t\<lparr>w_clock := c, timer_records := r, w_out := out\<rparr>)"
    by (simp add: prod_eq_iff)
  then have eq: "closing os i t = (Ret 0, context_dtor (timer_stop os i (?t\<lparr>w_clock := c, timer_records := r, w_out := out\<rparr>)))"
    by (cases "perf (arg t)") (simp_all add: closing_def bnd_def upd_def ask_def ret_def)
  then show "fst (closing os i t) = Ret 0" by simp
  show "w_written (snd (closing os i t)) = w_written t" by (simp add: eq context_dtor_written)
  show "resources (snd (closing os i t)) = resources (context_dtor t)"
    by (simp add: eq resources_def context_dtor_def delete_file_effect)
qed

section \<open>The stages under every schedule\<close>

lemma sure_load:
  assumes "loads cv os (arg_new_file (arg t)) nf nc ng" and "loads cv os (arg_old_file (arg t)) mo oc og"
    and "new_file t = None" and "old_file t = None"
  shows "sure (par_load_image cv os) (\<lambda>s. s = t) (\<lambda>_ u. u = after_load nf nc ng mo oc og t)"
  unfolding par_load_image_def
proof (rule sure_timer, rule sureI)
  fix t' s r
  assume s: "t' = t" "near t' s" "run_group (load_tasks cv os) s r"
  let ?p = "bnd (load_new cv os) (\<lambda>_. load_old cv os)"
  have res: "fst (?p s) = Ret ()" "same_but_timers (after_load nf nc ng mo oc og t) (snd (?p s))"
    using runs_load_both [OF assms] s by (auto simp: runs_def near_def)
  have "timers_from 0 (snd (?p s))"
    using s(2) by (intro keepsD [OF forest_load_both]) (simp add: near_def timers_from_def)
  moreover have "?p s = (Ret (), snd (?p s))" using res(1) by (simp add: prod_eq_iff)
  then have "r = (Ret (), snd (?p s))"
    using loading.group_deterministic [OF _ s(3)] by (simp only: load_tasks_serial)
  ultimately show "\<exists>x u. u = after_load nf nc ng mo oc og t \<and> fst r = Ret x \<and> near u (snd r)"
    using res(2) by (simp add: near_def timers_from_def)
qed (rule group_has_result)

lemma sure_detect:
  assumes "detected cv (bin_threshold (arg t)) (old_gray_mat t) (old_color_mat t) = Ret olds"
    and "detected cv (bin_threshold (arg t)) (new_gray_mat t) (new_color_mat t) = Ret news"
    and "old_segments t = []" and "new_segments t = []"
  shows "sure (par_detect_segments cv os) (\<lambda>s. s = t) (\<lambda>_ u. u = t\<lparr>old_segments := olds, new_segments := news\<rparr>)"
  unfolding par_detect_segments_def
proof (rule sureI)
  fix t' s r
  assume "t' = t" "near t' s" and run: "run_task (detect_segments_task cv os) s r"
  then obtain c tr where s: "s = t\<lparr>w_clock := c, timer_records := tr\<rparr>" and wf: "timers_from 0 s"
    by (auto simp: near_def same_but_timers_def timers_from_def)
  from detect_task_result [OF _ _ _ _ wf run, of olds news] assms
  obtain w where w: "r = (Ret (), w)" "same_but_timers (s\<lparr>old_segments := olds, new_segments := news\<rparr>) w" "timers_from 0 w"
    by (auto simp: s)
  have "same_but_timers (t\<lparr>old_segments := olds, new_segments := news\<rparr>) (s\<lparr>old_segments := olds, new_segments := news\<rparr>)"
    unfolding s same_but_timers_def by (intro exI [of _ c] exI [of _ tr]) simp
  from same_but_timers_trans [OF this w(2)] w
  show "\<exists>x u. u = t\<lparr>old_segments := olds, new_segments := news\<rparr> \<and> fst r = Ret x \<and> near u (snd r)"
    by (simp add: near_def timers_from_def)
qed (rule task_has_result)

definition hits :: "opencv \<Rightarrow> diff_view \<Rightarrow> image_segment list \<Rightarrow> image_segment list \<Rightarrow> image_segment list" where
  "hits cv v olds news = map (\<lambda>seg. seg\<lparr>seg_matched := hit cv v olds seg\<rparr>) news"

text \<open>A segment of the old image that counts as matched does match some segment.\<close>

definition sound_flags :: "opencv \<Rightarrow> diff_view \<Rightarrow> image_segment list \<Rightarrow> image_segment list \<Rightarrow> (nat \<Rightarrow> bool) \<Rightarrow> bool" where
  "sound_flags cv v olds news flags \<longleftrightarrow> (\<forall>i < length olds. flags i \<longrightarrow>
     usable (olds ! i) \<and> (\<exists>seg \<in> set news. usable seg \<and> matches cv v (olds ! i) seg))"

lemma loops_result:
  assumes ok: "par_ok cv v olds news base" and run: "par_loops cv v olds news (par_start olds news base) (e, p)"
  shows "e = Ret ()" and "painted base (\<lambda>y x. \<exists>seg \<in> set news. hit cv v olds seg \<and> marks cv v seg y x) (p_result p)"
    and "with_flags (p_new_matched p) news = hits cv v olds news" and "sound_flags cv v olds news (p_old_matched p)"
proof -
  have reach: "(par_step cv v olds news)\<^sup>*\<^sup>* (par_start olds news base) p" using run by cases auto
  have inv: "par_inv cv v olds news base p" by (rule par_inv_reach [OF ok reach])
  then have flags: "flags_inv cv v olds news p" by (simp add: par_inv_def)
  have "p_task p (i, j) \<noteq> Failed h" if "i < length olds" "j < length news" for i j h
    using flags_task [OF flags that] by (auto simp: task_inv_def)
  with run show e: "e = Ret ()" by cases auto
  with run have q: "quiescent olds news p" by cases auto
  show "painted base (\<lambda>y x. \<exists>seg \<in> set news. hit cv v olds seg \<and> marks cv v seg y x) (p_result p)"
    by (rule result_painted [OF inv q])
  show "with_flags (p_new_matched p) news = hits cv v olds news"
    using new_matched_hit [OF flags q] by (auto simp: with_flags_def hits_def intro!: nth_equalityI)
  show "sound_flags cv v olds news (p_old_matched p)"
    unfolding sound_flags_def
  proof (intro allI impI)
    fix i assume i: "i < length olds" "p_old_matched p i"
    with flags obtain j where j: "j < length news" "marked_old (p_task p (i, j))" by (auto simp: flags_inv_def)
    then have "p_outer p i = Spawned" using flags i(1) by (auto simp: flags_inv_def marked_old_def passed_def)
    then have "usable (olds ! i)" using flags i(1) by (simp add: flags_inv_def)
    moreover have "pair_ok cv v (olds ! i) (news ! j)"
      by (rule marked_pair [OF flags_task [OF flags i(1) j(1)] j(2)])
    ultimately show "usable (olds ! i) \<and> (\<exists>seg \<in> set news. usable seg \<and> matches cv v (olds ! i) seg)"
      using nth_mem [OF j(1)] unfolding pair_ok_def by blast
  qed
qed

lemma loops_exist: "par_ok cv v olds news base \<Longrightarrow> \<exists>p. par_loops cv v olds news (par_start olds news base) (Ret (), p)"
proof -
  assume ok: "par_ok cv v olds news base"
  obtain p where p: "(par_step cv v olds news)\<^sup>*\<^sup>* (par_start olds news base) p" "quiescent olds news p"
    using tasks.reaches_final by blast
  have "flags_inv cv v olds news p" using par_inv_reach [OF ok p(1)] by (simp add: par_inv_def)
  from flags_task [OF this] have "par_loops cv v olds news (par_start olds news base) (Ret (), p)"
    by (intro par_loops.ended p) (force simp: task_inv_def)
  then show ?thesis ..
qed

lemma sure_match:
  assumes ok: "par_ok cv v (old_segments t) (new_segments t) base"
  shows "sure (par_match cv v (old_segments t) (new_segments t) base) (\<lambda>s. s = t)
    (\<lambda>m u. painted base (\<lambda>y x. \<exists>seg \<in> set (new_segments t). hit cv v (old_segments t) seg \<and> marks cv v seg y x) m \<and>
       (\<exists>flags. sound_flags cv v (old_segments t) (new_segments t) flags \<and>
          u = t\<lparr>old_segments := with_flags flags (old_segments t),
            new_segments := hits cv v (old_segments t) (new_segments t)\<rparr>))"
proof (rule sureI)
  fix t' s
  assume "t' = t" "near t' s"
  then obtain c tr where s: "s = t\<lparr>w_clock := c, timer_records := tr\<rparr>" and wf: "wf_timers tr"
    by (auto simp: near_def same_but_timers_def)
  show "\<exists>r. par_match cv v (old_segments t) (new_segments t) base s r"
    using loops_exist [OF ok] unfolding par_match_def by blast
  fix r
  assume "par_match cv v (old_segments t) (new_segments t) base s r"
  then obtain e p where p: "par_loops cv v (old_segments t) (new_segments t)
      (par_start (old_segments t) (new_segments t) base) (e, p)"
    and r: "r = (then_outcome e (\<lambda>_. Ret (p_result p)), with_marks p s)" by (auto simp: par_match_def)
  let ?u = "t\<lparr>old_segments := with_flags (p_old_matched p) (old_segments t),
      new_segments := hits cv v (old_segments t) (new_segments t)\<rparr>"
  have "near ?u (with_marks p s)"
    using wf loops_result(3) [OF ok p] unfolding near_def same_but_timers_def
    by (auto simp: s with_marks_def intro!: exI [of _ c] exI [of _ tr])
  with loops_result(1,2,4) [OF ok p] show "\<exists>m u. (painted base (\<lambda>y x. \<exists>seg \<in> set (new_segments t).
      hit cv v (old_segments t) seg \<and> marks cv v seg y x) m \<and> (\<exists>flags. sound_flags cv v (old_segments t) (new_segments t) flags \<and>
        u = t\<lparr>old_segments := with_flags flags (old_segments t),
          new_segments := hits cv v (old_segments t) (new_segments t)\<rparr>)) \<and> fst r = Ret m \<and> near u (snd r)"
    by (intro exI [of _ "p_result p"] exI [of _ ?u]) (auto simp: r)
qed

section \<open>Two tasks that each write at the end\<close>

text \<open>
  \<open>tail I p W\<close>: where \<open>I\<close> holds, the task \<open>p\<close> only reads, and its last step changes the state by
  \<open>W\<close>.
\<close>

inductive tail :: "('s \<Rightarrow> bool) \<Rightarrow> 's task \<Rightarrow> ('s \<Rightarrow> 's) \<Rightarrow> bool" for I where
  tail_Done: "tail I Done (\<lambda>s. s)"
| tail_read: "(\<And>s. I s \<Longrightarrow> f s = (Ret q, s)) \<Longrightarrow> tail I q W \<Longrightarrow> tail I (Act f) W"
| tail_write: "(\<And>s. I s \<Longrightarrow> f s = (Ret Done, W s)) \<Longrightarrow> (\<And>s. I s \<Longrightarrow> I (W s)) \<Longrightarrow> tail I (Act f) W"

lemma tail_ask: "(\<And>s. I s \<Longrightarrow> p s = (Ret x, s)) \<Longrightarrow> tail I (k x) W \<Longrightarrow> tail I (atom p k) W"
  unfolding atom_def by (rule tail_read [where q = "k x"]) simp_all

lemma tail_last:
  assumes "\<And>s. I s \<Longrightarrow> p s = (Ret x, W s)" and "\<And>s. I s \<Longrightarrow> I (W s)"
  shows "tail I (atom p (\<lambda>_. Done)) W"
  unfolding atom_def by (rule tail_write) (simp_all add: assms)

lemma tail_DoneD: "tail I Done W \<Longrightarrow> W = (\<lambda>s. s)"
  by (erule tail.cases) simp_all

lemma tail_step:
  assumes "tail I p W" and "I s" and "task_step p s r t"
  obtains q where "r = Ret q" "I t" "t = s" "tail I q W"
    | q where "r = Ret q" "I t" "t = W s" "tail I q (\<lambda>s. s)"
  using assms
proof (cases rule: tail.cases)
  case (tail_read f q)
  with assms(2,3) show ?thesis by (auto intro: that(1))
next
  case (tail_write f)
  with assms(2,3) have "r = Ret Done" "I t" "t = W s" by auto
  then show ?thesis by (rule that(2)) (rule tail_Done)
qed auto

lemma two_tails:
  assumes "run_task (Fork [(b1, p1), (b2, p2)] None Done) s r" and "tail I p1 W1" and "tail I p2 W2" and "I s"
  shows "r = (Ret (), W2 (W1 s)) \<or> r = (Ret (), W1 (W2 s))"
  using assms
proof (induction "Fork [(b1, p1), (b2, p2)] None Done" s r arbitrary: b1 p1 b2 p2 W1 W2)
  case (step s q t r)
  from step.hyps(1) show ?case
  proof cases
    case (child k b p q')
    then consider "k = 0" "p = p1" | "k = 1" "p = p2" by (auto simp: less_Suc_eq)
    then show ?thesis
    proof cases
      case 1
      from step.prems(1,3) child(4) [unfolded 1(2)] show ?thesis
        by (rule tail_step) (use step.hyps(3) step.prems child 1 in fastforce)+
    next
      case 2
      from step.prems(2,3) child(4) [unfolded 2(2)] show ?thesis
        by (rule tail_step) (use step.hyps(3) step.prems child 2 in fastforce)+
    qed
  next
    case (throw k b p e)
    then have "p = p1 \<or> p = p2" by (auto simp: less_Suc_eq)
    with throw(4) step.prems show ?thesis by (auto elim: tail_step)
  next
    case join
    then have "W1 = (\<lambda>s. s)" "W2 = (\<lambda>s. s)" using step.prems by (auto dest: tail_DoneD)
    with join step.hyps(2) show ?thesis by (auto elim: run_task.cases)
  qed
next
  case (halt s h t)
  from halt.hyps show ?case
  proof cases
    case (die k b p)
    then have "p = p1 \<or> p = p2" by (auto simp: less_Suc_eq)
    with die(3) halt.prems show ?thesis by (auto elim: tail_step)
  qed
qed

section \<open>Writing the images\<close>

definition writes :: "string \<Rightarrow> bgr mat \<Rightarrow> state \<Rightarrow> state" where
  "writes name m s = s\<lparr>w_written := w_written s @ [(name, m)]\<rparr>"

definition green :: "opencv \<Rightarrow> (rect \<Rightarrow> int \<Rightarrow> int \<Rightarrow> int \<Rightarrow> bool) \<Rightarrow> image_segment list \<Rightarrow> bgr mat \<Rightarrow> bgr mat" where
  "green cv stroke segs = tinted (outlined stroke segs) (scalar_bgr (cv_RGB cv 0 255 0))"

lemma imwrite_writes: "cv_imwrite cv name m = Inr b \<Longrightarrow> imwrite cv name m s = (Ret (), writes name m s)"
  by (simp add: imwrite_def writes_def upd_def)

lemma near_writes: "near t s \<Longrightarrow> near (writes name m t) (writes name m s)"
proof -
  assume "near t s"
  then obtain c r where "s = t\<lparr>w_clock := c, timer_records := r\<rparr>" "wf_timers r"
    by (auto simp: near_def same_but_timers_def)
  then have "writes name m s = (writes name m t)\<lparr>w_clock := c, timer_records := r\<rparr>" "wf_timers (timer_records (writes name m s))"
    by (simp_all add: writes_def)
  then show ?thesis by (auto simp: near_def same_but_timersI)
qed

lemma sure_imwrite:
  assumes "\<exists>b. cv_imwrite cv name m = Inr b"
  shows "sure (just (imwrite cv name m)) (\<lambda>s. s = t) (\<lambda>_ u. u = writes name m t)"
  using assms by (intro sureI) (auto simp: just_def imwrite_writes near_writes)

lemma change_tail:
  assumes "\<And>s. I s \<Longrightarrow> file s = Some mf \<and> segments s = segs \<and> output_name (arg s) = out"
    and "\<And>s m. I s \<Longrightarrow> I (writes (out @ suffix) m s)"
    and "decode_from_mapped_file cv mf IMREAD_COLOR = Inr img" and "draws cv draw" and "stroke_law cv stroke"
    and "\<And>m. \<exists>b. cv_imwrite cv (out @ suffix) m = Inr b"
  shows "tail I (change_task cv draw file segments suffix) (writes (out @ suffix) (green cv stroke segs img))"
proof -
  have draw: "draw segs img = (Ret (), green cv stroke segs img)"
    unfolding green_def
    by (rule independent_tasks.group_deterministic [OF draw_tasks_independent [OF assms(5)] run_draw_tasks [OF assms(5)]])
      (use assms(4) in \<open>simp add: draws_def\<close>)
  obtain b where b: "cv_imwrite cv (out @ suffix) (green cv stroke segs img) = Inr b" using assms(6) by blast
  show ?thesis unfolding change_task_def
  proof (rule tail_ask [where x = "(Some mf, segs, out @ suffix)"], simp add: assms(1), simp only: prod.case option.case,
      rule tail_ask [where x = img], simp add: assms(3) ret_def, rule tail_ask [where x = "green cv stroke segs img"])
    show "(then_outcome (fst (draw segs img)) (\<lambda>_. Ret (snd (draw segs img))), s) = (Ret (green cv stroke segs img), s)"
      for s :: state by (simp add: draw)
    show "tail I (atom (imwrite cv (out @ suffix) (green cv stroke segs img)) (\<lambda>_. Done))
        (writes (out @ suffix) (green cv stroke segs img))"
      by (rule tail_last) (simp_all add: imwrite_writes [OF b] assms(2))
  qed
qed

lemma draws_exist: obtains draw where "draws cv draw"
proof -
  have "draws cv (\<lambda>segs m. SOME r. run_group (draw_tasks cv segs) m r)"
    unfolding draws_def by (rule allI, rule allI, rule someI_ex, rule group_has_result)
  then show thesis by (rule that)
qed

lemma sure_change:
  fixes t :: state
  defines "out \<equiv> output_name (arg t)"
  assumes law: "stroke_law cv stroke" and files: "old_file t = Some mo" "new_file t = Some nf"
    and decode: "decode_from_mapped_file cv mo IMREAD_COLOR = Inr oc" "decode_from_mapped_file cv nf IMREAD_COLOR = Inr nc"
    and saved: "\<And>name m. \<exists>b. cv_imwrite cv name m = Inr b"
  defines "del \<equiv> writes (out @ ''_delete.png'') (green cv stroke (old_segments t) oc)"
    and "add \<equiv> writes (out @ ''_add.png'') (green cv stroke (new_segments t) nc)"
  shows "sure (par_change_images cv) (\<lambda>s. s = t) (\<lambda>_ u. u = add (del t) \<or> u = del (add t))"
proof (rule sureI)
  let ?I = "\<lambda>s. old_file s = Some mo \<and> new_file s = Some nf \<and> old_segments s = old_segments t \<and>
    new_segments s = new_segments t \<and> output_name (arg s) = out"
  fix t' s
  assume "t' = t" "near t' s"
  then have s: "near t s" "?I s" using files by (auto simp: near_def same_but_timers_def out_def)
  obtain draw where draw: "draws cv draw" by (rule draws_exist)
  obtain r where "run_task (change_group cv draw draw) s r" using task_has_result ..
  with draw have "par_change_images cv s r" unfolding par_change_images_def by blast
  then show "\<exists>r. par_change_images cv s r" ..
  fix r
  assume "par_change_images cv s r"
  then obtain d1 d2 where d: "draws cv d1" "draws cv d2" and run: "run_task (change_group cv d1 d2) s r"
    by (auto simp: par_change_images_def)
  have tails: "tail ?I (change_task cv d1 old_file old_segments ''_delete.png'') del"
    "tail ?I (change_task cv d2 new_file new_segments ''_add.png'') add"
    unfolding del_def add_def
    by (rule change_tail; use decode d law saved in \<open>simp add: writes_def\<close>)+
  have "r = (Ret (), add (del s)) \<or> r = (Ret (), del (add s))"
    using run s(2) by (intro two_tails [OF _ tails]) (simp_all add: change_group_def fork_def)
  moreover have "near (add (del t)) (add (del s))" "near (del (add t)) (del (add s))"
    using s(1) by (simp_all add: add_def del_def near_writes)
  ultimately show "\<exists>x u. (u = add (del t) \<or> u = del (add t)) \<and> fst r = Ret x \<and> near u (snd r)" by auto
qed

definition images_written ::
  "opencv \<Rightarrow> (rect \<Rightarrow> int \<Rightarrow> int \<Rightarrow> int \<Rightarrow> bool) \<Rightarrow> bgr mat \<Rightarrow> bgr mat \<Rightarrow> bgr mat \<Rightarrow> state \<Rightarrow> state \<Rightarrow> bool"
where
  "images_written cv stroke oc nc m t u \<longleftrightarrow>
     (let out = output_name (arg t); diff = writes (out @ ''_diff.png'') m;
          del = writes (out @ ''_delete.png'') (green cv stroke (old_segments t) oc);
          add = writes (out @ ''_add.png'') (green cv stroke (new_segments t) nc)
      in if create_change_image (arg t) then u = add (del (diff t)) \<or> u = del (add (diff t)) else u = diff t)"

definition changes_ok ::
  "opencv \<Rightarrow> (rect \<Rightarrow> int \<Rightarrow> int \<Rightarrow> int \<Rightarrow> bool) \<Rightarrow> bgr mat \<Rightarrow> bgr mat \<Rightarrow> state \<Rightarrow> bool"
where
  "changes_ok cv stroke oc nc t \<longleftrightarrow> stroke_law cv stroke \<and>
     (\<exists>mo nf. old_file t = Some mo \<and> new_file t = Some nf \<and> decode_from_mapped_file cv mo IMREAD_COLOR = Inr oc \<and>
        decode_from_mapped_file cv nf IMREAD_COLOR = Inr nc)"

lemma writes_fields [simp]:
  "arg (writes name m t) = arg t" "old_file (writes name m t) = old_file t" "new_file (writes name m t) = new_file t"
  "old_segments (writes name m t) = old_segments t" "new_segments (writes name m t) = new_segments t"
  "w_written (writes name m t) = w_written t @ [(name, m)]" "resources (writes name m t) = resources t"
  by (simp_all add: writes_def resources_def)

lemma sure_write:
  assumes saved: "\<And>name m. \<exists>b. cv_imwrite cv name m = Inr b"
    and ok: "create_change_image (arg t) \<Longrightarrow> changes_ok cv stroke oc nc t"
  shows "sure (par_write_images cv os m) (\<lambda>s. s = t) (\<lambda>_ u. images_written cv stroke oc nc m t u)"
  unfolding par_write_images_def
proof (rule sure_timer, rule sure_read, simp)
  let ?t = "writes (output_name (arg t) @ ''_diff.png'') m t"
  show "sure (nbnd (just (imwrite cv (output_name (arg t) @ ''_diff.png'') m)) (\<lambda>_.
      nbnd (just (ask (\<lambda>s. create_change_image (arg s)))) (\<lambda>change. if \<not> change then just (ret ())
        else nwith_timer os ''create added and deleted image'' None (\<lambda>_. par_change_images cv)))) (\<lambda>s. s = t)
      (\<lambda>_ u. images_written cv stroke oc nc m t u)"
  proof (rule sure_bnd [OF sure_imwrite [OF saved]], rule sure_read, simp)
    show "sure (if \<not> create_change_image (arg ?t) then just (ret ())
        else nwith_timer os ''create added and deleted image'' None (\<lambda>_. par_change_images cv)) (\<lambda>s. s = ?t)
        (\<lambda>_ u. images_written cv stroke oc nc m t u)"
    proof (cases "create_change_image (arg t)")
      case True
      with ok obtain mo nf where "stroke_law cv stroke" "old_file ?t = Some mo" "new_file ?t = Some nf"
        "decode_from_mapped_file cv mo IMREAD_COLOR = Inr oc" "decode_from_mapped_file cv nf IMREAD_COLOR = Inr nc"
        by (auto simp: changes_ok_def)
      from sure_change [OF this saved] True show ?thesis
        by (auto simp: images_written_def Let_def intro!: sure_timer elim!: sure_weaken)
    next
      case False
      with sure_weaken [OF sure_ret [of "()" "\<lambda>s. s = ?t"]] show ?thesis by (simp add: images_written_def Let_def)
    qed
  qed
qed

lemma sure_create:
  assumes ok: "par_ok cv (diff_view_of t) (old_segments t) (new_segments t) base"
    and base: "cv_merge3 cv (old_gray_mat t) (old_gray_mat t) (old_gray_mat t) = Inr base"
    and saved: "\<And>name m. \<exists>b. cv_imwrite cv name m = Inr b"
    and change: "create_change_image (arg t) \<Longrightarrow> changes_ok cv stroke oc nc t"
  shows "sure (par_create_diff_image cv os) (\<lambda>s. s = t) (\<lambda>_ u. \<exists>m flags.
    painted base (\<lambda>y x. \<exists>seg \<in> set (new_segments t). hit cv (diff_view_of t) (old_segments t) seg \<and>
      marks cv (diff_view_of t) seg y x) m \<and>
    sound_flags cv (diff_view_of t) (old_segments t) (new_segments t) flags \<and>
    images_written cv stroke oc nc m (t\<lparr>old_segments := with_flags flags (old_segments t),
      new_segments := hits cv (diff_view_of t) (old_segments t) (new_segments t)\<rparr>) u)"
  (is "sure _ _ ?U")
  unfolding par_create_diff_image_def
proof (rule sure_timer, rule sure_read, simp add: diff_view_of_def, simp only: prod.case)
  let ?v = "diff_view_of t"
  have "sure (just (call (cv_merge3 cv (v_old_gray ?v) (v_old_gray ?v) (v_old_gray ?v)))) (\<lambda>s. s = t) (\<lambda>r u. r = base \<and> u = t)"
    using sure_ret [of base "\<lambda>s. s = t"] base by (simp add: diff_view_of_def)
  then show "sure (nbnd (just (call (cv_merge3 cv (v_old_gray ?v) (v_old_gray ?v) (v_old_gray ?v)))) (\<lambda>result.
      nbnd (par_match cv ?v (old_segments t) (new_segments t) result) (par_write_images cv os))) (\<lambda>s. s = t) ?U"
  proof (rule sure_then)
    show "sure (nbnd (par_match cv ?v (old_segments t) (new_segments t) base) (par_write_images cv os)) (\<lambda>s. s = t) ?U"
    proof (rule sure_bnd [OF sure_match [OF ok]], rule sure_each, elim conjE exE, hypsubst)
      fix m flags
      let ?t = "t\<lparr>old_segments := with_flags flags (old_segments t), new_segments := hits cv ?v (old_segments t) (new_segments t)\<rparr>"
      assume "painted base (\<lambda>y x. \<exists>seg \<in> set (new_segments t). hit cv ?v (old_segments t) seg \<and> marks cv ?v seg y x) m"
        "sound_flags cv ?v (old_segments t) (new_segments t) flags"
      moreover have "sure (par_write_images cv os m) (\<lambda>s. s = ?t) (\<lambda>_ u. images_written cv stroke oc nc m ?t u)"
        using saved change by (intro sure_write) (simp_all add: changes_ok_def)
      ultimately show "sure (par_write_images cv os m) (\<lambda>s. s = ?t) ?U" by (elim sure_weaken) blast
    qed
  qed
qed

section \<open>Complete runs\<close>

definition par_parsed_state :: "nat \<Rightarrow> string list \<Rightarrow> options \<Rightarrow> state" where
  "par_parsed_state active argv ar = initial_state\<lparr>cmdline_args := argv, arg := fill_defaults (Parallel active) ar\<rparr>"

definition par_diff_state :: "nat \<Rightarrow> string list \<Rightarrow> options \<Rightarrow> mapped_file \<Rightarrow> bgr mat \<Rightarrow> u8 mat \<Rightarrow>
    mapped_file \<Rightarrow> bgr mat \<Rightarrow> u8 mat \<Rightarrow> image_segment list \<Rightarrow> image_segment list \<Rightarrow> state" where
  "par_diff_state active argv ar nf nc ng mo oc og olds news =
     (after_load nf nc ng mo oc og (par_parsed_state active argv ar))\<lparr>old_segments := olds, new_segments := news\<rparr>"

lemma sure_limit:
  assumes "thread_count (arg t) \<noteq> 0"
  shows "sure (just limit_threads) (\<lambda>s. s = t) (\<lambda>_ u. u = t)"
proof -
  have "runs limit_threads t (Ret ()) t"
    unfolding limit_threads_def by (rule runs_bnd [OF runs_ask]) (use assms in \<open>simp_all add: runs_ret\<close>)
  moreover have "keeps (timers_from 0) limit_threads"
    unfolding limit_threads_def by (intro keeps_intros)
  ultimately show ?thesis by (rule sure_weaken [OF sure_runs]) simp
qed

lemma sure_stages:
  assumes good: "good_run cv os argv ar nf nc ng mo oc og olds news" and active: "0 < active"
    and diff: "sure (par_create_diff_image cv os) (\<lambda>s. s = par_diff_state active argv ar nf nc ng mo oc og olds news) U"
  shows "sure (par_stages cv os active argv) (\<lambda>s. s = initial_state) U"
  unfolding par_stages_def
proof (rule sure_seq, rule_tac [2] sure_seq, rule_tac [3] sure_seq, rule_tac [4] sure_seq, rule_tac [5] sure_then)
  let ?s = "initial_state\<lparr>cmdline_args := argv\<rparr>" and ?p = "par_parsed_state active argv ar"
  let ?u = "after_load nf nc ng mo oc og ?p"
  show "sure (just (upd (\<lambda>s. s\<lparr>cmdline_args := cmdline_args s @ argv\<rparr>))) (\<lambda>s. s = initial_state) (\<lambda>_ u. u = ?s)"
    by (rule sure_weaken [OF sure_runs [OF runs_upd quiet_upd]]) (simp_all add: initial_state_def)
  show "sure (just (parse_args (Parallel active) os)) (\<lambda>s. s = ?s) (\<lambda>_ u. u = ?p)"
    by (rule sure_weaken [OF sure_runs [OF runs_parse forest_parse_args]])
      (use good in \<open>simp_all add: good_run_def loads_def par_parsed_state_def, simp_all add: initial_state_def\<close>)
  have "get_default_thread_count (Parallel active) > 0" using active by (simp add: get_default_thread_count_def)
  then show "sure (just limit_threads) (\<lambda>s. s = ?p) (\<lambda>_ u. u = ?p)"
    by (intro sure_limit) (simp add: par_parsed_state_def fill_defaults_simps)
  show "sure (par_load_image cv os) (\<lambda>s. s = ?p) (\<lambda>_ u. u = ?u)"
    by (rule sure_load) (use good in \<open>simp_all add: good_run_def par_parsed_state_def fill_defaults_simps initial_state_def\<close>)
  from good obtain n1 n2 d where "histogram cv oc n1" "histogram cv nc n2" "cv_compareHist cv n1 n2 1 = Inr d"
    and d: "\<not> histograms_same d" by (auto simp: good_run_def)
  with good have "runs (check_histogram_differential cv os) ?u (Ret (Inl (histograms_same d))) ?u"
    by (intro runs_check [of _ _ n1 n2]) (simp_all add: good_run_def after_load_def)
  from sure_runs [OF this forest_check] d
  show "sure (just (check_histogram_differential cv os)) (\<lambda>s. s = ?u) (\<lambda>y v. y = Inl False \<and> v = ?u)" by simp
  have "sure (par_detect_segments cv os) (\<lambda>s. s = ?u) (\<lambda>_ u. u = par_diff_state active argv ar nf nc ng mo oc og olds news)"
    unfolding par_diff_state_def
    by (rule sure_detect)
      (use good in \<open>simp_all add: good_run_def after_load_def par_parsed_state_def fill_defaults_simps initial_state_def\<close>)
  from sure_seq [OF this diff]
  show "sure (case Inl False of Inr err \<Rightarrow> just (fatal err)
      | Inl same \<Rightarrow> if same then just (fatal ''two images are same'')
          else nbnd (par_detect_segments cv os) (\<lambda>_. par_create_diff_image cv os)) (\<lambda>s. s = ?u) U" by simp
qed

lemma par_main_sure:
  assumes "sure (par_stages cv os active argv) (\<lambda>s. s = initial_state) U"
  shows "\<exists>r. par_main cv os active argv initial_state r"
    and "par_main cv os active argv initial_state r \<Longrightarrow> \<exists>x u. U x u \<and> fst r = Ret 0 \<and>
      w_written (snd r) = w_written u \<and> resources (snd r) = resources (context_dtor u)"
proof -
  have "near initial_state initial_state" by (simp add: near_def) (simp add: initial_state_def)
  then have start: "near initial_state (snd (timer_new os ''all'' None initial_state))" by (rule near_new)
  obtain i t0 where t0: "timer_start os ''all'' None initial_state = (Ret i, t0)" and near: "near initial_state t0"
    using start by (cases "timer_new os ''all'' None initial_state") (simp add: timer_start_def)
  have main: "par_main cv os active argv initial_state r \<longleftrightarrow> nbnd (par_stages cv os active argv) (\<lambda>_. just (closing os i)) t0 r" for r
    by (simp add: par_main_closing nbnd_def [of "just (timer_start os ''all'' None)"] just_def [of "timer_start os ''all'' None"] t0)
  obtain q where q: "par_stages cv os active argv t0 q" using sure_exists [OF assms refl near] by blast
  obtain x u where "fst q = Ret x" by (rule sure_result [OF assms refl near q])
  with q have "nbnd (par_stages cv os active argv) (\<lambda>_. just (closing os i)) t0 (closing os i (snd q))"
    unfolding nbnd_def just_def by (metis prod.collapse)
  with main show "\<exists>r. par_main cv os active argv initial_state r" by blast
  assume "par_main cv os active argv initial_state r"
  then consider x t where "par_stages cv os active argv t0 (Ret x, t)" "r = closing os i t"
    | h t where "par_stages cv os active argv t0 (Halt h, t)" by (auto simp: main nbnd_def just_def)
  then show "\<exists>x u. U x u \<and> fst r = Ret 0 \<and> w_written (snd r) = w_written u \<and> resources (snd r) = resources (context_dtor u)"
  proof cases
    case 1
    obtain u where u: "U x u" "near u t" using sure_result [OF assms refl near 1(1)] by auto
    then have "wf_timers (timer_records t)" "w_written t = w_written u" "resources (context_dtor t) = resources (context_dtor u)"
      by (auto simp: near_def same_but_timers_def resources_def context_dtor_def delete_file_effect)
    with closing_result [of t os i] u(1) 1(2) show ?thesis by metis
  next
    case 2
    from sure_result [OF assms refl near this] show ?thesis by auto
  qed
qed

text \<open>
  A run of the parallel build that gets through: the conditions of a good run, two images of the same
  size, and matching and writing that do not throw.
\<close>

definition par_good_run :: "opencv \<Rightarrow> os \<Rightarrow> string list \<Rightarrow> options \<Rightarrow> mapped_file \<Rightarrow> bgr mat \<Rightarrow> u8 mat \<Rightarrow>
    mapped_file \<Rightarrow> bgr mat \<Rightarrow> u8 mat \<Rightarrow> image_segment list \<Rightarrow> image_segment list \<Rightarrow> bool" where
  "par_good_run cv os argv ar nf nc ng mo oc og olds news \<longleftrightarrow>
     good_run cv os argv ar nf nc ng mo oc og olds news \<and> same_size nc oc \<and>
     (\<forall>seg \<in> set news. target cv (run_view ar og oc nc) seg \<noteq> None) \<and>
     (\<forall>seg1 \<in> set olds. \<forall>seg2 \<in> set news. \<exists>b.
        fst (descriptor_match cv (cross_check ar) (seg_descriptor seg1) (seg_descriptor seg2) ()) = Ret b) \<and>
     (\<forall>name m. \<exists>b. cv_imwrite cv name m = Inr b)"

definition opencv_laws :: "opencv \<Rightarrow> bool" where
  "opencv_laws cv \<longleftrightarrow> drawing_laws cv \<and> rect_law cv \<and> template_law cv \<and> size_laws cv \<and> roi_law cv \<and> gray_law cv"

lemma good_run_par_ok:
  assumes laws: "opencv_laws cv" and good: "par_good_run cv os argv ar nf nc ng mo oc og olds news"
    and base: "same_size base og"
  shows "par_ok cv (run_view ar og oc nc) olds news base"
proof -
  have g: "good_run cv os argv ar nf nc ng mo oc og olds news" using good by (simp add: par_good_run_def)
  have "placed ng seg" if "seg \<in> set news" for seg
    using laws g that by (intro detected_placed) (auto simp: opencv_laws_def good_run_def)
  moreover have "placed og seg" if "seg \<in> set olds" for seg
    using laws g that by (intro detected_placed) (auto simp: opencv_laws_def good_run_def)
  moreover have "same_size ng nc" "same_size og oc"
    using g laws by (auto simp: good_run_def loads_def gray_law_def opencv_laws_def)
  ultimately show ?thesis
    using laws good base placed_fits [of ng _ nc oc og ar]
    by (simp add: par_ok_def opencv_laws_def par_good_run_def run_view_def placed_def)
qed

text \<open>The difference image as it should be: red where a segment that is matched marks, else the old image in gray.\<close>

definition exact_image :: "opencv \<Rightarrow> diff_view \<Rightarrow> image_segment list \<Rightarrow> image_segment list \<Rightarrow> bgr mat \<Rightarrow> bool" where
  "exact_image cv v olds news m \<longleftrightarrow> same_size m (v_old_gray v) \<and> (\<forall>y x. inside m y x \<longrightarrow> pix m y x =
     (if \<exists>seg \<in> set news. hit cv v olds seg \<and> marks cv v seg y x then (0, 0, 255)
      else let g = pix (v_old_gray v) y x in (g, g, g)))"

lemma par_diff_state_fields [simp]:
  "arg (par_diff_state active argv ar nf nc ng mo oc og olds news) = fill_defaults (Parallel active) ar"
  "old_gray_mat (par_diff_state active argv ar nf nc ng mo oc og olds news) = og"
  "old_segments (par_diff_state active argv ar nf nc ng mo oc og olds news) = olds"
  "new_segments (par_diff_state active argv ar nf nc ng mo oc og olds news) = news"
  "old_file (par_diff_state active argv ar nf nc ng mo oc og olds news) = Some mo"
  "new_file (par_diff_state active argv ar nf nc ng mo oc og olds news) = Some nf"
  "w_written (par_diff_state active argv ar nf nc ng mo oc og olds news) = []"
  "resources (par_diff_state active argv ar nf nc ng mo oc og olds news) = (0, size_maps nf + size_maps mo, Some nf, Some mo)"
  "diff_view_of (par_diff_state active argv ar nf nc ng mo oc og olds news) = run_view ar og oc nc"
  by (simp_all add: par_diff_state_def after_load_def par_parsed_state_def initial_state_def resources_def
      diff_view_of_def run_view_def fill_defaults_def Let_def)

lemma change_option [simp]: "create_change_image (fill_defaults b ar) = create_change_image ar"
  by (simp add: fill_defaults_def Let_def)

lemma par_run_result:
  fixes cv os active argv ar nf nc ng mo oc og olds news
  defines "v \<equiv> run_view ar og oc nc" and "t \<equiv> par_diff_state active argv ar nf nc ng mo oc og olds news"
  assumes laws: "opencv_laws cv" and good: "par_good_run cv os argv ar nf nc ng mo oc og olds news"
    and active: "0 < active" and change: "create_change_image ar \<longrightarrow> stroke_law cv stroke"
  shows "\<exists>r. par_main cv os active argv initial_state r"
    and "par_main cv os active argv initial_state r \<Longrightarrow> \<exists>m flags u. fst r = Ret 0 \<and> exact_image cv v olds news m \<and>
      sound_flags cv v olds news flags \<and> images_written cv stroke oc nc m (t\<lparr>old_segments := with_flags flags olds, new_segments := hits cv v olds news\<rparr>) u \<and>
      w_written (snd r) = w_written u \<and> resources (snd r) = resources (context_dtor u)"
proof -
  have g: "good_run cv os argv ar nf nc ng mo oc og olds news" using good by (simp add: par_good_run_def)
  have "same_size og og" by (simp add: same_size_def)
  then have "\<exists>m. cv_merge3 cv og og og = Inr m \<and> same_size m og \<and>
      (\<forall>y x. inside m y x \<longrightarrow> pix m y x = (pix og y x, pix og y x, pix og y x))"
    using laws unfolding opencv_laws_def drawing_laws_def by blast
  then obtain base where base: "cv_merge3 cv og og og = Inr base" "same_size base og"
    "\<And>y x. inside base y x \<Longrightarrow> pix base y x = (pix og y x, pix og y x, pix og y x)" by blast
  let ?P = "\<lambda>y x. \<exists>seg \<in> set news. hit cv v olds seg \<and> marks cv v seg y x"
  have "sure (par_create_diff_image cv os) (\<lambda>s. s = t) (\<lambda>_ u. \<exists>m flags. painted base ?P m \<and>
      sound_flags cv v olds news flags \<and> images_written cv stroke oc nc m (t\<lparr>old_segments := with_flags flags olds, new_segments := hits cv v olds news\<rparr>) u)"
    using sure_create [of cv t base stroke oc nc os] good_run_par_ok [OF laws good base(2)] base(1) good change g
    by (simp add: t_def v_def par_good_run_def changes_ok_def good_run_def loads_def)
  note main = par_main_sure [OF sure_stages [OF g active this [unfolded t_def]]]
  show "\<exists>r. par_main cv os active argv initial_state r" by (rule main(1))
  assume "par_main cv os active argv initial_state r"
  then obtain m flags u where u: "painted base ?P m" "fst r = Ret 0" "sound_flags cv v olds news flags"
    "images_written cv stroke oc nc m (t\<lparr>old_segments := with_flags flags olds, new_segments := hits cv v olds news\<rparr>) u"
    "w_written (snd r) = w_written u" "resources (snd r) = resources (context_dtor u)"
    using main(2) unfolding t_def by blast
  have "exact_image cv v olds news m"
    using u(1) base(2,3) by (auto simp: exact_image_def painted_def v_def run_view_def same_size_def inside_def Let_def)
  with u show "\<exists>m flags u. fst r = Ret 0 \<and> exact_image cv v olds news m \<and>
      sound_flags cv v olds news flags \<and> images_written cv stroke oc nc m (t\<lparr>old_segments := with_flags flags olds, new_segments := hits cv v olds news\<rparr>) u \<and>
      w_written (snd r) = w_written u \<and> resources (snd r) = resources (context_dtor u)" by blast
qed

lemma images_written_resources: "images_written cv stroke oc nc m t u \<Longrightarrow> resources u = resources t"
  by (auto simp: images_written_def Let_def split: if_splits)

lemma mapped_maps: "sizes_ok os \<Longrightarrow> mapped os path = Some mf \<Longrightarrow> maps_of (Some mf) = size_maps mf"
  by (force simp: mapped_def sizes_ok_def maps_of_def size_maps_def Let_def split: sum.splits if_splits)

text \<open>
  C2. The parallel build on two images of the same size, without the option for the change images:
  whatever the schedule of its tasks, a run ends, with status 0 and everything given back, and
  writes exactly one image, the difference image, which is exact pixel by pixel. The segments
  need not all match, which is where the serial build writes nothing.
\<close>

theorem parallel_run_writes_exact_difference:
  fixes cv :: opencv and os :: os and ar :: options and og :: "u8 mat" and oc nc :: "bgr mat"
  assumes "opencv_laws cv" and "sizes_ok os" and "par_good_run cv os argv ar nf nc ng mo oc og olds news"
    and "0 < active" and "\<not> create_change_image ar"
  shows "(\<exists>r. par_main cv os active argv initial_state r) \<and>
    (\<forall>r. par_main cv os active argv initial_state r \<longrightarrow> fst r = Ret 0 \<and>
       (\<exists>m. w_written (snd r) = [(output_name (fill_defaults (Parallel active) ar) @ ''_diff.png'', m)] \<and>
          exact_image cv (run_view ar og oc nc) olds news m) \<and>
       w_fds (snd r) = 0 \<and> w_maps (snd r) = 0 \<and> new_file (snd r) = None \<and> old_file (snd r) = None)"
proof (intro conjI allI impI)
  have change: "create_change_image ar \<longrightarrow> stroke_law cv (\<lambda>_ _ _ _. False)" using assms(5) by simp
  note run = par_run_result [OF assms(1,3,4) change]
  show "\<exists>r. par_main cv os active argv initial_state r" by (rule run(1))
  fix r assume "par_main cv os active argv initial_state r"
  from run(2) [OF this] obtain m flags u where r: "fst r = Ret 0" "exact_image cv (run_view ar og oc nc) olds news m"
    "images_written cv (\<lambda>_ _ _ _. False) oc nc m ((par_diff_state active argv ar nf nc ng mo oc og olds news)
      \<lparr>old_segments := with_flags flags olds, new_segments := hits cv (run_view ar og oc nc) olds news\<rparr>) u"
    "w_written (snd r) = w_written u" "resources (snd r) = resources (context_dtor u)" by blast
  then show "fst r = Ret 0" "\<exists>m. w_written (snd r) = [(output_name (fill_defaults (Parallel active) ar) @ ''_diff.png'', m)] \<and>
      exact_image cv (run_view ar og oc nc) olds news m"
    using assms(5) by (auto simp: images_written_def Let_def)
  have "resources u = (0, size_maps nf + size_maps mo, Some nf, Some mo)"
    using images_written_resources [OF r(3)] par_diff_state_fields(8) [of active argv ar nf nc ng mo oc og olds news]
    by (simp add: resources_def)
  moreover have "maps_of (Some nf) = size_maps nf" "maps_of (Some mo) = size_maps mo"
    using assms(2,3) by (auto simp: par_good_run_def good_run_def loads_def intro: mapped_maps)
  ultimately show "w_fds (snd r) = 0" "w_maps (snd r) = 0" "new_file (snd r) = None" "old_file (snd r) = None"
    using r(5) by (simp_all add: resources_def context_dtor_def delete_file_effect)
qed

lemma green_pixels:
  "same_size (green cv stroke segs image) image"
  "pix (green cv stroke segs image) y x =
     (if outlined stroke segs y x then scalar_bgr (cv_RGB cv 0 255 0) else pix image y x)" for image
  by (simp_all add: green_def tinted_def same_size_def)

lemma outlined_hits:
  "outlined stroke (hits cv v olds news) y x \<longleftrightarrow> (\<exists>seg \<in> set news. \<not> hit cv v olds seg \<and> stroke (seg_area seg) 2 y x)"
  by (auto simp: outlined_def hits_def)

lemma outlined_flags:
  "outlined stroke (with_flags flags segs) y x \<longleftrightarrow> (\<exists>i < length segs. \<not> flags i \<and> stroke (seg_area (segs ! i)) 2 y x)"
  by (auto simp: outlined_def with_flags_def)

text \<open>
  C20. The parallel build with the option for the change images: whatever the schedule, a run ends
  with status 0 and writes three images, the difference image first and the other two in some
  order. The image of the added parts outlines exactly the segments of the new image that no segment
  of the old one matches. The image of the deleted parts outlines segments of the old image, among
  them every one that matches nothing.
\<close>

theorem parallel_run_writes_change_images:
  fixes cv :: opencv and os :: os and active :: nat and ar :: options and og :: "u8 mat" and oc nc :: "bgr mat"
  defines "v \<equiv> run_view ar og oc nc" and "out \<equiv> output_name (fill_defaults (Parallel active) ar)"
    and "line \<equiv> scalar_bgr (cv_RGB cv 0 255 0)"
  assumes "opencv_laws cv" and "stroke_law cv stroke" and "par_good_run cv os argv ar nf nc ng mo oc og olds news"
    and "0 < active" and "create_change_image ar"
  shows "(\<exists>r. par_main cv os active argv initial_state r) \<and>
    (\<forall>r. par_main cv os active argv initial_state r \<longrightarrow> fst r = Ret 0 \<and> (\<exists>m d a.
       (w_written (snd r) = [(out @ ''_diff.png'', m), (out @ ''_delete.png'', d), (out @ ''_add.png'', a)] \<or>
        w_written (snd r) = [(out @ ''_diff.png'', m), (out @ ''_add.png'', a), (out @ ''_delete.png'', d)]) \<and>
       exact_image cv v olds news m \<and> same_size a nc \<and> same_size d oc \<and>
       (\<forall>y x. pix a y x =
          (if \<exists>seg \<in> set news. \<not> hit cv v olds seg \<and> stroke (seg_area seg) 2 y x then line else pix nc y x)) \<and>
       (\<exists>gone \<subseteq> set olds. (\<forall>seg \<in> set olds. (\<forall>seg2 \<in> set news. \<not> matches cv v seg seg2) \<longrightarrow> seg \<in> gone) \<and>
          (\<forall>y x. pix d y x = (if \<exists>seg \<in> gone. stroke (seg_area seg) 2 y x then line else pix oc y x)))))"
proof (intro conjI allI impI)
  have change: "create_change_image ar \<longrightarrow> stroke_law cv stroke" using assms(5) by simp
  note run = par_run_result [OF assms(4,6,7) change]
  show "\<exists>r. par_main cv os active argv initial_state r" by (rule run(1))
  fix r assume "par_main cv os active argv initial_state r"
  from run(2) [OF this] obtain m flags u where r: "fst r = Ret 0" "exact_image cv v olds news m"
    "sound_flags cv v olds news flags"
    "images_written cv stroke oc nc m ((par_diff_state active argv ar nf nc ng mo oc og olds news)
      \<lparr>old_segments := with_flags flags olds, new_segments := hits cv v olds news\<rparr>) u"
    "w_written (snd r) = w_written u" unfolding v_def by blast
  let ?d = "green cv stroke (with_flags flags olds) oc" and ?a = "green cv stroke (hits cv v olds news) nc"
  let ?gone = "{olds ! i |i. i < length olds \<and> \<not> flags i}"
  have w: "w_written (snd r) = [(out @ ''_diff.png'', m), (out @ ''_delete.png'', ?d), (out @ ''_add.png'', ?a)] \<or>
      w_written (snd r) = [(out @ ''_diff.png'', m), (out @ ''_add.png'', ?a), (out @ ''_delete.png'', ?d)]"
    using r(4,5) assms(8) by (auto simp: images_written_def Let_def out_def)
  have gone: "?gone \<subseteq> set olds" "\<forall>seg \<in> set olds. (\<forall>seg2 \<in> set news. \<not> matches cv v seg seg2) \<longrightarrow> seg \<in> ?gone"
    using r(3) by (auto simp: sound_flags_def in_set_conv_nth) blast
  have d: "\<forall>y x. pix ?d y x = (if \<exists>seg \<in> ?gone. stroke (seg_area seg) 2 y x then line else pix oc y x)"
    by (auto simp: green_pixels outlined_flags line_def)
  have a: "\<forall>y x. pix ?a y x = (if \<exists>seg \<in> set news. \<not> hit cv v olds seg \<and> stroke (seg_area seg) 2 y x then line else pix nc y x)"
    by (auto simp: green_pixels outlined_hits line_def)
  show "fst r = Ret 0" by (rule r(1))
  show "\<exists>m d a. (w_written (snd r) = [(out @ ''_diff.png'', m), (out @ ''_delete.png'', d), (out @ ''_add.png'', a)] \<or>
        w_written (snd r) = [(out @ ''_diff.png'', m), (out @ ''_add.png'', a), (out @ ''_delete.png'', d)]) \<and>
       exact_image cv v olds news m \<and> same_size a nc \<and> same_size d oc \<and>
       (\<forall>y x. pix a y x =
          (if \<exists>seg \<in> set news. \<not> hit cv v olds seg \<and> stroke (seg_area seg) 2 y x then line else pix nc y x)) \<and>
       (\<exists>gone \<subseteq> set olds. (\<forall>seg \<in> set olds. (\<forall>seg2 \<in> set news. \<not> matches cv v seg seg2) \<longrightarrow> seg \<in> gone) \<and>
          (\<forall>y x. pix d y x = (if \<exists>seg \<in> gone. stroke (seg_area seg) 2 y x then line else pix oc y x)))"
    by (intro exI [of _ m] exI [of _ ?d] exI [of _ ?a] conjI w r(2) green_pixels(1) a exI [of _ ?gone] gone d)
qed

section \<open>Examples\<close>

lemma opencv_laws_sample: "opencv_laws sample_cv"
  by (simp add: opencv_laws_def drawing_laws_sample rect_law_sample template_law_sample laws_sample gray_law_sample)

lemma sizes_ok_sample: "sizes_ok sample_os"
  by (auto simp: sizes_ok_def sample_os_def)

lemma sample_par_good_run:
  assumes "parse_loop default_options (tl argv) = (sample_options\<lparr>create_change_image := b\<rparr>, None)"
  shows "par_good_run sample_cv sample_os argv (sample_options\<lparr>create_change_image := b\<rparr>) (sample_file ''a.png'')
     (mat_const 2 2 (7, 7, 7)) (mat_const 2 2 7) (sample_file ''b.png'') (mat_const 2 2 (7, 7, 7)) (mat_const 2 2 7)
     [sample_segment] [sample_segment]"
proof -
  have "good_run sample_cv sample_os argv (sample_options\<lparr>create_change_image := b\<rparr>) (sample_file ''a.png'')
     (mat_const 2 2 (7, 7, 7)) (mat_const 2 2 7) (sample_file ''b.png'') (mat_const 2 2 (7, 7, 7)) (mat_const 2 2 7)
     [sample_segment] [sample_segment]"
    using sample_good_run assms by (simp add: good_run_def fill_defaults_simps sample_detected)
  moreover have "\<exists>b. fst (descriptor_match sample_cv c (seg_descriptor sample_segment) (seg_descriptor sample_segment) ()) = Ret b" for c
    using sample_matches [of "\<lparr>v_old_gray = undefined, v_old_color = undefined, v_new_color = undefined, v_cross = c\<rparr>"]
    unfolding matches_def by auto
  ultimately show ?thesis by (simp add: par_good_run_def same_size_def paired_target sample_imwrite)
qed

lemma sample_no_change: "sample_options\<lparr>create_change_image := False\<rparr> = sample_options"
  by (simp add: sample_options_def default_options_def)

theorem parallel_run_writes_exact_difference_witness:
  "\<exists>r m. par_main sample_cv sample_os 4 sample_args initial_state r \<and> fst r = Ret 0 \<and>
     w_written (snd r) = [(''image_difference_diff.png'', m)] \<and> w_maps (snd r) = 0"
proof -
  have "\<not> create_change_image sample_options" "output_name sample_options = []"
    by (simp_all add: sample_options_def default_options_def)
  then show ?thesis
    using parallel_run_writes_exact_difference [OF opencv_laws_sample sizes_ok_sample
        sample_par_good_run [where b = False, unfolded sample_no_change, OF sample_options_parse], of 4]
    by (simp add: fill_defaults_simps) blast
qed

theorem parallel_run_writes_change_images_witness:
  "\<exists>r m d a. par_main sample_cv sample_os 4 (sample_args @ [''-create_change_image'']) initial_state r \<and> fst r = Ret 0 \<and>
     set (w_written (snd r)) = {(''image_difference_diff.png'', m), (''image_difference_delete.png'', d),
       (''image_difference_add.png'', a)} \<and> pix a 0 0 = (7, 7, 7)"
proof -
  let ?argv = "sample_args @ [''-create_change_image'']" and ?ar = "sample_options\<lparr>create_change_image := True\<rparr>"
  let ?m = "mat_const 2 2 (7, 7, 7)" and ?g = "mat_const 2 2 7"
  have "parse_loop default_options (tl ?argv) =
      (default_options\<lparr>arg_new_file := ''a.png'', arg_old_file := ''b.png'', bin_threshold := 0, create_change_image := True\<rparr>, None)"
    by code_simp
  then have "parse_loop default_options (tl ?argv) = (?ar, None)" by (simp add: sample_options_def)
  note run = parallel_run_writes_change_images [OF opencv_laws_sample stroke_law_sample sample_par_good_run [OF this], of 4]
  have "0 < (4 :: nat)" "create_change_image ?ar" by simp_all
  note run = run [OF this]
  obtain r where r: "par_main sample_cv sample_os 4 ?argv initial_state r" using conjunct1 [OF run] by (elim exE)
  note run = conjunct2 [OF run, THEN spec, of r, THEN mp, OF r]
  let ?out = "output_name (fill_defaults (Parallel 4) ?ar)"
  from run obtain m d a where
    w: "w_written (snd r) = [(?out @ ''_diff.png'', m), (?out @ ''_delete.png'', d), (?out @ ''_add.png'', a)] \<or>
        w_written (snd r) = [(?out @ ''_diff.png'', m), (?out @ ''_add.png'', a), (?out @ ''_delete.png'', d)]"
    and a: "\<forall>y x. pix a y x = (if \<exists>seg \<in> set [sample_segment]. \<not> hit sample_cv (run_view ?ar ?g ?m ?m) [sample_segment] seg \<and>
      on_border (seg_area seg) y x then scalar_bgr (cv_RGB sample_cv 0 255 0) else pix ?m y x)"
    by (elim exE conjE)
  have "hit sample_cv (run_view ?ar ?g ?m ?m) [sample_segment] sample_segment"
    by (simp add: hit_def sample_usable sample_matches)
  with a have "pix a 0 0 = (7, 7, 7)" by (simp add: mat_const_def)
  moreover have "output_name ?ar = []" by (simp add: sample_options_def default_options_def)
  then have "?out = ''image_difference''" by (simp add: fill_defaults_simps)
  moreover have "set (w_written (snd r)) = {(?out @ ''_diff.png'', m), (?out @ ''_delete.png'', d), (?out @ ''_add.png'', a)}"
    using w by auto
  ultimately show ?thesis using r conjunct1 [OF run] by (intro exI [of _ r] exI [of _ m] exI [of _ d] exI [of _ a]) simp
qed

end
