(* ===== verification/Well_Formed.thy ===== *)
theory Well_Formed
  imports Whole_Run
begin

text \<open>
  The well-formed contexts: what holds of the members of \<open>Context\<close> between the stages, and that the
  stages of \<open>main\<close> lead from the context the program starts with to a well-formed one.
\<close>

section \<open>Well-formed contexts\<close>

definition options_ok :: "options \<Rightarrow> bool" where
  "options_ok ar \<longleftrightarrow> arg_new_file ar \<noteq> [] \<and> arg_old_file ar \<noteq> [] \<and> output_name ar \<noteq> [] \<and>
     bin_threshold ar \<noteq> 0 \<and> thread_count ar \<noteq> 0 \<and> numbers_ok ar"

definition image_ok :: "opencv \<Rightarrow> string \<Rightarrow> mapped_file option \<Rightarrow> bgr mat \<Rightarrow> u8 mat \<Rightarrow> bool" where
  "image_ok cv path file color gray \<longleftrightarrow> (\<exists>mf. file = Some mf \<and> mf_name mf = path \<and>
     decode_from_mapped_file cv mf IMREAD_COLOR = Inr color) \<and>
     cv_bgr2gray cv color = Inr gray \<and> same_size gray color \<and> \<not> mat_empty color"

definition wf_data :: "opencv \<Rightarrow> state \<Rightarrow> bool" where
  "wf_data cv s \<longleftrightarrow> resources_ok s \<and> options_ok (arg s) \<and>
     image_ok cv (arg_new_file (arg s)) (new_file s) (new_color_mat s) (new_gray_mat s) \<and>
     image_ok cv (arg_old_file (arg s)) (old_file s) (old_color_mat s) (old_gray_mat s) \<and>
     list_all (placed (new_gray_mat s)) (new_segments s) \<and> list_all (placed (old_gray_mat s)) (old_segments s)"

definition wf_context :: "opencv \<Rightarrow> state \<Rightarrow> bool" where
  "wf_context cv s \<longleftrightarrow> wf_timers (timer_records s) \<and> wf_data cv s"

interpretation data: timer_blind "wf_data cv" for cv
  by unfold_locales (simp add: wf_data_def resources_ok_def)

section \<open>What the stages leave alone\<close>

text \<open>The stages before the detection do not touch the segments.\<close>

lemma segments_parse: "keeps (segments_are olds news) (parse_args b os)"
  unfolding parse_args_def
  by (intro frozen.keeps_scope)
    (auto simp: keeps_def segments_are_def stop_parsing_def usage_def fatal_def sync_out_err_def halt_def Let_def
      split: prod.split option.split parse_stop.split)

lemma segments_must_open: "keeps (segments_are olds news) (must_open os path)"
  unfolding must_open_def mapped_file_open_def fatal_errno_def errno_string_def fatal_def sync_out_err_def
  by (auto simp: keeps_def segments_are_def bnd_def ret_def Let_def split: sum.splits)

lemma segments_load: "keeps (segments_are olds news) (load_image cv os)"
  unfolding load_image_def load_new_def load_old_def reset_new_file_def reset_old_file_def
  by (intro frozen.keeps_scope keeps_intros segments_must_open)
    (simp_all add: segments_are_def delete_file_def mapped_file_dtor_def split: option.split)

lemma segments_check: "keeps (segments_are olds news) (check_histogram_differential cv os)"
  unfolding check_histogram_differential_def preprocess_image_def
  by (intro frozen.keeps_scope keeps_intros)

text \<open>The other stages keep what is well formed.\<close>

lemma data_check: "keeps (wf_data cv) (check_histogram_differential cv os)"
  unfolding check_histogram_differential_def preprocess_image_def
  by (intro data.keeps_scope keeps_intros)

lemma data_diff: "keeps (wf_data cv) (create_diff_image cv os)"
  unfolding create_diff_image_def write_images_def
  by (intro data.keeps_scope keeps_intros keeps_imwrite keeps_change_image keeps_stateless)
    (simp_all add: wf_data_def resources_ok_def)

lemma data_load:
  assumes "load_image cv os s = (Ret (), t)" and "sizes_ok os" and "gray_law cv"
    and "resources_ok s" and "options_ok (arg s)" and "segments_are [] [] s"
  shows "wf_data cv t"
proof -
  have "segments_are [] [] t" using keepsD [OF segments_load assms(6), of cv os] assms(1) by simp
  with load_image_result [OF assms(1,2,4)] assms(3,5) show ?thesis
    by (auto simp: wf_data_def options_ok_def image_ok_def gray_law_def segments_are_def)
qed

lemma data_detect:
  assumes "detect_segments cv os s = (Ret (), t)" and "size_laws cv" and "rect_law cv" and "roi_law cv"
    and "wf_data cv s" and "segments_are [] [] s"
  shows "wf_data cv t"
proof -
  let ?old = "detected cv (bin_threshold (arg s)) (old_gray_mat s) (old_color_mat s)"
    and ?new = "detected cv (bin_threshold (arg s)) (new_gray_mat s) (new_color_mat s)"
  have none: "old_segments s = []" "new_segments s = []" using assms(6) by (simp_all add: segments_are_def)
  have "case then_outcome ?old (\<lambda>olds. then_outcome ?new (\<lambda>news. Ret (olds, news))) of
      Ret y \<Rightarrow> fst (detect_segments cv os s) = Ret () \<and> same_but_timers
        (case y of (olds, news) \<Rightarrow> s\<lparr>old_segments := olds, new_segments := news\<rparr>) (snd (detect_segments cv os s))
    | Halt h \<Rightarrow> fst (detect_segments cv os s) = Halt h"
    using detect_segments_ends [OF none, of cv os] unfolding ends_def by (elim allE [of _ s]) simp
  with assms(1) obtain olds news where olds: "?old = Ret olds" and news: "?new = Ret news"
    and t: "same_but_timers (s\<lparr>old_segments := olds, new_segments := news\<rparr>) t"
    by (cases ?old; cases ?new) auto
  have "list_all (placed (old_gray_mat s)) olds" "list_all (placed (new_gray_mat s)) news"
    using detected_placed [OF assms(2-4) olds] detected_placed [OF assms(2-4) news] by (auto simp: list_all_iff)
  then have "wf_data cv (s\<lparr>old_segments := olds, new_segments := news\<rparr>)"
    using assms(5) by (simp add: wf_data_def resources_ok_def)
  then show ?thesis using t by (auto simp: same_but_timers_def data.blind)
qed

section \<open>The stages\<close>

text \<open>
  C23. When the stages of \<open>main\<close> return, the context is well formed: the timer records are a forest,
  the options are complete and in range, both files are mapped and nothing else is, each colour
  image is the decoded file and not empty, its gray version has the same size, and every segment lies
  inside its image, holds the part of the image it covers, and is not marked as matched.
\<close>

theorem stages_context_well_formed:
  assumes "size_laws cv" and "rect_law cv" and "roi_law cv" and "gray_law cv" and "sizes_ok os"
    and "stages cv os argv (snd (timer_new os ''all'' None initial_state)) = (Ret (), t)"
  shows "wf_context cv t"
proof -
  define s where "s = snd (timer_new os ''all'' None initial_state)"
  define s0 where "s0 = s\<lparr>cmdline_args := cmdline_args s @ argv\<rparr>"
  from assms(6) obtain s1 s2 s3 s4 where s1: "parse_args Serial os s0 = (Ret (), s1)"
    and s2: "load_image cv os s1 = (Ret (), s2)" and s3: "check_histogram_differential cv os s2 = (Ret (Inl False), s3)"
    and s4: "detect_segments cv os s3 = (Ret (), s4)" and t: "create_diff_image cv os s4 = (Ret (), t)"
    unfolding s_def [symmetric] s0_def by (rule stages_Ret)
  have start: "segments_are [] [] s0" "holds (0, 0, None, None) s0" "numbers_ok (arg s0)"
    by (simp_all add: segments_are_def holds_def resources_def s0_def s_def)
      (simp_all add: initial_state_def numbers_ok_def int_range_def default_options_def)
  have segs1: "segments_are [] [] s1" using keepsD [OF segments_parse start(1), of Serial os] s1 by simp
  have "resources_ok s1" using keepsD [OF holds_parse start(2), of Serial os] s1
    by (simp add: holds_def resources_def resources_ok_def maps_of_def)
  moreover have "options_ok (arg s1)"
    using parse_args_options [OF s1 start(3)] by (simp add: options_ok_def get_default_thread_count_def)
  ultimately have data2: "wf_data cv s2" using data_load [OF s2 assms(5,4)] segs1 by blast
  have segs3: "segments_are [] [] s3"
    using keepsD [OF segments_check keepsD [OF segments_load segs1, of cv os], of cv os] s2 s3 by simp
  have "wf_data cv s3" using keepsD [OF data_check data2, of os] s3 by simp
  then have "wf_data cv s4" using data_detect [OF s4 assms(1-3) _ segs3] by blast
  then have "wf_data cv t" using keepsD [OF data_diff, of cv s4 os] t by simp
  moreover have "wf_timers (timer_records t)" using wf_after_stages [of cv os argv] assms(6) by simp
  ultimately show ?thesis by (simp add: wf_context_def)
qed

theorem stages_context_well_formed_witness:
  "\<exists>t. stages sample_cv sample_os sample_args (snd (timer_new sample_os ''all'' None initial_state)) = (Ret (), t) \<and>
     wf_context sample_cv t"
proof -
  obtain u where u: "main sample_cv sample_os sample_args initial_state = (Ret 0, u)" using sample_run by blast
  obtain t where t: "stages sample_cv sample_os sample_args (snd (timer_new sample_os ''all'' None initial_state)) = (Ret (), t)"
    by (rule main_Ret [OF u])
  have "sizes_ok sample_os" by (auto simp: sizes_ok_def sample_os_def)
  from stages_context_well_formed [OF laws_sample(1) rect_law_sample laws_sample(2) gray_law_sample this t] t
  show ?thesis by blast
qed

end
