(* ===== verification/Parallel_Safety.thy ===== *)
theory Parallel_Safety
  imports Parallel_Main Well_Formed
begin

text \<open>
  What holds of every run of the parallel build, also of those in which OpenCV throws or the files
  cannot be read: invariants of task trees and of programs with several results, and the theorems
  that follow for \<open>main\<close>.
\<close>

section \<open>Invariants of tasks\<close>

text \<open>\<open>steady I p\<close>: every step of the task, whatever the others have done, keeps \<open>I\<close>.\<close>

inductive steady :: "('s \<Rightarrow> bool) \<Rightarrow> 's task \<Rightarrow> bool" for I where
  steady_Done: "steady I Done"
| steady_Act: "(\<And>s r t. I s \<Longrightarrow> f s = (r, t) \<Longrightarrow> I t) \<Longrightarrow> (\<And>s q t. I s \<Longrightarrow> f s = (Ret q, t) \<Longrightarrow> steady I q) \<Longrightarrow>
    steady I (Act f)"
| steady_Fork: "(\<And>b p. (b, p) \<in> set ts \<Longrightarrow> steady I p) \<Longrightarrow> steady I c \<Longrightarrow> steady I (Fork ts exc c)"

inductive_cases steady_ActE: "steady I (Act f)"
inductive_cases steady_ForkE: "steady I (Fork ts exc c)"

lemma steady_member: "steady I (Fork ts exc c) \<Longrightarrow> k < length ts \<Longrightarrow> ts ! k = (b, p) \<Longrightarrow> steady I p"
  using nth_mem [of k ts] by (auto elim!: steady_ForkE)

lemma steady_update:
  assumes "steady I (Fork ts exc c)" and "steady I q"
  shows "steady I (Fork (ts[k := (b, q)]) exc' c)"
proof (rule steady_ForkE [OF assms(1)])
  assume ts: "\<And>b p. (b, p) \<in> set ts \<Longrightarrow> steady I p" and c: "steady I c"
  have "steady I p'" if "(b', p') \<in> set (ts[k := (b, q)])" for b' p'
    using that ts assms(2) set_update_subset_insert [of ts k "(b, q)"] by auto
  then show ?thesis using c by (rule steady_Fork)
qed

lemma steady_dropped: "dropped p q \<Longrightarrow> steady I p \<Longrightarrow> steady I q"
proof (induction rule: dropped.induct)
  case (deeper k ts b p q exc c)
  then show ?case using steady_member steady_update by blast
qed (rule steady_update [OF _ steady_Done])

lemma steady_step:
  "task_step p s r t \<Longrightarrow> steady I p \<Longrightarrow> I s \<Longrightarrow> I t \<and> (\<forall>q. r = Ret q \<longrightarrow> steady I q)"
proof (induction rule: task_step.induct)
  case (act f s r t)
  then show ?case by (auto elim: steady_ActE)
next
  case (child k ts b p s q t exc c)
  then show ?case using steady_member [OF child.prems(1) child.hyps(1,2)] steady_update by auto
next
  case (throw k ts b p s e t exc c)
  then show ?case using steady_member [OF throw.prems(1) throw.hyps(1,2)] steady_update [OF throw.prems(1) steady_Done] by auto
next
  case (die k ts b p s h t exc c)
  then show ?case using steady_member [OF die.prems(1) die.hyps(1,2)] by auto
next
  case (cancel k ts p e c s)
  then show ?case using steady_update [OF cancel.prems(1) steady_Done] by auto
next
  case (inside k ts b p q e c s)
  have "steady I q" by (rule steady_dropped [OF inside.hyps(3) steady_member [OF inside.prems(1) inside.hyps(1,2)]])
  from steady_update [OF inside.prems(1) this] inside show ?case by auto
qed (auto elim: steady_ForkE)

lemma steady_run: "run_task p s r \<Longrightarrow> steady I p \<Longrightarrow> I s \<Longrightarrow> I (snd r)"
  by (induction rule: run_task.induct) (auto dest: steady_step)

lemma steady_atom:
  assumes "keeps I p" and "\<And>x. steady I (k x)"
  shows "steady I (atom p k)"
  unfolding atom_def
  by (rule steady_Act) (use assms keepsD [OF assms(1)] in \<open>auto split: prod.splits outcome.splits\<close>, fastforce+)

lemma steady_fork: "(\<And>p. p \<in> set tasks \<Longrightarrow> steady I p) \<Longrightarrow> steady I c \<Longrightarrow> steady I (fork tasks c)"
  unfolding fork_def by (rule steady_Fork) auto

lemma steady_task_of: "(\<And>p. p \<in> set ps \<Longrightarrow> keeps I p) \<Longrightarrow> steady I (task_of ps)"
  by (induction ps) (auto intro: steady_Done steady_atom)

lemma steady_group:
  assumes "run_group tasks s r" and "\<And>ps p. ps \<in> set tasks \<Longrightarrow> p \<in> set ps \<Longrightarrow> keeps I p" and "I s"
  shows "I (snd r)"
  using assms by (auto simp: group_is_fork elim!: steady_run intro!: steady_fork steady_task_of steady_Done)

section \<open>Invariants of programs with several results\<close>

definition nkeeps :: "(state \<Rightarrow> bool) \<Rightarrow> 'a nact \<Rightarrow> bool" where
  "nkeeps I P \<longleftrightarrow> (\<forall>s r. I s \<longrightarrow> P s r \<longrightarrow> I (snd r))"

named_theorems nkeeps_intros \<open>rules for invariants of programs with several results\<close>

lemma nkeepsD: "nkeeps I P \<Longrightarrow> I s \<Longrightarrow> P s r \<Longrightarrow> I (snd r)"
  unfolding nkeeps_def by blast

lemma nkeeps_just [nkeeps_intros]: "keeps I p \<Longrightarrow> nkeeps I (just p)"
  by (auto simp: nkeeps_def just_def keeps_def)

lemma nkeeps_bnd [nkeeps_intros]: "nkeeps I P \<Longrightarrow> (\<And>x. nkeeps I (Q x)) \<Longrightarrow> nkeeps I (nbnd P Q)"
  unfolding nkeeps_def nbnd_def by (metis snd_conv)

lemma nkeeps_if [nkeeps_intros]: "nkeeps I P \<Longrightarrow> nkeeps I Q \<Longrightarrow> nkeeps I (if b then P else Q)"
  by simp

lemma nkeeps_prod [nkeeps_intros]: "(\<And>x y. nkeeps I (P x y)) \<Longrightarrow> nkeeps I (case z of (x, y) \<Rightarrow> P x y)"
  by (cases z) simp

lemma nkeeps_task: "steady I p \<Longrightarrow> nkeeps I (run_task p)"
  unfolding nkeeps_def by (intro allI impI) (rule steady_run)

lemma nbnd_RetE:
  assumes "nbnd P Q s (Ret y, t)"
  obtains x u where "P s (Ret x, u)" and "Q x u (Ret y, t)"
  using assms by (auto simp: nbnd_def)

lemma keeps_timer_start: "(\<And>s. I (snd (timer_new os name parent s)) \<longleftrightarrow> I s) \<Longrightarrow> keeps I (timer_start os name parent)"
  by (simp add: keeps_def timer_start_def case_prod_unfold Let_def)

context timer_blind
begin

lemma keeps_start: "keeps I (timer_start os name parent)"
  by (rule keeps_timer_start) (rule blind_new)

lemma keeps_stop: "keeps I (upd (timer_stop os k))"
  by (rule scopes.keeps_timer_stop)

lemma steady_timed:
  assumes "\<And>i k'. (\<And>x. steady I (k' x)) \<Longrightarrow> steady I (body i k')" and "\<And>x. steady I (k x)"
  shows "steady I (timed os name parent body k)"
  unfolding timed_def
  by (rule steady_atom [OF keeps_start], rule assms(1), rule steady_atom [OF scopes.keeps_timer_stop])
    (rule assms(2))

lemma nkeeps_timer:
  assumes "\<And>i. nkeeps I (body i)"
  shows "nkeeps I (nwith_timer os name parent body)"
  unfolding nwith_timer_def
  by (intro nkeeps_intros assms keeps_intros keeps_start scopes.keeps_timer_stop)

lemma steady_split:
  assumes "\<And>rects. steady I (k rects)"
  shows "steady I (split_segments_task cv os gray color th k)"
  unfolding split_segments_task_def
proof (rule steady_timed, rule steady_timed)
  fix t t_image and k' :: "rect list \<Rightarrow> state task"
  assume k': "\<And>x. steady I (k' x)"
  have "keeps I (label_image cv gray color th)"
    by (rule keeps_stateless) (simp add: label_image_stateless [of _ _ _ _ "_ :: state"])
  moreover have "steady I (case r of None \<Rightarrow> k' [] | Some markers \<Rightarrow> atom (upd (timer_stop os t_image)) (\<lambda>_.
      timed os ''grouping'' (Some t) (\<lambda>_ k. k (snd (group_pixels cv markers))) k'))" for r
    using k' by (cases r) (auto intro!: steady_atom [OF scopes.keeps_timer_stop] steady_timed)
  ultimately show "steady I (atom (label_image cv gray color th) (\<lambda>r. case r of None \<Rightarrow> k' []
      | Some markers \<Rightarrow> atom (upd (timer_stop os t_image)) (\<lambda>_.
          timed os ''grouping'' (Some t) (\<lambda>_ k. k (snd (group_pixels cv markers))) k')))"
    by (rule steady_atom)
qed (use assms in simp_all)

end

text \<open>
  An invariant that looks neither at the timers nor at the segments survives the detection and the
  loops over the segments.
\<close>

locale segments_blind = timer_blind I
  for I :: "state \<Rightarrow> bool" +
  assumes blind_old: "I (old_segments_update f s) \<longleftrightarrow> I s" and blind_segments: "I (new_segments_update f s) \<longleftrightarrow> I s"
begin

lemma steady_emplace:
  assumes "\<And>f s. I (upd_res f s) \<longleftrightarrow> I s" and "steady I k"
  shows "steady I (emplace_task cv gray upd_res rects k)"
proof (induction rects)
  case (Cons r rects)
  have "keeps I (emplace_segment cv gray upd_res r)"
    unfolding emplace_segment_def by (intro keeps_intros) (simp add: assms(1))
  then show ?case unfolding emplace_task.simps by (rule steady_atom) (rule Cons.IH)
qed (simp add: assms(2))

lemma steady_do_detect:
  assumes "\<And>f s. I (upd_res f s) \<longleftrightarrow> I s" and k: "\<And>x. steady I (k x)"
  shows "steady I (do_detect_task cv os t gray color res upd_res k)"
proof -
  have "keeps I (compute_descriptor cv img)" for img
    by (rule keeps_stateless) (simp add: compute_descriptor_stateless [of _ _ "_ :: state"])
  then have "keeps I (describe_segment cv res upd_res i)" for i
    unfolding describe_segment_def by (intro keeps_intros) (simp_all add: assms(1))
  then show ?thesis unfolding do_detect_task_def
    by (intro steady_timed steady_split steady_emplace steady_fork steady_atom assms(1) keeps_ask k)
      (auto intro: steady_atom steady_Done)
qed

lemma steady_detect: "steady I (detect_segments_task cv os)"
  unfolding detect_segments_task_def
  by (rule steady_timed)
    (auto intro!: steady_fork steady_atom keeps_ask steady_do_detect steady_Done simp: blind_old blind_segments)

lemma blind_marks: "I (with_marks p s) \<longleftrightarrow> I s"
proof -
  have "with_marks p s = new_segments_update (\<lambda>_. with_flags (p_new_matched p) (new_segments s))
      (old_segments_update (\<lambda>_. with_flags (p_old_matched p) (old_segments s)) s)"
    by (simp add: with_marks_def)
  then show ?thesis by (simp only: blind_old blind_segments)
qed

lemma nkeeps_match: "nkeeps I (par_match cv v olds news base)"
  by (auto simp: nkeeps_def par_match_def blind_marks)

end

section \<open>What the stages keep\<close>

lemma keeps_limit: "keeps I limit_threads"
  unfolding limit_threads_def by (intro keeps_intros)

lemma steady_change:
  assumes "\<And>s ws. I s \<Longrightarrow> I (s\<lparr>w_written := ws\<rparr>)"
  shows "steady I (change_task cv draw file segments suffix)"
proof -
  have "steady I (case f of
      None \<Rightarrow> atom (halt (Undefined ''dereference of an empty unique_ptr'') :: unit act) (\<lambda>_. Done)
    | Some mf \<Rightarrow> atom (call (decode_from_mapped_file cv mf IMREAD_COLOR)) (\<lambda>image.
        atom (\<lambda>s. (then_outcome (fst (draw segs image)) (\<lambda>_. Ret (snd (draw segs image))), s)) (\<lambda>image.
        atom (imwrite cv name image) (\<lambda>_. Done))))" for f segs name
    by (cases f) (auto intro!: steady_atom steady_Done keeps_intros keeps_imwrite assms simp: keeps_def [of _ "\<lambda>s. (_, s)"])
  then show ?thesis unfolding change_task_def by (auto intro!: steady_atom keeps_ask)
qed

lemma nkeeps_change:
  assumes "\<And>s ws. I s \<Longrightarrow> I (s\<lparr>w_written := ws\<rparr>)"
  shows "nkeeps I (par_change_images cv)"
proof -
  have "steady I (change_group cv draw1 draw2)" for draw1 draw2
    unfolding change_group_def by (rule steady_fork) (auto intro: steady_change assms steady_Done)
  note change = steady_run [OF _ this]
  show ?thesis unfolding nkeeps_def par_change_images_def by (intro allI impI, elim exE conjE) (rule change)
qed

context segments_blind
begin

lemma nkeeps_detect: "nkeeps I (par_detect_segments cv os)"
  unfolding par_detect_segments_def by (rule nkeeps_task) (rule steady_detect)

lemma nkeeps_create:
  assumes "\<And>s ws. I s \<Longrightarrow> I (s\<lparr>w_written := ws\<rparr>)"
  shows "nkeeps I (par_create_diff_image cv os)"
  unfolding par_create_diff_image_def par_write_images_def
  by (intro nkeeps_timer nkeeps_intros keeps_intros nkeeps_match keeps_imwrite nkeeps_change assms)

lemma keeps_check: "keeps I (check_histogram_differential cv os)"
  unfolding check_histogram_differential_def preprocess_image_def
  by (intro keeps_scope keeps_intros)

end

interpretation held_files: segments_blind "holds r" for r
  by unfold_locales (simp_all add: holds_def resources_def)

section \<open>Loading\<close>

text \<open>When the parallel \<open>load_image\<close> returns it has done exactly what the serial one does.\<close>

lemma par_load_serial: "par_load_image cv os s (Ret (), t) \<longleftrightarrow> load_image cv os s = (Ret (), t)"
proof -
  let ?p = "bnd (load_new cv os) (\<lambda>_. load_old cv os)"
  have group: "run_group (load_tasks cv os) u (Ret (), w) \<longleftrightarrow> just ?p u (Ret (), w)" for u w
    using loading.group_serial [of cv os u w] by (simp only: load_tasks_serial just_def)
  have "par_load_image cv os s (Ret (), t) \<longleftrightarrow> nwith_timer os ''load image'' None (\<lambda>_. just ?p) s (Ret (), t)"
    unfolding par_load_image_def nwith_timer_def nbnd_def by (simp add: group)
  then show ?thesis by (simp add: just_timer load_image_def just_def)
qed

section \<open>There is always a result\<close>

definition total :: "'a nact \<Rightarrow> bool" where
  "total P \<longleftrightarrow> (\<forall>s. \<exists>r. P s r)"

named_theorems total_intros \<open>rules for programs that always have a result\<close>

lemma total_just [total_intros]: "total (just p)"
  by (simp add: total_def just_def)

lemma total_bnd [total_intros]:
  assumes "total P" and "\<And>x. total (Q x)"
  shows "total (nbnd P Q)"
  unfolding total_def
proof
  fix s
  obtain r where "P s r" using assms(1) unfolding total_def by blast
  then obtain e t where e: "P s (e, t)" by (cases r) simp
  show "\<exists>r. nbnd P Q s r"
  proof (cases e)
    case (Ret x)
    obtain r where "Q x t r" using assms(2) unfolding total_def by blast
    with e Ret show ?thesis unfolding nbnd_def by blast
  next
    case (Halt h)
    with e show ?thesis unfolding nbnd_def by blast
  qed
qed

lemma total_timer [total_intros]: "(\<And>i. total (body i)) \<Longrightarrow> total (nwith_timer os name parent body)"
  unfolding nwith_timer_def by (intro total_intros)

lemma total_if [total_intros]: "total P \<Longrightarrow> total Q \<Longrightarrow> total (if b then P else Q)"
  by simp

lemma total_sum [total_intros]: "(\<And>x. total (P x)) \<Longrightarrow> (\<And>y. total (Q y)) \<Longrightarrow> total (case z of Inl x \<Rightarrow> P x | Inr y \<Rightarrow> Q y)"
  by (cases z) simp_all

lemma total_prod [total_intros]: "(\<And>x y. total (P x y)) \<Longrightarrow> total (case z of (x, y) \<Rightarrow> P x y)"
  by (cases z) simp

lemma total_group [total_intros]: "total (run_group tasks)"
  unfolding total_def by (rule allI) (rule group_has_result)

lemma total_task [total_intros]: "total (run_task p)"
  unfolding total_def by (rule allI) (rule task_has_result)

lemma loops_total: "\<exists>r. par_loops cv v olds news s r"
proof -
  obtain t where t: "(par_step cv v olds news)\<^sup>*\<^sup>* s t" "quiescent olds news t" using tasks.reaches_final by blast
  show ?thesis
  proof (cases "\<exists>i < length olds. \<exists>j < length news. \<exists>h. p_task t (i, j) = Failed h")
    case True
    then obtain i j h where "i < length olds" "j < length news" "p_task t (i, j) = Failed h" by blast
    with t show ?thesis by (cases h) (blast intro: par_loops.thrown par_loops.died)+
  next
    case False
    with t show ?thesis by (intro exI) (rule par_loops.ended, auto)
  qed
qed

lemma total_match [total_intros]: "total (par_match cv v olds news result)"
  unfolding total_def par_match_def using loops_total by (metis prod.collapse)

lemma total_change [total_intros]: "total (par_change_images cv)"
  unfolding total_def
proof
  fix s
  obtain draw where "draws cv draw" by (rule draws_exist)
  moreover obtain r where "run_task (change_group cv draw draw) s r" using task_has_result ..
  ultimately show "\<exists>r. par_change_images cv s r" unfolding par_change_images_def by blast
qed

lemma total_main: "total (par_main cv os active argv)"
  unfolding par_main_def par_stages_def par_load_image_def par_detect_segments_def par_create_diff_image_def
    par_write_images_def
  by (intro total_intros)

section \<open>Runs that return\<close>

lemma closing_return:
  assumes "closing os i t = (Ret status, u)"
  shows "status = 0" and "w_written u = w_written t" and "resources u = resources (context_dtor t)"
proof -
  let ?t = "timer_stop os i t"
  from assms obtain w where w: "(if perf (arg t) then print_timer_records os else ret ()) ?t = (Ret (), w)"
    and u: "u = context_dtor (timer_stop os i w)" and status: "status = 0"
    unfolding closing_def by (auto elim!: bnd_RetE simp: upd_def ret_def)
  obtain c r out where "w = ?t\<lparr>w_clock := c, timer_records := r, w_out := out\<rparr>"
  proof (cases "perf (arg t)")
    case True
    with w that show thesis by (auto intro: report_frame [of os ?t])
  next
    case False
    with w that [where c = "w_clock ?t" and r = "timer_records ?t" and out = "w_out ?t"] show thesis
      by (simp add: ret_def)
  qed
  with u status show "status = 0" "w_written u = w_written t" "resources u = resources (context_dtor t)"
    by (simp_all add: context_dtor_written) (simp add: resources_def context_dtor_def delete_file_effect)
qed

lemma par_stages_Ret:
  assumes "par_stages cv os active argv s (Ret (), t)"
  obtains s1 s2 s3 s4 where "parse_args (Parallel active) os (s\<lparr>cmdline_args := cmdline_args s @ argv\<rparr>) = (Ret (), s1)"
    and "load_image cv os s1 = (Ret (), s2)" and "check_histogram_differential cv os s2 = (Ret (Inl False), s3)"
    and "par_detect_segments cv os s3 (Ret (), s4)" and "par_create_diff_image cv os s4 (Ret (), t)"
  using assms unfolding par_stages_def
  by (auto elim!: nbnd_RetE bnd_RetE simp: just_def par_load_serial limit_threads_def fatal_def halt_def
      split: sum.splits if_splits)

text \<open>
  C11. Whatever the system and OpenCV do, a run of the parallel build has a result; and when \<open>main\<close>
  returns, whatever the schedule was, the status is 0, no file descriptor is open and both files are
  unmapped.
\<close>

theorem parallel_main_releases_everything:
  assumes "sizes_ok os"
  shows "(\<exists>r. par_main cv os active argv initial_state r) \<and>
    (\<forall>status t. par_main cv os active argv initial_state (Ret status, t) \<longrightarrow>
       status = 0 \<and> w_fds t = 0 \<and> w_maps t = 0 \<and> new_file t = None \<and> old_file t = None)"
proof (intro conjI allI impI)
  show "\<exists>r. par_main cv os active argv initial_state r" using total_main unfolding total_def by blast
  fix status t
  assume "par_main cv os active argv initial_state (Ret status, t)"
  then obtain i s u where s: "timer_start os ''all'' None initial_state = (Ret i, s)"
    and u: "par_stages cv os active argv s (Ret (), u)" and t: "closing os i u = (Ret status, t)"
    unfolding par_main_closing by (auto elim!: nbnd_RetE simp: just_def)
  from u obtain s1 s2 s3 s4 where
    s1: "parse_args (Parallel active) os (s\<lparr>cmdline_args := cmdline_args s @ argv\<rparr>) = (Ret (), s1)"
    and s2: "load_image cv os s1 = (Ret (), s2)" and s3: "check_histogram_differential cv os s2 = (Ret (Inl False), s3)"
    and s4: "par_detect_segments cv os s3 (Ret (), s4)" and u': "par_create_diff_image cv os s4 (Ret (), u)"
    by (rule par_stages_Ret)
  have "holds (0, 0, None, None) s"
    using keepsD [OF held.keeps_start, of "(0, 0, None, None)" initial_state os "''all''" None] s
    by (simp add: holds_def resources_def initial_state_def)
  then have "holds (0, 0, None, None) (s\<lparr>cmdline_args := cmdline_args s @ argv\<rparr>)" by (simp add: holds_def resources_def)
  from keepsD [OF holds_parse this, of "Parallel active" os] have "resources_ok s1"
    by (simp add: s1 holds_def resources_def resources_ok_def maps_of_def)
  moreover have "arg_new_file (arg s1) \<noteq> []" "arg_old_file (arg s1) \<noteq> []"
    using s1 by (auto elim!: parse_args_Ret simp: fill_defaults_simps)
  ultimately have "resources_ok s2" using load_image_result [OF s2 assms] by blast
  moreover have "holds (resources s2) s3" using keepsD [OF holds_check, of "resources s2" s2 cv os] s3 by (simp add: holds_def)
  then have "holds (resources s2) s4" using nkeepsD [OF held_files.nkeeps_detect _ s4] by simp
  then have "holds (resources s2) u" using nkeepsD [OF held_files.nkeeps_create _ u'] by (simp add: holds_def resources_def)
  ultimately have "resources_ok u" by (simp add: resources_ok_def holds_def resources_def)
  with closing_return [OF t] show "status = 0" "w_fds t = 0" "w_maps t = 0" "new_file t = None" "old_file t = None"
    by (simp_all add: resources_def resources_ok_def context_dtor_def delete_file_effect)
qed

lemma sample_par_return: "\<exists>t. par_main sample_cv sample_os 4 sample_args initial_state (Ret 0, t)"
proof -
  have "create_change_image sample_options \<longrightarrow> stroke_law sample_cv (\<lambda>r w. on_border r)" by (simp add: stroke_law_sample)
  note run = par_run_result [OF opencv_laws_sample
      sample_par_good_run [where b = False, unfolded sample_no_change, OF sample_options_parse] _ this, of 4]
  obtain r where r: "par_main sample_cv sample_os 4 sample_args initial_state r" using run(1) by auto
  with run(2) have "fst r = Ret 0" by auto
  with r show ?thesis by (metis prod.collapse)
qed

theorem parallel_main_releases_everything_witness:
  "\<exists>t. par_main sample_cv sample_os 4 sample_args initial_state (Ret 0, t) \<and> w_maps t = 0 \<and> w_fds t = 0"
  using parallel_main_releases_everything [OF sizes_ok_sample, of sample_cv 4 sample_args] sample_par_return by blast

end
