(* ===== verification/Parallel_Output.thy ===== *)
theory Parallel_Output
  imports Parallel_Safety
begin

text \<open>
  The images that a run of the parallel build can leave behind, in every schedule and also when it
  fails half way: at most the three that the command line asks for, each at most once, the
  difference image first.
\<close>

section \<open>Tasks that write one image at most\<close>

definition names :: "state \<Rightarrow> string list" where
  "names s = map fst (w_written s)"

text \<open>
  \<open>writer J n p\<close>: where \<open>J\<close> holds, the steps of \<open>p\<close> leave the state alone but for a last one, which
  writes an image under the name \<open>n\<close>.
\<close>

inductive writer :: "(state \<Rightarrow> bool) \<Rightarrow> string \<Rightarrow> state task \<Rightarrow> bool" for J n where
  writer_Done: "writer J n Done"
| writer_Act: "(\<And>s r t. J s \<Longrightarrow> f s = (r, t) \<Longrightarrow>
      t = s \<and> (\<forall>q. r = Ret q \<longrightarrow> writer J n q) \<or> r = Ret Done \<and> (\<exists>m. t = writes n m s)) \<Longrightarrow> writer J n (Act f)"

inductive_cases writer_ActE: "writer J n (Act f)"
inductive_cases writer_ForkE: "writer J n (Fork ts exc c)"

lemma writer_step:
  assumes "writer J n p" and "J s" and "task_step p s r t"
  shows "t = s \<and> (\<forall>q. r = Ret q \<longrightarrow> writer J n q) \<or> r = Ret Done \<and> (\<exists>m. t = writes n m s)"
  using assms(1)
proof cases
  case (writer_Act f)
  from assms(3) writer_Act(1) have "f s = (r, t)" by auto
  with writer_Act(2) [OF assms(2)] show ?thesis by blast
qed (use assms(3) in auto)

lemma writer_read:
  assumes "\<And>s. J s \<Longrightarrow> snd (p s) = s" and "\<And>s x t. J s \<Longrightarrow> p s = (Ret x, t) \<Longrightarrow> writer J n (k x)"
  shows "writer J n (atom p k)"
  unfolding atom_def
proof (rule writer_Act)
  fix s r t
  assume "J s" "(case p s of (Ret x, t) \<Rightarrow> (Ret (k x), t) | (Halt h, t) \<Rightarrow> (Halt h, t)) = (r, t)"
  with assms [OF \<open>J s\<close>] show "t = s \<and> (\<forall>q. r = Ret q \<longrightarrow> writer J n q) \<or> r = Ret Done \<and> (\<exists>m. t = writes n m s)"
    by (cases "p s"; cases "fst (p s)") auto
qed

lemma writer_write: "writer J n (atom (imwrite cv n m) (\<lambda>_. Done))"
  unfolding atom_def
proof (rule writer_Act)
  fix s t :: state and r :: "state task outcome"
  assume "(case imwrite cv n m s of (Ret x, t) \<Rightarrow> (Ret Done, t) | (Halt h, t) \<Rightarrow> (Halt h, t)) = (r, t)"
  then show "t = s \<and> (\<forall>q. r = Ret q \<longrightarrow> writer J n q) \<or> r = Ret Done \<and> (\<exists>m. t = writes n m s)"
    by (cases "cv_imwrite cv n m") (auto simp: imwrite_def writes_def upd_def halt_def)
qed

text \<open>The names that the members of a group may still write.\<close>

definition unwritten :: "(bool \<times> state task) list \<Rightarrow> string list \<Rightarrow> string set" where
  "unwritten ts ns = {ns ! k |k. k < length ts \<and> snd (ts ! k) \<noteq> Done}"

definition writers :: "(state \<Rightarrow> bool) \<Rightarrow> (bool \<times> state task) list \<Rightarrow> string list \<Rightarrow> bool" where
  "writers J ts ns \<longleftrightarrow> length ns = length ts \<and> (\<forall>k < length ts. writer J (ns ! k) (snd (ts ! k)))"

lemma writers_update: "writers J ts ns \<Longrightarrow> writer J (ns ! k) p \<Longrightarrow> writers J (ts[k := (b, p)]) ns"
  by (cases "k < length ts") (auto simp: writers_def nth_list_update)

lemma unwritten_update: "snd (ts ! k) \<noteq> Done \<Longrightarrow> unwritten (ts[k := (b, p)]) ns \<subseteq> unwritten ts ns"
  by (cases "k < length ts") (auto simp: unwritten_def nth_list_update split: if_splits)

lemma unwritten_ended:
  assumes "distinct ns" and "length ns = length ts" and "k < length ts"
  shows "ns ! k \<notin> unwritten (ts[k := (b, Done)]) ns"
  using assms by (auto simp: unwritten_def nth_list_update nth_eq_iff_index_eq split: if_splits)

lemma group_writes:
  assumes "run_task (Fork ts exc Done) s r" and "writers J ts ns" and "distinct ns" and "J s"
    and J: "\<And>n m s. J s \<Longrightarrow> J (writes n m s)"
  shows "\<exists>ws. names (snd r) = names s @ ws \<and> distinct ws \<and> set ws \<subseteq> unwritten ts ns"
  using assms(1-4)
proof (induction "Fork ts exc (Done :: state task)" s r arbitrary: ts exc)
  case (step s q t r)
  have member: "t = s \<and> (\<forall>q. r' = Ret q \<longrightarrow> writer J (ns ! k) q) \<or> r' = Ret Done \<and> (\<exists>m. t = writes (ns ! k) m s)"
    "snd (ts ! k) \<noteq> Done" if "k < length ts" "ts ! k = (b, p)" "task_step p s r' t" for k b p r'
    using that step.prems writer_step [of J "ns ! k" p s r' t] by (auto simp: writers_def)
  have next_group: ?case if q: "q = Fork (ts[k := (b, p)]) exc' Done" and k: "k < length ts" "snd (ts ! k) \<noteq> Done"
    and t: "t = s \<and> writer J (ns ! k) p \<or> p = Done \<and> (\<exists>m. t = writes (ns ! k) m s)" for k b p exc'
  proof -
    have "writer J (ns ! k) p" "J t" using t writer_Done step.prems(3) J by auto
    then obtain ws where ws: "names (snd r) = names t @ ws" "distinct ws" "set ws \<subseteq> unwritten (ts[k := (b, p)]) ns"
      using step.hyps(3) [OF q] writers_update [OF step.prems(1)] step.prems(2) by blast
    from t show ?thesis
    proof
      assume "t = s \<and> writer J (ns ! k) p"
      with ws unwritten_update [OF k(2)] show ?thesis by blast
    next
      assume p: "p = Done \<and> (\<exists>m. t = writes (ns ! k) m s)"
      then have "names t = names s @ [ns ! k]" by (auto simp: names_def)
      moreover have "ns ! k \<notin> set ws"
        using ws(3) unwritten_ended [OF step.prems(2) _ k(1)] step.prems(1) p by (auto simp: writers_def)
      moreover have "ns ! k \<in> unwritten ts ns" using k by (auto simp: unwritten_def)
      moreover have "set ws \<subseteq> unwritten ts ns" using ws(3) unwritten_update [OF k(2)] by blast
      ultimately show ?thesis using ws(1,2) by (intro exI [of _ "ns ! k # ws"]) simp
    qed
  qed
  from step.hyps(1) show ?case
  proof cases
    case (child k b p q')
    with member [OF child(2-4)] show ?thesis by (intro next_group [OF child(1)]) auto
  next
    case (throw k b p e)
    with member [OF throw(2-4)] show ?thesis by (intro next_group [OF throw(1)]) (auto intro: writer_Done)
  next
    case (cancel k p e)
    then show ?thesis by (intro next_group [OF cancel(2)]) (auto intro: writer_Done)
  next
    case (inside k b p q' e)
    then have "writer J (ns ! k) p" using step.prems(1) by (auto simp: writers_def)
    with inside show ?thesis by (auto elim!: dropped.cases writer_ForkE)
  next
    case join
    with step.hyps(2) show ?thesis by (auto elim: run_task.cases)
  qed
next
  case (halt s h t)
  from halt.hyps show ?case
  proof cases
    case (die k b p)
    then have "writer J (ns ! k) p" using halt.prems(1) by (auto simp: writers_def)
    from writer_step [OF this halt.prems(3) die(3)] show ?thesis by auto
  next
    case (rethrow e)
    then show ?thesis by auto
  qed
qed

section \<open>The change images\<close>

lemma change_writer:
  assumes "\<And>s. J s \<Longrightarrow> output_name (arg s) = out"
  shows "writer J (out @ suffix) (change_task cv draw file segments suffix)"
proof -
  have "writer J (out @ suffix) (case f of
      None \<Rightarrow> atom (halt (Undefined ''dereference of an empty unique_ptr'') :: unit act) (\<lambda>_. Done)
    | Some mf \<Rightarrow> atom (call (decode_from_mapped_file cv mf IMREAD_COLOR)) (\<lambda>image.
        atom (\<lambda>s. (then_outcome (fst (draw segs image)) (\<lambda>_. Ret (snd (draw segs image))), s)) (\<lambda>image.
        atom (imwrite cv (out @ suffix) image) (\<lambda>_. Done))))" for f segs
    by (cases f) (auto intro!: writer_read writer_write writer_Done simp: halt_def call_def ret_def split: sum.splits)
  with assms show ?thesis unfolding change_task_def by (intro writer_read) (auto simp: ask_def)
qed

lemma change_names:
  assumes "par_change_images cv s r" and "output_name (arg s) = out"
  shows "\<exists>ws. names (snd r) = names s @ ws \<and> distinct ws \<and> set ws \<subseteq> {out @ ''_delete.png'', out @ ''_add.png''}"
proof -
  let ?J = "\<lambda>s. output_name (arg s) = out" and ?ns = "[out @ ''_delete.png'', out @ ''_add.png'']"
  from assms(1) obtain d1 d2 where "run_task (change_group cv d1 d2) s r" by (auto simp: par_change_images_def)
  then have run: "run_task (Fork [(False, change_task cv d1 old_file old_segments ''_delete.png''),
      (False, change_task cv d2 new_file new_segments ''_add.png'')] None Done) s r" (is "run_task (Fork ?ts _ _) _ _")
    by (simp add: change_group_def fork_def)
  have "writers ?J ?ts ?ns"
    by (auto simp: writers_def less_Suc_eq intro: change_writer)
  from group_writes [OF run this] assms(2)
  obtain ws where ws: "names (snd r) = names s @ ws" "distinct ws" "set ws \<subseteq> unwritten ?ts ?ns" by auto
  moreover have "unwritten ?ts ?ns \<subseteq> set ?ns" by (auto simp: unwritten_def less_Suc_eq)
  ultimately show ?thesis by (intro exI [of _ ws]) auto
qed

section \<open>Outcomes within bounds\<close>

text \<open>\<open>bound T P M U\<close>: from \<open>T\<close>, the program returns in \<open>M\<close> or ends the process in \<open>U\<close>.\<close>

definition bound :: "(state \<Rightarrow> bool) \<Rightarrow> 'a nact \<Rightarrow> ('a \<Rightarrow> state \<Rightarrow> bool) \<Rightarrow> (state \<Rightarrow> bool) \<Rightarrow> bool" where
  "bound T P M U \<longleftrightarrow> (\<forall>s e t. T s \<longrightarrow> P s (e, t) \<longrightarrow> (case e of Ret x \<Rightarrow> M x t | Halt h \<Rightarrow> U t))"

lemma bound_Ret: "bound T P M U \<Longrightarrow> T s \<Longrightarrow> P s (Ret x, t) \<Longrightarrow> M x t"
  unfolding bound_def by (drule spec [of _ s]) force

lemma bound_Halt: "bound T P M U \<Longrightarrow> T s \<Longrightarrow> P s (Halt h, t) \<Longrightarrow> U t"
  unfolding bound_def by (drule spec [of _ s]) force

lemma bound_result: "bound T P (\<lambda>_. M) M \<Longrightarrow> T s \<Longrightarrow> P s r \<Longrightarrow> M (snd r)"
  using bound_Ret [of T P "\<lambda>_. M" M s _ "snd r"] bound_Halt [of T P "\<lambda>_. M" M s _ "snd r"]
  by (cases r; cases "fst r") auto

lemma boundI:
  assumes "\<And>s x t. T s \<Longrightarrow> P s (Ret x, t) \<Longrightarrow> M x t" and "\<And>s h t. T s \<Longrightarrow> P s (Halt h, t) \<Longrightarrow> U t"
  shows "bound T P M U"
  unfolding bound_def using assms by (auto split: outcome.split)

lemma bound_bnd:
  assumes "bound T P M U" and "\<And>x. bound (M x) (Q x) N U"
  shows "bound T (nbnd P Q) N U"
proof (rule boundI)
  fix s x t
  assume s: "T s" and "nbnd P Q s (Ret x, t)"
  then obtain y u where "P s (Ret y, u)" "Q y u (Ret x, t)" by (auto elim: nbnd_RetE)
  then show "N x t" using bound_Ret [OF assms(1) s] bound_Ret [OF assms(2)] by blast
next
  fix s h t
  assume s: "T s" and "nbnd P Q s (Halt h, t)"
  then consider y u where "P s (Ret y, u)" "Q y u (Halt h, t)" | "P s (Halt h, t)" by (auto simp: nbnd_def)
  then show "U t" by cases (use bound_Ret [OF assms(1) s] bound_Halt [OF assms(2)] bound_Halt [OF assms(1) s] in blast)+
qed

lemma bound_keeps: "nkeeps I P \<Longrightarrow> (\<And>s. I s \<Longrightarrow> U s) \<Longrightarrow> bound I P (\<lambda>_. I) U"
  by (rule boundI) (fastforce dest: nkeepsD)+

lemma bound_timer:
  assumes "timer_blind T" and "timer_blind M" and "\<And>i. bound T (body i) (\<lambda>_. M) U" and "\<And>s. T s \<Longrightarrow> U s"
    and "\<And>s. M s \<Longrightarrow> U s"
  shows "bound T (nwith_timer os name parent body) (\<lambda>_. M) U"
  unfolding nwith_timer_def
proof (rule bound_bnd)
  show "bound T (just (timer_start os name parent)) (\<lambda>_. T) U"
    by (rule bound_keeps [OF nkeeps_just [OF timer_blind.keeps_start [OF assms(1)]] assms(4)])
  show "bound T (nbnd (body i) (\<lambda>x. nbnd (just (upd (timer_stop os i))) (\<lambda>_. just (ret x)))) (\<lambda>_. M) U" for i
    by (rule bound_bnd [OF assms(3)], rule bound_keeps)
      (intro nkeeps_intros timer_blind.keeps_stop [OF assms(2)] keeps_ret, rule assms(5))
qed

lemma bound_read:
  assumes "\<And>s. T s \<Longrightarrow> f s = y" and "bound T (Q y) N U"
  shows "bound T (nbnd (just (ask f)) Q) N U"
proof (rule bound_bnd [where M = "\<lambda>x s. T s \<and> x = y"])
  show "bound T (just (ask f)) (\<lambda>x s. T s \<and> x = y) U"
    by (rule boundI) (use assms(1) in \<open>auto simp: just_def ask_def\<close>)
  show "bound (\<lambda>s. T s \<and> x = y) (Q x) N U" for x
    using assms(2) by (cases "x = y") (auto intro: boundI)
qed

section \<open>The images of a run\<close>

definition change_names_of :: "options \<Rightarrow> string set" where
  "change_names_of a = (if create_change_image a then {output_name a @ ''_delete.png'', output_name a @ ''_add.png''} else {})"

definition allowed :: "options \<Rightarrow> state \<Rightarrow> bool" where
  "allowed a s \<longleftrightarrow> distinct (names s) \<and>
     (names s = [] \<or> (\<exists>rest. names s = (output_name a @ ''_diff.png'') # rest \<and> set rest \<subseteq> change_names_of a))"

definition settled :: "options \<Rightarrow> string list \<Rightarrow> state \<Rightarrow> bool" where
  "settled a ns s \<longleftrightarrow> arg s = a \<and> names s = ns"

interpretation settling: segments_blind "settled a ns" for a ns
  by unfold_locales (simp_all add: settled_def names_def)

interpretation allowing: timer_blind "allowed a" for a
  by unfold_locales (simp add: allowed_def names_def)

lemma settled_allowed: "settled a [] s \<Longrightarrow> allowed a s" "settled a [output_name a @ ''_diff.png''] s \<Longrightarrow> allowed a s"
  by (simp_all add: settled_def allowed_def)

lemma change_allowed:
  assumes "create_change_image a" and "settled a [output_name a @ ''_diff.png''] s" and "par_change_images cv s (e, t)"
  shows "allowed a t"
proof -
  from assms(2) have "output_name (arg s) = output_name a" "names s = [output_name a @ ''_diff.png'']"
    by (simp_all add: settled_def)
  with change_names [OF assms(3)] obtain ws where ws: "names t = (output_name a @ ''_diff.png'') # ws" "distinct ws"
    "set ws \<subseteq> {output_name a @ ''_delete.png'', output_name a @ ''_add.png''}" by auto
  then have "output_name a @ ''_diff.png'' \<notin> set ws" by auto
  with ws assms(1) show ?thesis by (simp add: allowed_def change_names_of_def)
qed

lemma bound_change:
  assumes "create_change_image a"
  shows "bound (settled a [output_name a @ ''_diff.png'']) (par_change_images cv) (\<lambda>_. allowed a) (allowed a)"
proof (rule boundI)
  fix s t and x :: unit
  assume "settled a [output_name a @ ''_diff.png''] s" "par_change_images cv s (Ret x, t)"
  with assms show "allowed a t" by (rule change_allowed)
next
  fix s t h
  assume "settled a [output_name a @ ''_diff.png''] s" "par_change_images cv s (Halt h, t)"
  with assms show "allowed a t" by (rule change_allowed)
qed

lemma bound_write: "bound (settled a []) (par_write_images cv os m) (\<lambda>_. allowed a) (allowed a)"
  unfolding par_write_images_def
proof (rule bound_timer [OF settling.timer_blind_axioms allowing.timer_blind_axioms],
    rule bound_read [where y = "output_name a @ ''_diff.png''"], simp add: settled_def, rule bound_bnd)
  let ?n = "output_name a @ ''_diff.png''"
  show "bound (settled a []) (just (imwrite cv ?n m)) (\<lambda>_. settled a [?n]) (allowed a)"
  proof (rule boundI)
    fix s t and x :: unit
    assume "settled a [] s" "just (imwrite cv ?n m) s (Ret x, t)"
    then show "settled a [?n] t"
      by (cases "cv_imwrite cv ?n m") (auto simp: just_def imwrite_def upd_def halt_def settled_def names_def)
  next
    fix s t h
    assume "settled a [] s" "just (imwrite cv ?n m) s (Halt h, t)"
    then show "allowed a t"
      by (cases "cv_imwrite cv ?n m") (auto simp: just_def imwrite_def upd_def halt_def intro: settled_allowed)
  qed
  have "bound (settled a [?n]) (if \<not> create_change_image a then just (ret ())
      else nwith_timer os ''create added and deleted image'' None (\<lambda>_. par_change_images cv)) (\<lambda>_. allowed a) (allowed a)"
  proof (cases "create_change_image a")
    case True
    note bound_timer [OF settling.timer_blind_axioms allowing.timer_blind_axioms bound_change [OF True] settled_allowed(2)]
    with True show ?thesis by simp
  next
    case False
    have "bound (settled a [?n]) (just (ret ())) (\<lambda>_. allowed a) (allowed a)"
      by (rule boundI) (auto simp: just_def ret_def settled_allowed)
    with False show ?thesis by simp
  qed
  then show "bound (settled a [?n]) (nbnd (just (ask (\<lambda>s. create_change_image (arg s)))) (\<lambda>change.
      if \<not> change then just (ret ()) else nwith_timer os ''create added and deleted image'' None (\<lambda>_. par_change_images cv)))
      (\<lambda>_. allowed a) (allowed a)"
    by (intro bound_read [where y = "create_change_image a"]) (simp add: settled_def)
qed (simp_all add: settled_allowed)

lemma bound_create: "bound (settled a []) (par_create_diff_image cv os) (\<lambda>_. allowed a) (allowed a)"
  unfolding par_create_diff_image_def
proof (rule bound_timer [OF settling.timer_blind_axioms allowing.timer_blind_axioms])
  show "bound (settled a []) (nbnd (just (ask (\<lambda>s. (diff_view_of s, old_segments s, new_segments s)))) (\<lambda>(v, olds, news).
      nbnd (just (call (cv_merge3 cv (v_old_gray v) (v_old_gray v) (v_old_gray v)))) (\<lambda>result.
      nbnd (par_match cv v olds news result) (par_write_images cv os)))) (\<lambda>_. allowed a) (allowed a)"
    by (rule bound_bnd [OF bound_keeps [OF nkeeps_just [OF keeps_ask]]], simp add: settled_allowed, simp only: case_prod_unfold,
        rule bound_bnd [OF bound_keeps [OF nkeeps_just [OF keeps_call]]], simp add: settled_allowed,
        rule bound_bnd [OF bound_keeps [OF settling.nkeeps_match]], simp add: settled_allowed, rule bound_write)
qed (simp_all add: settled_allowed)

section \<open>The other stages\<close>

lemma unnamed_parse: "keeps (\<lambda>s. names s = ns) (parse_args b os)"
proof -
  have "timer_blind (\<lambda>s. names s = ns)" by unfold_locales (simp add: names_def)
  from timer_blind.keeps_scope [OF this] show ?thesis
    unfolding parse_args_def
    by (rule meta_mp) (auto simp: keeps_def names_def stop_parsing_def usage_def fatal_def sync_out_err_def halt_def Let_def
      split: prod.split option.split parse_stop.split)
qed

lemma settled_must_open: "keeps (settled a ns) (must_open os path)"
  unfolding must_open_def mapped_file_open_def fatal_errno_def errno_string_def fatal_def sync_out_err_def
  by (auto simp: keeps_def settled_def names_def bnd_def ret_def Let_def split: sum.splits)

lemma settled_reset: "settled a ns s \<Longrightarrow> settled a ns (reset_new_file mf s)" "settled a ns s \<Longrightarrow> settled a ns (reset_old_file mf s)"
  by (simp_all add: settled_def names_def reset_new_file_def reset_old_file_def delete_file_maps)

lemma settled_mats:
  "settled a ns s \<Longrightarrow> settled a ns (s\<lparr>new_color_mat := c\<rparr>)" "settled a ns s \<Longrightarrow> settled a ns (s\<lparr>old_color_mat := c\<rparr>)"
  "settled a ns s \<Longrightarrow> settled a ns (s\<lparr>new_gray_mat := g\<rparr>)" "settled a ns s \<Longrightarrow> settled a ns (s\<lparr>old_gray_mat := g\<rparr>)"
  by (simp_all add: settled_def names_def)

lemma settled_load_steps:
  assumes "ps \<in> set (load_tasks cv os)" and "p \<in> set ps"
  shows "keeps (settled a ns) p"
proof -
  have "keeps (settled a ns) (open_new os)" "keeps (settled a ns) (decode_new cv)" "keeps (settled a ns) (gray_new cv)"
    "keeps (settled a ns) (open_old os)" "keeps (settled a ns) (decode_old cv)" "keeps (settled a ns) (gray_old cv)"
    unfolding open_new_def decode_new_def gray_new_def open_old_def decode_old_def gray_old_def
    by (intro keeps_intros settled_must_open settled_reset settled_mats, assumption)+
  with assms show ?thesis by (auto simp: load_tasks_def)
qed

lemma settled_load: "nkeeps (settled a ns) (par_load_image cv os)"
proof -
  have "nkeeps (settled a ns) (run_group (load_tasks cv os))"
    unfolding nkeeps_def by (intro allI impI) (rule steady_group [OF _ settled_load_steps])
  then show ?thesis unfolding par_load_image_def by (rule settling.nkeeps_timer)
qed

lemma allowed_closing: "keeps (allowed a) (closing os i)"
proof -
  have "keeps (allowed a) (print_timer_records os)"
  proof (rule keepsI)
    fix s
    assume "allowed a s"
    moreover obtain c r out where "snd (print_timer_records os s) = s\<lparr>w_clock := c, timer_records := r, w_out := out\<rparr>"
      by (rule report_frame)
    ultimately show "allowed a (snd (print_timer_records os s))" by (simp add: allowed_def names_def)
  qed
  then show ?thesis unfolding closing_def
    by (intro keeps_bnd keeps_if keeps_ask keeps_ret allowing.keeps_stop keeps_upd [of _ context_dtor])
      (simp_all add: allowed_def names_def context_dtor_written)
qed

section \<open>The program\<close>

text \<open>The options that the run uses once \<open>parse_args\<close> has returned.\<close>

definition run_options :: "nat \<Rightarrow> string list \<Rightarrow> options" where
  "run_options active argv = fill_defaults (Parallel active) (fst (parse_loop default_options (tl argv)))"

definition untouched :: "string list \<Rightarrow> state \<Rightarrow> bool" where
  "untouched argv s \<longleftrightarrow> names s = [] \<and> arg s = default_options \<and> cmdline_args s = argv"

lemma unnamed_allowed: "names s = [] \<Longrightarrow> allowed a s"
  by (simp add: allowed_def)

lemma bound_parse:
  "bound (untouched argv) (just (parse_args (Parallel active) os)) (\<lambda>_. settled (run_options active argv) []) (allowed a)"
proof (rule boundI)
  fix s t and x :: unit
  assume s: "untouched argv s" and run: "just (parse_args (Parallel active) os) s (Ret x, t)"
  then have "parse_args (Parallel active) os s = (Ret (), t)" by (simp add: just_def)
  then obtain ar where "parse_loop (arg s) (tl (cmdline_args s)) = (ar, None)" "arg t = fill_defaults (Parallel active) ar"
    by (rule parse_args_Ret)
  moreover have "names t = []" using nkeepsD [OF nkeeps_just [OF unnamed_parse] _ run] s by (simp add: untouched_def)
  ultimately show "settled (run_options active argv) [] t" using s by (simp add: settled_def run_options_def untouched_def)
next
  fix s t h
  assume s: "untouched argv s" and run: "just (parse_args (Parallel active) os) s (Halt h, t)"
  have "names t = []" using nkeepsD [OF nkeeps_just [OF unnamed_parse] _ run] s by (simp add: untouched_def)
  then show "allowed a t" by (rule unnamed_allowed)
qed

lemma bound_fatal: "bound (settled a []) (just (fatal err)) (\<lambda>_. allowed a) (allowed a)"
  by (rule boundI) (auto simp: just_def fatal_def sync_out_err_def settled_def allowed_def names_def)

lemma bound_stages:
  "bound (\<lambda>s. names s = [] \<and> arg s = default_options \<and> cmdline_args s = []) (par_stages cv os active argv)
     (\<lambda>_. allowed (run_options active argv)) (allowed (run_options active argv))"
proof -
  let ?a = "run_options active argv"
  note quiet = bound_keeps [where I = "settled ?a []" and U = "allowed ?a", OF _ settled_allowed(1)]
  have pushed: "bound (\<lambda>s. names s = [] \<and> arg s = default_options \<and> cmdline_args s = [])
      (just (upd (\<lambda>s. s\<lparr>cmdline_args := cmdline_args s @ argv\<rparr>))) (\<lambda>_. untouched argv) (allowed ?a)"
    by (rule boundI) (auto simp: just_def upd_def untouched_def names_def)
  have rest: "bound (settled ?a []) (nbnd (par_detect_segments cv os) (\<lambda>_. par_create_diff_image cv os))
      (\<lambda>_. allowed ?a) (allowed ?a)"
    by (rule bound_bnd [OF quiet [OF settling.nkeeps_detect] bound_create])
  have "bound (settled ?a []) (case d of Inr err \<Rightarrow> just (fatal err)
      | Inl same \<Rightarrow> if same then just (fatal ''two images are same'')
         else nbnd (par_detect_segments cv os) (\<lambda>_. par_create_diff_image cv os)) (\<lambda>_. allowed ?a) (allowed ?a)" for d
    using rest by (cases d) (simp_all add: bound_fatal)
  then show ?thesis unfolding par_stages_def
    by (intro bound_bnd [OF pushed] bound_bnd [OF bound_parse] bound_bnd [OF quiet [OF nkeeps_just [OF keeps_limit]]]
      bound_bnd [OF quiet [OF settled_load]] bound_bnd [OF quiet [OF nkeeps_just [OF settling.keeps_check]]])
qed

text \<open>
  C12. The parallel build leaves only the images that its command line asks for, in every schedule,
  whatever the system and OpenCV do, and also when the run ends half way: each name at most once, the
  difference image before the others, and the two change images only with \<open>-create_change_image\<close>.
\<close>

theorem parallel_writes_only_outputs:
  assumes "par_main cv os active argv initial_state r"
    and "a = fill_defaults (Parallel active) (fst (parse_loop default_options (tl argv)))"
  shows "distinct (map fst (w_written (snd r))) \<and>
    (w_written (snd r) = [] \<or>
     fst (hd (w_written (snd r))) = output_name a @ ''_diff.png'' \<and>
     fst ` set (tl (w_written (snd r))) \<subseteq>
       (if create_change_image a then {output_name a @ ''_delete.png'', output_name a @ ''_add.png''} else {}))"
proof -
  let ?T = "\<lambda>s. names s = [] \<and> arg s = default_options \<and> cmdline_args s = []"
  have a: "a = run_options active argv" using assms(2) by (simp add: run_options_def)
  have "timer_blind ?T" by unfold_locales (simp add: names_def)
  then have "bound ?T (just (timer_start os ''all'' None)) (\<lambda>_. ?T) (allowed a)"
    by (intro bound_keeps nkeeps_just timer_blind.keeps_start) (simp_all add: unnamed_allowed)
  then have "bound ?T (par_main cv os active argv) (\<lambda>_. allowed a) (allowed a)"
    unfolding par_main_closing a
    by (rule bound_bnd [OF _ bound_bnd [OF bound_stages bound_keeps [OF nkeeps_just [OF allowed_closing]]]])
  moreover have "?T initial_state" by (simp add: initial_state_def names_def)
  ultimately have "allowed a (snd r)" using assms(1) by (rule bound_result)
  then show ?thesis unfolding allowed_def change_names_of_def names_def by (cases "w_written (snd r)") (simp_all, metis)
qed

theorem parallel_writes_only_outputs_witness:
  "\<exists>t. par_main sample_cv sample_os 4 sample_args initial_state (Ret 0, t) \<and>
     (\<forall>w \<in> set (w_written t). fst w = ''image_difference_diff.png'')"
proof -
  obtain t where t: "par_main sample_cv sample_os 4 sample_args initial_state (Ret 0, t)" using sample_par_return ..
  let ?a = "fill_defaults (Parallel 4) sample_options"
  have "output_name ?a = ''image_difference''" "\<not> create_change_image ?a"
    by (simp_all add: fill_defaults_def sample_options_def default_options_def)
  with parallel_writes_only_outputs [OF t refl, unfolded sample_options_parse fst_conv]
  have "\<forall>w \<in> set (w_written t). fst w = ''image_difference_diff.png''" by (cases "w_written t") auto
  with t show ?thesis by blast
qed

end
