(* ===== verification/Same_Verdict.thy ===== *)
theory Same_Verdict
  imports Whole_Run "HOL-Library.Multiset"
begin

text \<open>
  What \<open>check_histogram_differential\<close> cannot see: it compares histograms of hue and saturation, so
  two images count as the same when they have the same hues and saturations, whatever the place and
  the brightness of their pixels.
\<close>

section \<open>What OpenCV documents of histograms\<close>

text \<open>The values of the given channels of a pixel, and of all pixels of an image, with multiplicity.\<close>

definition picked :: "int list \<Rightarrow> u8 \<times> u8 \<times> u8 \<Rightarrow> u8 list" where
  "picked channels p = map (\<lambda>c. if c = 0 then fst p else if c = 1 then fst (snd p) else snd (snd p)) channels"

definition picks :: "int list \<Rightarrow> bgr mat \<Rightarrow> u8 list multiset" where
  "picks channels m = image_mset (\<lambda>(x, y). picked channels (pix m y x)) (mset (raster m))"

text \<open>
  \<open>cv::calcHist\<close>, without accumulation, counts how many pixels fall into each bin by the values of the
  given channels; the chi-square distance of a histogram to itself is zero.
\<close>

definition hist_law :: "opencv \<Rightarrow> bool" where
  "hist_law cv \<longleftrightarrow> (\<forall>m m' channels sizes ranges uniform. picks channels m = picks channels m' \<longrightarrow>
     cv_calcHist cv m channels sizes ranges uniform False = cv_calcHist cv m' channels sizes ranges uniform False)"

definition chisqr_law :: "opencv \<Rightarrow> bool" where
  "chisqr_law cv \<longleftrightarrow> (\<forall>h. cv_compareHist cv h h 1 = Inr (Fin 0))"

text \<open>
  The conversion to HSV works pixel by pixel; where the three colour channels are equal, hue and
  saturation are zero.
\<close>

definition hsv_law :: "opencv \<Rightarrow> bool" where
  "hsv_law cv \<longleftrightarrow> (\<exists>f. (\<forall>v. picked [0, 1] (f (v, v, v)) = [0, 0]) \<and>
     (\<forall>m. \<not> mat_empty m \<longrightarrow> (\<exists>hsv. cv_bgr2hsv cv m = Inr hsv \<and> rows hsv = rows m \<and> cols hsv = cols m \<and>
        (\<forall>y x. inside m y x \<longrightarrow> pix hsv y x = f (pix m y x)))))"

section \<open>Equal hues and saturations\<close>

lemma histogram_same_colors:
  assumes "hist_law cv" and "cv_bgr2hsv cv m = Inr hsv" and "cv_bgr2hsv cv m' = Inr hsv'"
    and "picks [0, 1] hsv = picks [0, 1] hsv'" and "histogram cv m n"
  shows "histogram cv m' n"
proof -
  have "cv_calcHist cv hsv [0, 1] [256, 256] [(0, 180), (0, 256)] True False =
      cv_calcHist cv hsv' [0, 1] [256, 256] [(0, 180), (0, 256)] True False"
    using assms(1,4) unfolding hist_law_def by blast
  with assms(2,3,5) show ?thesis by (auto simp: histogram_def)
qed

text \<open>
  C32. The verdict ignores where pixels are and how bright they are: when the two colour images,
  converted to HSV, have the same hues and saturations with the same multiplicities, then
  \<open>check_histogram_differential\<close> finds them the same, from every state, and changes nothing but the
  timers.
\<close>

theorem verdict_ignores_place_and_brightness:
  assumes "hist_law cv" and "chisqr_law cv"
    and "\<not> mat_empty (old_color_mat s)" and "\<not> mat_empty (new_color_mat s)"
    and "cv_bgr2hsv cv (old_color_mat s) = Inr old" and "cv_bgr2hsv cv (new_color_mat s) = Inr new"
    and "picks [0, 1] old = picks [0, 1] new" and "histogram cv (old_color_mat s) n"
  shows "fst (check_histogram_differential cv os s) = Ret (Inl True) \<and>
    same_but_timers s (snd (check_histogram_differential cv os s))"
proof -
  have "histogram cv (new_color_mat s) n" by (rule histogram_same_colors [OF assms(1,5,6,7,8)])
  moreover have "cv_compareHist cv n n 1 = Inr (Fin 0)" using assms(2) by (simp add: chisqr_law_def)
  ultimately have "runs (check_histogram_differential cv os) s (Ret (Inl (histograms_same (Fin 0)))) s"
    by (rule runs_check [OF assms(3,4,8)])
  from runs_start [OF this] show ?thesis by (simp add: histograms_same_zero)
qed

section \<open>Gray images\<close>

definition gray_image :: "bgr mat \<Rightarrow> bool" where
  "gray_image m \<longleftrightarrow> (\<forall>y x. inside m y x \<longrightarrow> (\<exists>v. pix m y x = (v, v, v)))"

lemma size_raster: "length (raster m) = nat (rows m) * nat (cols m)"
  by (simp add: raster_def length_concat comp_def sum_list_triv)

lemma gray_picks:
  assumes "\<And>v. picked [0, 1] (f (v, v, v)) = [0, 0]" and "gray_image m" and "rows hsv = rows m" and "cols hsv = cols m"
    and "\<And>y x. inside m y x \<Longrightarrow> pix hsv y x = f (pix m y x)"
  shows "picks [0, 1] hsv = replicate_mset (nat (rows m) * nat (cols m)) [0, 0]"
proof -
  have "(\<lambda>(x, y). picked [0, 1] (pix hsv y x)) p = [0, 0]" if "p \<in># mset (raster hsv)" for p
  proof -
    obtain x y where p: "p = (x, y)" by (cases p)
    with that assms(3,4) have "inside m y x" by (auto simp: set_raster inside_def)
    moreover from this assms(2) obtain v where "pix m y x = (v, v, v)" unfolding gray_image_def by blast
    ultimately show ?thesis using assms(1,5) p by simp
  qed
  then have "picks [0, 1] hsv = image_mset (\<lambda>_. [0, 0]) (mset (raster hsv))"
    unfolding picks_def by (rule image_mset_cong)
  then show ?thesis using assms(3,4) by (simp add: image_mset_const_eq size_raster)
qed

lemma gray_same_histogram:
  assumes "hsv_law cv" and "hist_law cv" and "gray_image m" and "gray_image m'"
    and "\<not> mat_empty m" and "\<not> mat_empty m'" and "rows m = rows m'" and "cols m = cols m'" and "histogram cv m n"
  shows "histogram cv m' n"
proof -
  from assms(1) obtain f where f: "\<And>v. picked [0, 1] (f (v, v, v)) = [0, 0]"
    and conv: "\<And>m. \<not> mat_empty m \<Longrightarrow> \<exists>hsv. cv_bgr2hsv cv m = Inr hsv \<and> rows hsv = rows m \<and> cols hsv = cols m \<and>
        (\<forall>y x. inside m y x \<longrightarrow> pix hsv y x = f (pix m y x))"
    unfolding hsv_law_def by blast
  from conv [OF assms(5)] obtain hsv where hsv: "cv_bgr2hsv cv m = Inr hsv" "rows hsv = rows m" "cols hsv = cols m"
    "\<And>y x. inside m y x \<Longrightarrow> pix hsv y x = f (pix m y x)" by blast
  from conv [OF assms(6)] obtain hsv' where hsv': "cv_bgr2hsv cv m' = Inr hsv'" "rows hsv' = rows m'" "cols hsv' = cols m'"
    "\<And>y x. inside m' y x \<Longrightarrow> pix hsv' y x = f (pix m' y x)" by blast
  have "picks [0, 1] hsv = picks [0, 1] hsv'"
    using gray_picks [OF f assms(3) hsv(2,3,4)] gray_picks [OF f assms(4) hsv'(2,3,4)] assms(7,8) by simp
  then show ?thesis by (rule histogram_same_colors [OF assms(2) hsv(1) hsv'(1) _ assms(9)])
qed

text \<open>
  C31. Two gray images of one size count as the same, whatever they show: the run ends with status 1,
  says that the images are the same and writes no image. All gray pixels have hue and saturation
  zero, and the brightness is not compared.
\<close>

theorem gray_images_count_as_same:
  assumes "hsv_law cv" and "hist_law cv" and "chisqr_law cv" and "parse_loop default_options (tl argv) = (ar, None)"
    and "loads cv os (arg_new_file ar) nf nc ng" and "loads cv os (arg_old_file ar) mo oc og"
    and "gray_image oc" and "gray_image nc" and "\<not> mat_empty oc" and "rows oc = rows nc" and "cols oc = cols nc"
    and "histogram cv oc n"
  shows "fst (main cv os argv initial_state) = Halt (Exited 1) \<and>
    w_written (snd (main cv os argv initial_state)) = [] \<and>
    w_err (snd (main cv os argv initial_state)) = add_color ar ''fatal'' @ ''two images are same'' @ newline"
proof -
  have ne: "\<not> mat_empty nc" using assms(9,10,11) by (simp add: mat_empty_def)
  have "histogram cv nc n" by (rule gray_same_histogram [OF assms(1,2,7,8,9) ne assms(10,11,12)])
  moreover have "cv_compareHist cv n n 1 = Inr (Fin 0)" using assms(3) by (simp add: chisqr_law_def)
  ultimately show ?thesis by (rule main_same [OF assms(4,5,6) ne assms(9) _ assms(12)])
qed

section \<open>Examples\<close>

text \<open>A white and a black image; the histogram holds the number of pixels.\<close>

definition white_black_cv :: opencv where
  "white_black_cv = sample_cv\<lparr>
     cv_imdecode := \<lambda>d n fl. Inr (mat_const 2 2 (if d = Some [1] then (255, 255, 255) else (0, 0, 0))),
     cv_bgr2hsv := \<lambda>m. if mat_empty m then Inl ''empty''
       else Inr (mat_map (\<lambda>(b, g, r). if b = g \<and> g = r then (0, 0, b) else (b, g, r)) m),
     cv_calcHist := \<lambda>m channels sizes ranges uniform accumulate. Inr (mat_const 1 1 (of_nat (size (picks channels m)))),
     cv_compareHist := \<lambda>h1 h2 k. Inr (if pix h1 0 0 = pix h2 0 0 then Fin 0 else PInf)\<rparr>"

definition white_black_os :: os where
  "white_black_os = sample_os\<lparr>os_open := \<lambda>path. Inr (if path = ''a.png'' then 3 else 4),
     os_mmap := \<lambda>fd n. Inr (if fd = 3 then [1] else [2])\<rparr>"

lemma white_black_laws: "hist_law white_black_cv" "chisqr_law white_black_cv" "hsv_law white_black_cv"
proof -
  show "hist_law white_black_cv" "chisqr_law white_black_cv"
    by (simp_all add: hist_law_def chisqr_law_def white_black_cv_def)
  show "hsv_law white_black_cv" unfolding hsv_law_def
    by (rule exI [of _ "\<lambda>(b, g, r). if b = g \<and> g = r then (0, 0, b) else (b, g, r)"])
      (simp add: white_black_cv_def mat_map_def picked_def)
qed

lemma white_black_histogram:
  "histogram white_black_cv (mat_const 2 2 p) (mat_const 1 1 4)"
  by (simp add: histogram_def white_black_cv_def sample_cv_def mat_empty_def mat_map_def mat_const_def picks_def size_raster)

theorem verdict_ignores_place_and_brightness_witness:
  "fst (check_histogram_differential white_black_cv sample_os (initial_state\<lparr>old_color_mat := mat_const 2 2 (0, 0, 0),
     new_color_mat := mat_const 2 2 (255, 255, 255)\<rparr>)) = Ret (Inl True)"
proof -
  let ?s = "initial_state\<lparr>old_color_mat := mat_const 2 2 (0, 0, 0), new_color_mat := mat_const 2 2 (255, 255, 255)\<rparr>"
  have hsv: "cv_bgr2hsv white_black_cv (mat_const 2 2 (v, v, v)) = Inr (mat_const 2 2 (0, 0, v))" for v
    by (simp add: white_black_cv_def mat_empty_def mat_map_def mat_const_def)
  have "picks [0, 1] (mat_const 2 2 (0, 0, 0)) = picks [0, 1] (mat_const 2 2 (0, 0, 255))"
    by (simp add: picks_def picked_def raster_def mat_const_def)
  from verdict_ignores_place_and_brightness [OF white_black_laws(1,2), of ?s, simplified, OF _ _ hsv hsv this white_black_histogram]
  show ?thesis by (simp add: mat_empty_def mat_const_def)
qed

theorem gray_images_count_as_same_witness:
  "w_err (snd (main white_black_cv white_black_os sample_args initial_state)) =
     ''gazo-san: fatal: two images are same'' @ newline"
proof -
  let ?f = "\<lambda>path data. \<lparr>mf_name = path, mf_data = Some data, mf_size = 4,
    mf_mtime = mtime_nsec \<lparr>st_size = 4, st_mtim_sec = 1, st_mtim_nsec = 5\<rparr>\<rparr>"
  have files: "arg_new_file sample_options = ''a.png''" "arg_old_file sample_options = ''b.png''"
    and color: "add_color sample_options ''fatal'' = ''gazo-san: fatal: ''"
    by (simp_all add: sample_options_def default_options_def add_color_def)
  have new: "loads white_black_cv white_black_os (arg_new_file sample_options) (?f ''a.png'' [1])
      (mat_const 2 2 (255, 255, 255)) (mat_const 2 2 255)"
    and old: "loads white_black_cv white_black_os (arg_old_file sample_options) (?f ''b.png'' [2])
      (mat_const 2 2 (0, 0, 0)) (mat_const 2 2 0)"
    by (simp_all add: files loads_def mapped_def white_black_os_def sample_os_def white_black_cv_def sample_cv_def
        decode_from_mapped_file_def mat_const_def mat_map_def mat_empty_def)
  have "gray_image (mat_const 2 2 (v, v, v))" for v by (simp add: gray_image_def mat_const_def)
  note gray = this [of 0] this [of 255]
  have "\<not> mat_empty (mat_const 2 2 (0 :: u8, 0 :: u8, 0 :: u8))" by (simp add: mat_empty_def mat_const_def)
  from gray_images_count_as_same [OF white_black_laws(3,1,2) sample_options_parse new old gray this _ _ white_black_histogram]
    color show ?thesis by (simp add: mat_const_def)
qed

end
