(* ===== verification/Spec2Isabelle.thy ===== *)
theory Spec2Isabelle
  imports Parallel_Output Same_Verdict
begin

text \<open>
  A verification development for gazosan, a command line program that compares two images and
  writes an image of their differences.

  \<^bold>\<open>The program.\<close> \<open>main\<close> (main.cc) runs five stages on one object \<open>Context\<close> (gazosan.h):
  \<open>parse_args\<close> (cmdline.cc) reads the options; \<open>load_image\<close> maps and decodes the two files;
  \<open>check_histogram_differential\<close> ends the program when the images are the same;
  \<open>detect_segments\<close> cuts both images into segments and computes a descriptor for each;
  \<open>create_diff_image\<close> matches the segments and writes the difference image (all in image.cc).
  Every stage is measured by scoped timers, whose records are printed as a tree on request
  (perf.cc). Errors of the system end the process with a diagnostic (\<open>Fatal\<close> of gazosan.h,
  \<open>errno_string\<close> of strerror.cc). CMakeLists.txt leaves \<open>ENABLE_PARALLEL\<close> off; the serial build
  is what the theories up to \<open>Whole_Run\<close>, \<open>Same_Verdict\<close> and \<open>Well_Formed\<close> model, the others model the parallel build,
  which runs parts of \<open>load_image\<close>, \<open>detect_segments\<close> and \<open>create_diff_image\<close> as tasks of TBB.

  \<^bold>\<open>The model.\<close> A run passes a record \<open>state\<close> along: the members of \<open>Context\<close>, and what the
  process has done to its surroundings (\<open>w_out\<close> and \<open>w_err\<close>, the two streams; \<open>w_written\<close>, the
  images written, in order; \<open>w_fds\<close> and \<open>w_maps\<close>, open descriptors and mappings; \<open>w_clock\<close>, how
  many readings of the clocks were taken). A function of the program is a \<open>state \<Rightarrow> outcome \<times>
  state\<close>, where the outcome is a value (\<open>Ret\<close>) or the end of the process (\<open>Halt\<close>: an exit status,
  an exception that nobody catches, or undefined behaviour). OpenCV and the operating system are
  records of functions, \<open>opencv\<close> and \<open>os\<close>, that the definitions take as arguments. Nothing is
  known of them but what a theorem states as a hypothesis by name.

  \<^bold>\<open>The theories\<close>, in the order in which they build on each other.
  \<^item> \<open>Prelude\<close>: integers of fixed width, outcomes and their sequencing, the calculus of kept
    invariants (\<open>keeps\<close>), stable sorting.
  \<^item> \<open>Cxx_Text\<close>: \<open>std::to_string\<close>, \<open>std::stoi\<close>, binary64 rounding and the output of a double with
    a given precision, as perf.cc, cmdline.cc and image.cc use them.
  \<^item> \<open>Context\<close>: the data of gazosan.h, the two interfaces, \<open>SyncOut\<close>, \<open>add_color\<close>, \<open>Fatal\<close>,
    \<open>errno_string\<close>, and the sample instances \<open>sample_cv\<close> and \<open>sample_os\<close> of the examples.
  \<^item> \<open>Perf\<close>: perf.cc and \<open>Timer\<close>. The records form a forest (\<open>wf_timers\<close>); the locales
    \<open>timer_scopes\<close> and \<open>timer_blind\<close> say once what an invariant must satisfy to survive scoped
    timers, and are interpreted for every invariant of the later stages. The report is total and
    prints each record once, at its depth, under the record that encloses it.
  \<^item> \<open>Cmdline\<close>: cmdline.cc. Invariant of the options, round trip with a printer of command lines,
    first error wins.
  \<^item> \<open>Loading\<close>: \<open>MappedFile\<close> and \<open>load_image\<close>. Functional result, balance of descriptors and
    mappings, diagnostics.
  \<^item> \<open>Histogram\<close>: \<open>check_histogram_differential\<close>, with the comparison of doubles rounded as in
    binary64.
  \<^item> \<open>Segments\<close>: \<open>split_segments\<close>. The breadth-first search is an instance of the locale
    \<open>worklist_search\<close> and collects exactly an 8-connected component; the scan returns one
    rectangle per component; the contour loop ends on the hierarchies OpenCV documents.
  \<^item> \<open>Detect\<close>: \<open>detect_segments\<close> and \<open>save_segments\<close>, proved once in the locale
    \<open>segment_store\<close> for a list of segments in the context and interpreted for both lists; a
    refinement of the state-free specification \<open>detected\<close>.
  \<^item> \<open>Matching\<close>: \<open>descriptor_match\<close>. The median test is a majority vote, the cross check a
    matching, the verdict symmetric.
  \<^item> \<open>Diff\<close>: \<open>rect_from\<close> and \<open>create_diff_image\<close>, pixel by pixel.
  \<^item> \<open>Main_Program\<close>, \<open>Timing\<close>, \<open>Whole_Run\<close>: \<open>main\<close>. How a run ends, that the clock has no
    influence on it, and theorems on complete runs from the command line to the written image.
  \<^item> \<open>Same_Verdict\<close>: what the histogram check cannot see: the place and the brightness of pixels.
  \<^item> \<open>Well_Formed\<close>: the well-formed contexts, and that the stages of \<open>main\<close> lead to one.
  \<^item> \<open>Parallel_Diff\<close>: the loops of \<open>create_diff_image\<close> in the build with \<open>ENABLE_PARALLEL\<close>, as a
    step relation on interleaved tasks with exceptions and cancellation; termination by the locale
    \<open>bounded_system\<close>, invariants by the locale \<open>invariant_system\<close>.
  \<^item> \<open>Task_Groups\<close>: task groups as interleaved lists of steps with the exceptions that a group
    collects. The contract \<open>independent_tasks\<close> gives that a group does what its tasks do one after
    the other; loading and the outlines satisfy it.
  \<^item> \<open>Task_Trees\<close>: tasks that carry local variables and start groups of their own. They end under
    every schedule; the judgement \<open>secures\<close> (rely and guarantee) and the contract \<open>separated\<close> compose
    what is known of the tasks of a group; \<open>serially\<close> gives that running one task after the other is a
    schedule.
  \<^item> \<open>Parallel_Detect\<close>: \<open>detect_segments\<close> of the parallel build, with the nested loop over the
    descriptors and the timers of the tasks, and that it does what the serial one does.
  \<^item> \<open>Schedules\<close>: programs with several results, and triples for total correctness under every
    schedule, up to the timers.
  \<^item> \<open>Parallel_Main\<close>: \<open>load_image\<close>, \<open>create_diff_image\<close> with the tasks that write the change
    images, and \<open>main\<close> of the parallel build; theorems on complete runs under every schedule.
  \<^item> \<open>Parallel_Safety\<close>: invariants of tasks and of programs with several results, for runs in which
    anything may fail (\<open>steady\<close>, \<open>nkeeps\<close>, and the contract \<open>segments_blind\<close>). The parallel build always
    has a result and gives everything back when it returns.
  \<^item> \<open>Parallel_Output\<close>: the images that any run of the parallel build can leave behind, by bounds on
    the states in which a program returns or ends the process (\<open>bound\<close>).
  \<^item> This theory: the serial and the parallel loops agree where both are meant to.

  \<^bold>\<open>Laws assumed of OpenCV\<close>, each a definition on \<open>opencv\<close> that an instance of the examples
  satisfies (\<open>white_black_cv\<close> the laws on histograms, \<open>sample_cv\<close> the others): \<open>rect_law\<close> (the rectangle
  of two corners), \<open>roi_law\<close> and \<open>size_laws\<close> (a region inside the image can be cut out and has its size;
  conversions keep the size), \<open>gray_law\<close>, \<open>drawing_laws\<close> (outlines, merging, the order of the channels),
  \<open>stroke_law\<close> (an outline sets pixels that depend on the rectangle and the thickness), \<open>template_law\<close>
  (positions of a template), \<open>match_law\<close> (one match per row, with a valid index), \<open>distance_law\<close> (the
  distance of two rows is symmetric), \<open>empty_law\<close> (an empty image cannot be converted), \<open>hsv_law\<close>,
  \<open>hist_law\<close> and \<open>chisqr_law\<close> (conversion to HSV, counting of histograms, distance of a histogram to
  itself), and well-formed contour hierarchies; \<open>opencv_laws\<close> collects those that a complete run needs.
  Of the system: \<open>sizes_ok\<close>, a file size is not negative.

  \<^bold>\<open>Recursion.\<close> All loops are total functions but two. \<open>label_loop\<close> follows links that could form
  a cycle and is a partial function with value \<open>None\<close> when it does not end; it is proved to end on
  the hierarchies OpenCV documents. \<open>print_rec\<close> walks a tree stored by index and has fuel: the
  number of records, which is enough because they form a forest, as is proved.

  \<^bold>\<open>Not modelled.\<close> The inside of OpenCV, and of TBB all but how a group runs its tasks and handles
  exceptions. Of the limit on threads only the check of its constructor is modelled: a limit makes
  fewer schedules possible. An exception cancels the tasks that have not started, in its own group and
  in the groups inside it; when a group that was cancelled from outside throws as well, its exception is
  kept here, where TBB drops it, and the run ends with an exception either way. Creating a timer record
  is one step, and so is drawing the outlines of one change image. The parallel parts are interleaved steps on
  sequentially consistent memory: the unsynchronised access to \<open>matched\<close> is formally a data race in
  C++.
  Approximate search in FLANN is a function here, so two calls on the same data agree. Distances of
  matches are rational, without NaN. Coordinates and loop counters are unbounded integers: they are
  bounded by the dimensions of an image, which fit an \<open>int\<close>. Conversions where a width matters (the
  file size, \<open>stoi\<close>, time stamps) are kept at their width. \<open>get_contents\<close> and \<open>SyncOut\<close> on the
  standard output are used nowhere. A \<open>const char *\<close> returned as \<open>std::variant<bool, string>\<close> is
  taken as a string, as C++20 does. Build files hold no program logic.
\<close>

section \<open>The serial and the parallel loops\<close>

text \<open>When every pair matches, a segment of the new image is hit as soon as there is a segment in the old one.\<close>

lemma all_match_hit:
  assumes "all_match cv v olds news" and "seg \<in> set news"
  shows "hit cv v olds seg \<longleftrightarrow> olds \<noteq> []"
  using assms by (cases olds) (auto simp: hit_def all_match_def)

text \<open>
  C8. Where the serial loops produce an image, the parallel loops produce the same one under every
  schedule: if every segment of the old image matches every segment of the new one, the image
  that the serial loops return and the image that the tasks leave behind have the same size and
  the same pixels.
\<close>

theorem serial_and_parallel_agree:
  assumes "par_ok cv v olds news base" and "all_match cv v olds news"
    and "(par_step cv v olds news)\<^sup>*\<^sup>* (par_start olds news base) s" and "quiescent olds news s"
  shows "\<exists>m. fst (match_old cv v news olds base ()) = Ret (Some m) \<and> same_size (p_result s) m \<and>
    (\<forall>y x. inside m y x \<longrightarrow> pix (p_result s) y x = pix m y x)"
proof -
  obtain m where m: "fst (match_old cv v news olds base ()) = Ret (Some m)" "same_size m base"
    "painted base (\<lambda>y x. olds \<noteq> [] \<and> (\<exists>seg \<in> set news. marks cv v seg y x)) m"
    using match_old_painted [of cv v olds news base "()"] assms(1,2) unfolding par_ok_def by force
  have "painted base (\<lambda>y x. \<exists>seg \<in> set news. hit cv v olds seg \<and> marks cv v seg y x) (p_result s)"
    by (rule result_painted [OF par_inv_reach [OF assms(1,3)] assms(4)])
  then have "painted base (\<lambda>y x. olds \<noteq> [] \<and> (\<exists>seg \<in> set news. marks cv v seg y x)) (p_result s)"
    by (rule painted_cong) (auto simp: all_match_hit [OF assms(2)])
  with m show ?thesis by (auto simp: painted_def same_size_def inside_def)
qed

theorem serial_and_parallel_agree_witness:
  "\<exists>s m. quiescent [sample_segment, sample_segment] [sample_segment] s \<and>
     fst (match_old sample_cv (diff_view_of paired) [sample_segment] [sample_segment, sample_segment] sample_base ()) =
       Ret (Some m) \<and> same_size (p_result s) m"
proof -
  let ?v = "diff_view_of paired" and ?olds = "[sample_segment, sample_segment]" and ?news = "[sample_segment]"
  obtain s where s: "(par_step sample_cv ?v ?olds ?news)\<^sup>*\<^sup>* (par_start ?olds ?news sample_base) s" "quiescent ?olds ?news s"
    using tasks.reaches_final by blast
  have "all_match sample_cv ?v ?olds ?news" by (simp add: all_match_def sample_usable sample_matches)
  from serial_and_parallel_agree [OF sample_par_ok this s] s(2) show ?thesis by blast
qed

end
